(* ===== verification/Prelude.thy ===== *)
theory Prelude
  imports Main "HOL-Library.Word" "HOL-Library.Signed_Division" "HOL-Library.Char_ord"
    "HOL-Library.List_Lexorder" "HOL-Library.Multiset"
begin

text \<open>
  Shared vocabulary of the development: Go's 64-bit integers, durations and instants,
  decimal printing, the string functions of the Go standard library the sources call,
  and the generic list and map lemmas that the component theories rely on.
\<close>

named_theorems go_defs \<open>unfolding rules for the small Go operators\<close>

subsection \<open>Machine integers, durations and instants\<close>

text \<open>
  A Go \<open>int\<close> is a 64-bit two's complement integer. It is modelled by an \<open>int\<close>;
  where a product or a sum of unbounded inputs can overflow, \<open>i64\<close> writes the wrap-around
  out. Division truncates towards zero (\<open>sdiv\<close>). A \<open>time.Duration\<close> and a
  \<open>time.Time\<close> are nanosecond counts; \<open>time_sub\<close> saturates as \<open>Time.Sub\<close> does.
\<close>

type_synonym duration = int
type_synonym go_time = int

definition i64_min :: int where
  "i64_min = - (2 ^ 63)"

definition i64_max :: int where
  "i64_max = 2 ^ 63 - 1"

definition i64 :: "int \<Rightarrow> int" where
  "i64 x = (x + 2 ^ 63) mod 2 ^ 64 - 2 ^ 63"

definition time_sub :: "go_time \<Rightarrow> go_time \<Rightarrow> duration" where
  "time_sub t u = max i64_min (min i64_max (t - u))"

definition time_zero :: go_time where
  "time_zero = - 62135596800 * 10 ^ 9"

abbreviation (input) millisecond :: duration where "millisecond \<equiv> 1000000"
abbreviation (input) second :: duration where "second \<equiv> 1000000000"

lemma i64_range: "i64_min \<le> i64 x \<and> i64 x \<le> i64_max"
proof -
  have "0 \<le> (x + 2 ^ 63) mod 2 ^ 64" "(x + 2 ^ 63) mod 2 ^ 64 < (2 :: int) ^ 64"
    by (rule pos_mod_sign, simp) (rule pos_mod_bound, simp)
  then show ?thesis by (simp add: i64_def i64_min_def i64_max_def)
qed

lemma i64_id [simp]: "i64_min \<le> x \<Longrightarrow> x \<le> i64_max \<Longrightarrow> i64 x = x"
  by (simp add: i64_def i64_min_def i64_max_def)

lemma time_sub_eq: "i64_min \<le> t - u \<Longrightarrow> t - u \<le> i64_max \<Longrightarrow> time_sub t u = t - u"
  by (simp add: time_sub_def)

lemma time_sub_le: "u \<le> t \<Longrightarrow> 0 \<le> time_sub t u \<and> time_sub t u \<le> t - u"
  by (simp add: time_sub_def i64_min_def i64_max_def)

lemma time_sub_refl [simp]: "time_sub t t = 0"
  by (simp add: time_sub_def i64_min_def i64_max_def)

lemma sdiv_pos: "0 \<le> (a :: int) \<Longrightarrow> 0 < b \<Longrightarrow> a sdiv b = a div b"
  by (simp add: signed_divide_int_def sgn_if)

subsection \<open>Decimal printing and first occurrences\<close>

text \<open>The verbs \<open>%d\<close> and \<open>strconv.Itoa\<close>.\<close>

function dec_digits :: "int \<Rightarrow> string" where
  "dec_digits n =
     (if n < 10 then [char_of (48 + n)] else dec_digits (n div 10) @ [char_of (48 + n mod 10)])"
  by pat_completeness auto
termination by (relation "measure nat") auto

declare dec_digits.simps [simp del]

definition itoa :: "int \<Rightarrow> string" where
  "itoa x = (if x < 0 then CHR ''-'' # dec_digits (- x) else dec_digits x)"

text \<open>The elements of a list in the order in which they are first seen.\<close>

fun firsts :: "'a list \<Rightarrow> 'a list" where
  "firsts [] = []"
| "firsts (x # xs) = x # filter (\<lambda>y. y \<noteq> x) (firsts xs)"

lemma set_firsts [simp]: "set (firsts xs) = set xs"
  by (induction xs) auto

lemma distinct_firsts [simp]: "distinct (firsts xs)"
  by (induction xs) auto

lemma firsts_filter: "firsts (filter P xs) = filter P (firsts xs)"
  by (induction xs) (auto simp: filter_filter conj_commute intro: filter_cong)

lemma firsts_append: "firsts (xs @ ys) = firsts xs @ filter (\<lambda>y. y \<notin> set xs) (firsts ys)"
  by (induction xs) (auto intro: filter_cong)

lemma hd_firsts: "xs \<noteq> [] \<Longrightarrow> hd (firsts xs) = hd xs"
  by (cases xs) simp_all

lemma length_firsts: "length (firsts xs) = card (set xs)"
  by (metis distinct_card distinct_firsts set_firsts)

lemma list_all_update: "list_all P xs \<Longrightarrow> P x \<Longrightarrow> list_all P (xs[i := x])"
  by (auto simp: list_all_iff dest!: set_update_subset_insert [THEN subsetD])

subsection \<open>Binary search\<close>

text \<open>\<open>sort.Search\<close>: \<open>i + j\<close> is computed as an unsigned sum in the source and does not overflow.\<close>

function search_loop :: "(nat \<Rightarrow> bool) \<Rightarrow> nat \<Rightarrow> nat \<Rightarrow> nat" where
  "search_loop f i j =
     (if i < j then let m = (i + j) div 2 in if \<not> f m then search_loop f (m + 1) j else search_loop f i m
      else i)"
  by pat_completeness auto
termination by (relation "measure (\<lambda>(f, i, j). j - i)") auto

declare search_loop.simps [simp del]

definition sort_Search :: "nat \<Rightarrow> (nat \<Rightarrow> bool) \<Rightarrow> nat" where
  "sort_Search n f = search_loop f 0 n"

lemma search_loop_least:
  assumes "\<forall>a b. a \<le> b \<and> b < n \<and> f a \<longrightarrow> f b" "i \<le> j" "j \<le> n"
    "\<forall>a < i. \<not> f a" "\<forall>a. j \<le> a \<and> a < n \<longrightarrow> f a"
  shows "search_loop f i j \<le> n \<and> (\<forall>a < search_loop f i j. \<not> f a) \<and>
    (\<forall>a. search_loop f i j \<le> a \<and> a < n \<longrightarrow> f a)"
  using assms
proof (induction f i j rule: search_loop.induct)
  case (1 f i j)
  show ?case
  proof (cases "i < j")
    case True
    define m where "m = (i + j) div 2"
    have m: "i \<le> m" "m < j" "m \<le> n" "m + 1 \<le> j" using True 1(5) by (auto simp: m_def)
    show ?thesis
    proof (cases "f m")
      case t: True
      have eq: "search_loop f i j = search_loop f i m"
        by (subst search_loop.simps) (simp add: True t m_def [symmetric] Let_def)
      have "\<forall>a. m \<le> a \<and> a < n \<longrightarrow> f a" using 1(3) t by blast
      then show ?thesis unfolding eq using 1(2) [OF True m_def _ 1(3) m(1,3) 1(6)] t by blast
    next
      case f: False
      have eq: "search_loop f i j = search_loop f (m + 1) j"
        by (subst search_loop.simps) (simp add: True f m_def [symmetric] Let_def)
      have "\<not> f a" if "a < m + 1" for a
      proof
        assume "f a"
        moreover have "a \<le> m" "m < n" using that m 1(5) by auto
        ultimately show False using 1(3) f by blast
      qed
      then show ?thesis unfolding eq using 1(1) [OF True m_def f 1(3) m(4) 1(5) _ 1(7)] by blast
    qed
  next
    case False
    then have "search_loop f i j = i" by (simp add: search_loop.simps)
    then show ?thesis using False 1(3-) by auto
  qed
qed

lemma sort_Search_least:
  assumes "\<forall>a b. a \<le> b \<and> b < n \<and> f a \<longrightarrow> f b"
  shows "sort_Search n f \<le> n \<and> (\<forall>a < sort_Search n f. \<not> f a) \<and>
    (\<forall>a. sort_Search n f \<le> a \<and> a < n \<longrightarrow> f a)"
  unfolding sort_Search_def by (rule search_loop_least [OF assms]) auto

end
