(* ===== verification/Float64.thy ===== *)
theory Float64
  imports Prelude "HOL-Library.Log_Nat"
begin

text \<open>
  Go's \<open>float64\<close>: IEEE 754 binary64 with round-to-nearest-even, as an executable datatype.
  A finite value is the rational it denotes; \<open>f64_round\<close> rounds an exact rational result to
  the binary64 grid, subnormals and overflow included. The sign of zero is not kept: no
  operation of the sources tells the two zeros apart. The breaker's failure ratio, the rate
  limiter's rates and the load generator's percentages are values of this type.
\<close>

datatype f64 = NaN | Inf bool | Fin rat

definition ilog2 :: "rat \<Rightarrow> int" where
  "ilog2 x = (let (p, q) = quotient_of x; k = bitlen p - bitlen q
              in if 2 powi k \<le> x then k else k - 1)"

definition round_half_even :: "rat \<Rightarrow> int" where
  "round_half_even r =
     (let f = \<lfloor>r\<rfloor>; d = r - of_int f
      in if d < 1 / 2 then f else if 1 / 2 < d then f + 1 else if even f then f else f + 1)"

definition grid_exp :: "rat \<Rightarrow> int" where
  "grid_exp x = max (ilog2 \<bar>x\<bar> - 52) (- 1074)"

definition f64_round :: "rat \<Rightarrow> f64" where
  "f64_round x =
     (if x = 0 then Fin 0
      else let e = grid_exp x; y = of_int (round_half_even (x / 2 powi e)) * 2 powi e
           in if y \<noteq> 0 \<and> 1024 \<le> ilog2 \<bar>y\<bar> then Inf (y < 0) else Fin y)"

definition f64_of_int :: "int \<Rightarrow> f64" where
  "f64_of_int n = f64_round (of_int n)"

fun f64_isNaN :: "f64 \<Rightarrow> bool" where
  "f64_isNaN NaN = True"
| "f64_isNaN _ = False"

fun f64_isInf :: "f64 \<Rightarrow> bool" where
  "f64_isInf (Inf _) = True"
| "f64_isInf _ = False"

fun f64_lt :: "f64 \<Rightarrow> f64 \<Rightarrow> bool" where
  "f64_lt (Fin a) (Fin b) = (a < b)"
| "f64_lt (Inf s) (Inf t) = (s \<and> \<not> t)"
| "f64_lt (Inf s) (Fin _) = s"
| "f64_lt (Fin _) (Inf t) = (\<not> t)"
| "f64_lt _ _ = False"

fun f64_eq :: "f64 \<Rightarrow> f64 \<Rightarrow> bool" where
  "f64_eq (Fin a) (Fin b) = (a = b)"
| "f64_eq (Inf s) (Inf t) = (s = t)"
| "f64_eq _ _ = False"

definition f64_le :: "f64 \<Rightarrow> f64 \<Rightarrow> bool" where
  "f64_le a b = (f64_lt a b \<or> f64_eq a b)"

fun f64_mul :: "f64 \<Rightarrow> f64 \<Rightarrow> f64" where
  "f64_mul (Fin a) (Fin b) = f64_round (a * b)"
| "f64_mul (Inf s) (Inf t) = Inf (s \<noteq> t)"
| "f64_mul (Inf s) (Fin b) = (if b = 0 then NaN else Inf (s \<noteq> (b < 0)))"
| "f64_mul (Fin a) (Inf t) = (if a = 0 then NaN else Inf (t \<noteq> (a < 0)))"
| "f64_mul _ _ = NaN"

fun f64_div :: "f64 \<Rightarrow> f64 \<Rightarrow> f64" where
  "f64_div (Fin a) (Fin b) =
     (if b = 0 then (if a = 0 then NaN else Inf (a < 0)) else f64_round (a / b))"
| "f64_div (Inf s) (Fin b) = Inf (s \<noteq> (b < 0))"
| "f64_div (Fin _) (Inf _) = Fin 0"
| "f64_div _ _ = NaN"

fun f64_add :: "f64 \<Rightarrow> f64 \<Rightarrow> f64" where
  "f64_add (Fin a) (Fin b) = f64_round (a + b)"
| "f64_add (Inf s) (Inf t) = (if s = t then Inf s else NaN)"
| "f64_add (Inf s) (Fin _) = Inf s"
| "f64_add (Fin _) (Inf t) = Inf t"
| "f64_add _ _ = NaN"

text \<open>\<open>math.Ceil\<close>: exact on binary64, infinities and NaN are returned unchanged.\<close>

fun f64_ceil :: "f64 \<Rightarrow> f64" where
  "f64_ceil (Fin a) = Fin (of_int \<lceil>a\<rceil>)"
| "f64_ceil x = x"

text \<open>
  \<open>math.Round\<close>: to the nearest integer, halves away from zero.
\<close>

fun f64_roundAway :: "f64 \<Rightarrow> f64" where
  "f64_roundAway (Fin a) = Fin (of_int (if 0 \<le> a then \<lfloor>a + 1 / 2\<rfloor> else - \<lfloor>- a + 1 / 2\<rfloor>))"
| "f64_roundAway x = x"

text \<open>
  The conversion \<open>int(f)\<close> truncates towards zero. For NaN, the infinities and values beyond
  the int64 range the Go specification leaves the result to the implementation: it is the
  argument \<open>oob\<close>.
\<close>

fun f64_toInt :: "(f64 \<Rightarrow> int) \<Rightarrow> f64 \<Rightarrow> int" where
  "f64_toInt oob (Fin a) =
     (let n = (if 0 \<le> a then \<lfloor>a\<rfloor> else \<lceil>a\<rceil>)
      in if i64_min \<le> n \<and> n \<le> i64_max then n else oob (Fin a))"
| "f64_toInt oob x = oob x"

subsection \<open>The base-two exponent of a rational\<close>

lemma quotient_of_pos: "0 < x \<Longrightarrow> quotient_of x = (p, q) \<Longrightarrow> 0 < p \<and> 0 < q \<and> x = of_int p / of_int q"
  by (metis Fract_of_int_quotient quotient_of_denom_pos quotient_of_div zero_less_Fract_iff)

lemma powi_bitlen:
  assumes "0 < p"
  shows "(2 :: rat) powi (bitlen p - 1) \<le> of_int p" and "of_int p < (2 :: rat) powi bitlen p"
proof -
  have b: "2 ^ nat (bitlen p - 1) \<le> p \<and> p < 2 ^ nat (bitlen p)"
    by (rule bitlen_bounds [OF assms])
  have nn: "0 \<le> bitlen p - 1" "0 \<le> bitlen p"
    using assms by (auto simp: bitlen_alt_def)
  have "(of_int (2 ^ nat (bitlen p - 1)) :: rat) \<le> of_int p"
    using b by (simp only: of_int_le_iff)
  then show "(2 :: rat) powi (bitlen p - 1) \<le> of_int p" using nn by (simp add: power_int_def)
  have "(of_int p :: rat) < of_int (2 ^ nat (bitlen p))"
    using b by (simp only: of_int_less_iff)
  then show "of_int p < (2 :: rat) powi bitlen p" using nn by (simp add: power_int_def)
qed

lemma ilog2_bounds:
  assumes "0 < x"
  shows "2 powi ilog2 x \<le> x" and "x < 2 powi (ilog2 x + 1)"
proof -
  obtain p q where pq: "quotient_of x = (p, q)" by (cases "quotient_of x")
  with assms have p: "0 < p" and q: "0 < q" and x: "x = of_int p / of_int q"
    using quotient_of_pos by blast+
  let ?k = "bitlen p - bitlen q"
  have qr: "(0 :: rat) < of_int q" using q by simp
  have up: "x < 2 powi (?k + 1)"
  proof -
    have "of_int p < (2 :: rat) powi bitlen p" by (rule powi_bitlen [OF p])
    also have "\<dots> = 2 powi (?k + 1) * 2 powi (bitlen q - 1)"
      by (simp flip: power_int_add)
    also have "\<dots> \<le> 2 powi (?k + 1) * of_int q"
      by (rule mult_left_mono [OF powi_bitlen(1) [OF q]]) simp
    finally show ?thesis using qr by (simp add: x divide_less_eq)
  qed
  have lo: "2 powi (?k - 1) \<le> x"
  proof -
    have "2 powi (?k - 1) * of_int q \<le> 2 powi (?k - 1) * (2 :: rat) powi bitlen q"
      by (rule mult_left_mono) (use powi_bitlen(2) [OF q] in simp_all)
    also have "\<dots> = 2 powi (bitlen p - 1)" by (simp flip: power_int_add)
    also have "\<dots> \<le> of_int p" by (rule powi_bitlen [OF p])
    finally show ?thesis using qr by (simp add: x le_divide_eq)
  qed
  show "2 powi ilog2 x \<le> x" using lo by (simp add: ilog2_def pq Let_def)
  show "x < 2 powi (ilog2 x + 1)" using up by (auto simp: ilog2_def pq Let_def)
qed

lemma ilog2_le: "0 < x \<Longrightarrow> x < 2 powi (k + 1) \<Longrightarrow> ilog2 x \<le> k"
proof (rule ccontr)
  assume x: "0 < x" "x < 2 powi (k + 1)" and "\<not> ilog2 x \<le> k"
  then have "(2 :: rat) powi (k + 1) \<le> 2 powi ilog2 x"
    by (intro power_int_increasing) simp_all
  with x ilog2_bounds(1) [OF x(1)] show False by simp
qed

subsection \<open>Rounding\<close>

lemma round_half_even_of_int [simp]: "round_half_even (of_int n) = n"
  by (simp add: round_half_even_def)

lemma round_half_even_le: "r \<le> of_int n \<Longrightarrow> round_half_even r \<le> n"
proof -
  assume r: "r \<le> of_int n"
  show ?thesis
  proof (cases "\<lfloor>r\<rfloor> = n")
    case True
    then have "r = of_int n" using r by (meson eq_iff floor_le_iff order_refl le_floor_iff)
    then show ?thesis by simp
  next
    case False
    with r have "\<lfloor>r\<rfloor> + 1 \<le> n" by (metis floor_mono floor_of_int int_le_real_less less_le zless_add1_eq add1_zle_eq)
    then show ?thesis by (auto simp: round_half_even_def Let_def)
  qed
qed

lemma round_half_even_ge: "of_int n \<le> r \<Longrightarrow> n \<le> round_half_even r"
proof -
  assume "of_int n \<le> r"
  then have "n \<le> \<lfloor>r\<rfloor>" by (simp add: le_floor_iff)
  then show ?thesis by (auto simp: round_half_even_def Let_def)
qed

lemma grid_div_integer:
  assumes "e \<le> 0"
  shows "of_int n / (2 :: rat) powi e = of_int (n * 2 ^ nat (- e))"
  using assms by (auto simp: power_int_def field_simps)

lemma f64_round_int_exact:
  assumes "\<bar>n\<bar> \<le> 2 ^ 53"
  shows "f64_round (of_int n) = Fin (of_int n)"
proof (cases "n = 0")
  case False
  then have n0: "(0 :: rat) < \<bar>of_int n\<bar>" by simp
  have lim: "\<bar>of_int n :: rat\<bar> \<le> 2 ^ 53" using assms by (metis of_int_abs of_int_le_iff of_int_numeral of_int_power)
  have "(2 :: rat) ^ 53 < 2 powi (53 + 1)" by (simp add: power_int_def)
  with lim have log: "ilog2 \<bar>of_int n\<bar> \<le> 53" by (intro ilog2_le [OF n0]) (rule le_less_trans)
  then consider "grid_exp (of_int n) \<le> 0" | "ilog2 \<bar>of_int n\<bar> = 53" "grid_exp (of_int n) = 1"
    by (fastforce simp: grid_exp_def)
  then have "\<exists>m. of_int n / (2 :: rat) powi grid_exp (of_int n) = of_int m"
  proof cases
    case 1
    show ?thesis unfolding grid_div_integer [OF 1] by (rule exI) (rule refl)
  next
    case 2
    then have "(2 :: rat) ^ 53 \<le> \<bar>of_int n\<bar>" using ilog2_bounds(1) [OF n0] by (simp add: power_int_def)
    with lim have "\<bar>of_int n\<bar> = (2 :: rat) ^ 53" by simp
    then have "\<bar>n\<bar> = 2 ^ 53" by (metis of_int_abs of_int_eq_iff of_int_numeral of_int_power)
    then have "n = 2 * 2 ^ 52 \<or> n = 2 * - (2 ^ 52)" by auto
    then have "\<exists>m. n = 2 * m" by blast
    with 2 show ?thesis by auto
  qed
  then obtain m where m: "of_int n / (2 :: rat) powi grid_exp (of_int n) = of_int m" by blast
  have "(of_int m :: rat) * 2 powi grid_exp (of_int n) = of_int n"
    unfolding m [symmetric] by simp
  moreover have "ilog2 \<bar>of_int n\<bar> < 1024" using log by simp
  ultimately show ?thesis using False by (simp add: f64_round_def m Let_def)
qed (simp add: f64_round_def)

lemma f64_round_unit:
  assumes "0 \<le> x" "x \<le> 1"
  shows "\<exists>y. f64_round x = Fin y \<and> 0 \<le> y \<and> y \<le> 1"
proof (cases "x = 0")
  case False
  with assms have x: "0 < x" by simp
  then have "ilog2 x \<le> 0" using assms(2) by (intro ilog2_le) (auto simp: power_int_def)
  with x have e: "grid_exp x \<le> 0" by (simp add: grid_exp_def)
  define e where "e = grid_exp x"
  define N where "N = (2 :: int) ^ nat (- e)"
  have N: "1 / (2 :: rat) powi e = of_int N"
    using grid_div_integer [of e 1] e by (simp add: N_def e_def)
  have p: "(0 :: rat) < 2 powi e" by simp
  have "x / 2 powi e \<le> 1 / 2 powi e" using assms p by (intro divide_right_mono) auto
  then have "round_half_even (x / 2 powi e) \<le> N" unfolding N by (rule round_half_even_le)
  then have "of_int (round_half_even (x / 2 powi e)) * (2 :: rat) powi e \<le> of_int N * 2 powi e"
    using p by (intro mult_right_mono) auto
  also have "\<dots> = 1" unfolding N [symmetric] by simp
  finally have le1: "of_int (round_half_even (x / 2 powi e)) * (2 :: rat) powi e \<le> 1" .
  have "0 \<le> round_half_even (x / 2 powi e)" by (rule round_half_even_ge) (use x in simp)
  then have ge0: "0 \<le> of_int (round_half_even (x / 2 powi e)) * (2 :: rat) powi e" by simp
  have "ilog2 y < 1024" if "0 < y" "y \<le> 1" for y
    using ilog2_le [OF that(1), of 0] that(2) by simp
  with le1 ge0 have "\<not> (of_int (round_half_even (x / 2 powi e)) * (2 :: rat) powi e \<noteq> 0 \<and>
      1024 \<le> ilog2 \<bar>of_int (round_half_even (x / 2 powi e)) * (2 :: rat) powi e\<bar>)"
    by (metis abs_of_nonneg leD order_le_less)
  with le1 ge0 False show ?thesis by (simp add: f64_round_def e_def [symmetric] Let_def)
qed (simp add: f64_round_def)

lemma f64_round_0 [simp]: "f64_round 0 = Fin 0"
  by (simp add: f64_round_def)

lemma f64_round_1 [simp]: "f64_round 1 = Fin 1"
  using f64_round_int_exact [of 1] by simp

lemma f64_le_refl_Fin [simp]: "f64_le (Fin a) (Fin b) = (a \<le> b)"
  by (auto simp: f64_le_def)

lemma f64_of_int_exact [simp]: "\<bar>n\<bar> \<le> 2 ^ 53 \<Longrightarrow> f64_of_int n = Fin (of_int n)"
  by (simp add: f64_of_int_def f64_round_int_exact)

text \<open>Rounding is off by at most half a unit in the last place.\<close>

lemma round_half_even_error: "\<bar>of_int (round_half_even r) - r\<bar> \<le> 1 / 2"
  by (simp add: round_half_even_def Let_def abs_if) linarith

lemma f64_round_error:
  assumes "\<bar>x\<bar> \<le> 2 ^ 200"
  shows "\<exists>y. f64_round x = Fin y \<and> \<bar>y - x\<bar> \<le> \<bar>x\<bar> / 2 ^ 53 + 1 / 2 ^ 1075"
proof (cases "x = 0")
  case False
  let ?e = "grid_exp x"
  let ?g = "(2 :: rat) powi ?e"
  let ?y = "of_int (round_half_even (x / ?g)) * ?g"
  have g: "0 < ?g" by simp
  have "?y - x = (of_int (round_half_even (x / ?g)) - x / ?g) * ?g" using g by (simp add: left_diff_distrib)
  then have "\<bar>?y - x\<bar> = \<bar>of_int (round_half_even (x / ?g)) - x / ?g\<bar> * ?g" using g by (simp add: abs_mult)
  also have "\<dots> \<le> 1 / 2 * ?g" using round_half_even_error g by (intro mult_right_mono) simp_all
  finally have err: "\<bar>?y - x\<bar> \<le> ?g / 2" by simp
  have "?g \<le> 2 powi (ilog2 \<bar>x\<bar> - 52) + 2 powi (- 1074)"
    by (simp add: grid_exp_def max_def)
  moreover have "(2 :: rat) powi (ilog2 \<bar>x\<bar> - 52) = 2 powi ilog2 \<bar>x\<bar> / 2 ^ 52"
    by (simp add: power_int_diff)
  moreover have "2 powi ilog2 \<bar>x\<bar> \<le> \<bar>x\<bar>" using False by (intro ilog2_bounds(1)) simp
  moreover have "(2 :: rat) powi (- 1074) = 1 / 2 ^ 1074" by (simp add: power_int_minus_divide)
  ultimately have bound: "\<bar>?y - x\<bar> \<le> \<bar>x\<bar> / 2 ^ 53 + 1 / 2 ^ 1075" using err by simp
  have "\<not> 1024 \<le> ilog2 \<bar>?y\<bar>" if "?y \<noteq> 0"
  proof -
    have "\<bar>?y\<bar> \<le> \<bar>x\<bar> + (\<bar>x\<bar> / 2 ^ 53 + 1 / 2 ^ 1075)" using bound by linarith
    also have "\<dots> < 2 powi (1023 + 1)" using assms by simp
    finally have "ilog2 \<bar>?y\<bar> \<le> 1023" using that by (intro ilog2_le) simp_all
    then show ?thesis by simp
  qed
  then have "f64_round x = Fin ?y" using False by (auto simp: f64_round_def Let_def)
  then show ?thesis using bound by blast
qed (simp)

lemma f64_round_near:
  assumes "\<bar>x\<bar> \<le> 4"
  shows "\<exists>y. f64_round x = Fin y \<and> \<bar>y - x\<bar> \<le> 1 / 1000000000000000"
proof -
  have "\<bar>x\<bar> \<le> 2 ^ 200" using assms by (rule order_trans) simp
  then obtain y where y: "f64_round x = Fin y" and "\<bar>y - x\<bar> \<le> \<bar>x\<bar> / 2 ^ 53 + 1 / 2 ^ 1075"
    using f64_round_error by blast
  moreover have "\<bar>x\<bar> / 2 ^ 53 + 1 / 2 ^ 1075 \<le> 1 / 1000000000000000" using assms by simp
  ultimately show ?thesis by fastforce
qed

end
