(* ===== verification/Go_Strings.thy ===== *)
theory Go_Strings
  imports Float64 "HOL-Library.Sublist"
begin

text \<open>
  The functions of \<^verbatim>\<open>strings\<close>, \<^verbatim>\<open>strconv\<close> and \<^verbatim>\<open>time\<close> that the sources call, on byte strings.
  \<open>TrimSpace\<close> knows the UTF-8 encodings of all white space of \<open>unicode.IsSpace\<close>. \<open>ToLower\<close> maps
  ASCII letters and the two non-ASCII letters whose lower case is ASCII; any other non-ASCII
  letter has a non-ASCII image and is kept, which no comparison with an ASCII name can tell apart.
\<close>

subsection \<open>strings\<close>

definition space_runes :: "string list" where
  "space_runes =
     [[CHR 0x20], [CHR 0x09], [CHR 0x0A], [CHR 0x0B], [CHR 0x0C], [CHR 0x0D],
      [CHR 0xC2, CHR 0x85], [CHR 0xC2, CHR 0xA0], [CHR 0xE1, CHR 0x9A, CHR 0x80],
      [CHR 0xE2, CHR 0x80, CHR 0x80], [CHR 0xE2, CHR 0x80, CHR 0x81], [CHR 0xE2, CHR 0x80, CHR 0x82],
      [CHR 0xE2, CHR 0x80, CHR 0x83], [CHR 0xE2, CHR 0x80, CHR 0x84], [CHR 0xE2, CHR 0x80, CHR 0x85],
      [CHR 0xE2, CHR 0x80, CHR 0x86], [CHR 0xE2, CHR 0x80, CHR 0x87], [CHR 0xE2, CHR 0x80, CHR 0x88],
      [CHR 0xE2, CHR 0x80, CHR 0x89], [CHR 0xE2, CHR 0x80, CHR 0x8A], [CHR 0xE2, CHR 0x80, CHR 0xA8],
      [CHR 0xE2, CHR 0x80, CHR 0xA9], [CHR 0xE2, CHR 0x80, CHR 0xAF], [CHR 0xE2, CHR 0x81, CHR 0x9F],
      [CHR 0xE3, CHR 0x80, CHR 0x80]]"

definition starts_with :: "string \<Rightarrow> string \<Rightarrow> bool" where
  "starts_with p s = (take (length p) s = p)"

function strip_runes :: "string list \<Rightarrow> string \<Rightarrow> string" where
  "strip_runes rs s =
     (case find (\<lambda>r. r \<noteq> [] \<and> starts_with r s) rs of
        None \<Rightarrow> s
      | Some r \<Rightarrow> strip_runes rs (drop (length r) s))"
  by pat_completeness auto
termination
proof (relation "measure (\<lambda>(rs, s). length s)", goal_cases)
  case (2 rs s r)
  then have "r \<noteq> []" "starts_with r s" by (auto simp: find_Some_iff)
  then show ?case by (cases s) (auto simp: starts_with_def)
qed simp

declare strip_runes.simps [simp del]

definition TrimSpace :: "string \<Rightarrow> string" where
  "TrimSpace s = rev (strip_runes (map rev space_runes) (rev (strip_runes space_runes s)))"

definition lower_char :: "char \<Rightarrow> char" where
  "lower_char c = (let n = of_char c :: int in if 65 \<le> n \<and> n \<le> 90 then char_of (n + 32) else c)"

fun ToLower :: "string \<Rightarrow> string" where
  "ToLower [] = []"
| "ToLower (c # s) =
     (if starts_with [CHR 0xC4, CHR 0xB0] (c # s) then CHR ''i'' # ToLower (drop 1 s)
      else if starts_with [CHR 0xE2, CHR 0x84, CHR 0xAA] (c # s) then CHR ''k'' # ToLower (drop 2 s)
      else lower_char c # ToLower s)"

fun split_on :: "char \<Rightarrow> string \<Rightarrow> string list" where
  "split_on c [] = [[]]"
| "split_on c (x # xs) =
     (if x = c then [] # split_on c xs
      else case split_on c xs of [] \<Rightarrow> [[x]] | f # fs \<Rightarrow> (x # f) # fs)"

text \<open>\<open>strings.Cut\<close> around one byte: before, after, found.\<close>

definition cut_at :: "char \<Rightarrow> string \<Rightarrow> string \<times> string \<times> bool" where
  "cut_at c s =
     (if c \<in> set s then (takeWhile (\<lambda>x. x \<noteq> c) s, tl (dropWhile (\<lambda>x. x \<noteq> c) s), True) else (s, [], False))"

lemma strip_runes_no_prefix:
  "r \<in> set rs \<Longrightarrow> r \<noteq> [] \<Longrightarrow> \<not> starts_with r (strip_runes rs s)"
proof (induction rs s rule: strip_runes.induct)
  case (1 rs s)
  show ?case
  proof (cases "find (\<lambda>r. r \<noteq> [] \<and> starts_with r s) rs")
    case None
    then have "strip_runes rs s = s" by (simp add: strip_runes.simps)
    then show ?thesis using None 1(2,3) by (auto simp: find_None_iff)
  next
    case (Some q)
    then have "strip_runes rs s = strip_runes rs (drop (length q) s)" by (simp add: strip_runes.simps [of rs s])
    then show ?thesis using 1(1) [OF Some 1(2,3)] by simp
  qed
qed

lemma strip_runes_id: "(\<And>r. r \<in> set rs \<Longrightarrow> r \<noteq> [] \<Longrightarrow> \<not> starts_with r s) \<Longrightarrow> strip_runes rs s = s"
proof -
  assume a: "\<And>r. r \<in> set rs \<Longrightarrow> r \<noteq> [] \<Longrightarrow> \<not> starts_with r s"
  have "find (\<lambda>r. r \<noteq> [] \<and> starts_with r s) rs = None" using a by (auto simp: find_None_iff)
  then show ?thesis by (simp add: strip_runes.simps)
qed

lemma strip_runes_suffix: "suffix (strip_runes rs s) s"
proof (induction rs s rule: strip_runes.induct)
  case (1 rs s)
  show ?case
  proof (cases "find (\<lambda>r. r \<noteq> [] \<and> starts_with r s) rs")
    case (Some r)
    then show ?thesis using 1 [OF Some] suffix_drop [of "length r" s]
      by (simp add: strip_runes.simps [of rs s])
  qed (simp add: strip_runes.simps [of rs s])
qed

lemma starts_with_prefix: "starts_with p s \<longleftrightarrow> prefix p s"
  by (metis append_eq_conv_conj append_take_drop_id prefix_def starts_with_def)

lemma TrimSpace_idem [simp]: "TrimSpace (TrimSpace s) = TrimSpace s"
proof -
  let ?l = "strip_runes space_runes s"
  let ?t = "rev (strip_runes (map rev space_runes) (rev ?l))"
  have "prefix ?t ?l" using strip_runes_suffix [of "map rev space_runes" "rev ?l"] by (simp add: suffix_to_prefix)
  then have "strip_runes space_runes ?t = ?t"
    using strip_runes_no_prefix [of _ space_runes s]
    by (intro strip_runes_id) (metis prefix_order.trans starts_with_prefix)
  moreover have "strip_runes (map rev space_runes) (rev ?t) = rev ?t"
    using strip_runes_no_prefix [of _ "map rev space_runes" "rev ?l"] by (intro strip_runes_id) simp
  ultimately show ?thesis by (simp add: TrimSpace_def)
qed

lemma space_runes_nonempty: "r \<in> set space_runes \<Longrightarrow> r \<noteq> []"
  by (auto simp: space_runes_def)

lemma space_runes_ascii: "r \<in> set space_runes \<Longrightarrow> c \<in> set r \<Longrightarrow> c \<noteq> CHR ''=''"
proof -
  have "list_all (\<lambda>r. CHR ''='' \<notin> set r) space_runes" by code_simp
  then show "r \<in> set space_runes \<Longrightarrow> c \<in> set r \<Longrightarrow> c \<noteq> CHR ''=''" by (auto simp: list_all_iff)
qed

lemma TrimSpace_fixed:
  "TrimSpace s = s \<longleftrightarrow> (\<forall>r \<in> set space_runes. \<not> prefix r s \<and> \<not> suffix r s)"
proof
  assume t: "TrimSpace s = s"
  have p: "prefix (TrimSpace s) (strip_runes space_runes s)"
    using strip_runes_suffix [of "map rev space_runes" "rev (strip_runes space_runes s)"]
    by (simp add: suffix_to_prefix TrimSpace_def)
  have "suffix (strip_runes space_runes s) s" by (rule strip_runes_suffix)
  then have l: "strip_runes space_runes s = s"
    using p t by (metis prefix_length_le suffix_length_le dual_order.antisym suffix_order.antisym
        prefix_order.antisym not_equal_is_parallel parallel_def)
  then have "strip_runes (map rev space_runes) (rev s) = rev s" using t by (simp add: TrimSpace_def) (metis rev_rev_ident)
  then show "\<forall>r \<in> set space_runes. \<not> prefix r s \<and> \<not> suffix r s"
    using l strip_runes_no_prefix [of _ space_runes s] strip_runes_no_prefix [of _ "map rev space_runes" "rev s"]
      space_runes_nonempty
    by (metis (no_types, lifting) Nil_is_rev_conv image_eqI set_map starts_with_prefix suffix_to_prefix)
next
  assume a: "\<forall>r \<in> set space_runes. \<not> prefix r s \<and> \<not> suffix r s"
  have "strip_runes space_runes s = s" by (rule strip_runes_id) (use a in \<open>auto simp: starts_with_prefix\<close>)
  moreover have "strip_runes (map rev space_runes) (rev s) = rev s"
    by (rule strip_runes_id) (use a in \<open>auto simp: starts_with_prefix suffix_to_prefix\<close>)
  ultimately show "TrimSpace s = s" by (simp add: TrimSpace_def)
qed

lemma TrimSpace_around_eq:
  assumes "TrimSpace a = a" "a \<noteq> []" "TrimSpace b = b" "b \<noteq> []"
  shows "TrimSpace (a @ CHR ''='' # b) = a @ CHR ''='' # b"
proof -
  have "\<not> prefix r (a @ CHR ''='' # b) \<and> \<not> suffix r (a @ CHR ''='' # b)" if r: "r \<in> set space_runes" for r
  proof
    show "\<not> prefix r (a @ CHR ''='' # b)"
    proof
      assume "prefix r (a @ CHR ''='' # b)"
      then have "prefix r a \<or> (\<exists>c \<in> set r. c = CHR ''='')"
        by (auto simp: prefix_append prefix_Cons)
      then show False using assms(1) r space_runes_ascii [OF r] by (auto simp: TrimSpace_fixed)
    qed
    show "\<not> suffix r (a @ CHR ''='' # b)"
    proof
      assume "suffix r (a @ CHR ''='' # b)"
      then have "suffix r b \<or> (\<exists>c \<in> set r. c = CHR ''='')"
        by (auto simp: suffix_append suffix_Cons)
      then show False using assms(3) r space_runes_ascii [OF r] by (auto simp: TrimSpace_fixed)
    qed
  qed
  then show ?thesis unfolding TrimSpace_fixed by blast
qed

lemma split_on_nonempty [simp]: "split_on c s \<noteq> []"
  by (induction s) (auto split: list.split)

lemma split_on_join: "c \<notin> set x \<Longrightarrow> split_on c (x @ c # s) = x # split_on c s"
  by (induction x) auto

lemma split_on_single: "c \<notin> set x \<Longrightarrow> split_on c x = [x]"
  by (induction x) auto

lemma split_on_no_sep: "f \<in> set (split_on c s) \<Longrightarrow> c \<notin> set f"
  by (induction s arbitrary: f) (auto split: list.splits if_splits)

lemma cut_at_pair: "c \<notin> set a \<Longrightarrow> cut_at c (a @ c # b) = (a, b, True)"
  by (induction a) (auto simp: cut_at_def)

subsection \<open>strconv\<close>

definition digit_of :: "char \<Rightarrow> int option" where
  "digit_of c = (let n = of_char c :: int in if 48 \<le> n \<and> n \<le> 57 then Some (n - 48) else None)"

definition is_digit :: "char \<Rightarrow> bool" where
  "is_digit c = (digit_of c \<noteq> None)"

definition digits_value :: "string \<Rightarrow> int" where
  "digits_value ds = foldl (\<lambda>a c. 10 * a + the (digit_of c)) 0 ds"

fun split_sign :: "string \<Rightarrow> bool \<times> string" where
  "split_sign [] = (False, [])"
| "split_sign (c # s) = (if c = CHR ''-'' then (True, s) else if c = CHR ''+'' then (False, s) else (False, c # s))"

definition Atoi :: "string \<Rightarrow> int option" where
  "Atoi s =
     (let (neg, ds) = split_sign s; v = digits_value ds; v = (if neg then - v else v)
      in if ds \<noteq> [] \<and> list_all is_digit ds \<and> i64_min \<le> v \<and> v \<le> i64_max then Some v else None)"

text \<open>
  \<open>strconv.ParseFloat\<close>: the special values, decimal and hexadecimal floats, rounded to nearest even
  by \<open>f64_round\<close>. A syntax error and an out-of-range value are both \<open>None\<close> (the callers only test
  for an error). An exponent stops growing at five digits, as in \<open>readFloat\<close>.
\<close>

definition hex_of :: "char \<Rightarrow> int option" where
  "hex_of c = (let n = of_char (lower_char c) :: int
     in if 48 \<le> n \<and> n \<le> 57 then Some (n - 48) else if 97 \<le> n \<and> n \<le> 102 then Some (n - 87) else None)"

definition exponent_value :: "string \<Rightarrow> int" where
  "exponent_value ds = foldl (\<lambda>e c. if e < 10000 then 10 * e + the (digit_of c) else e) 0 ds"

definition based_value :: "int \<Rightarrow> string \<Rightarrow> int" where
  "based_value b ds = foldl (\<lambda>a c. b * a + the (hex_of c)) 0 ds"

text \<open>An optional exponent that starts with the letter \<open>e\<close>; \<open>None\<close> when it is malformed.\<close>

definition parse_exponent :: "char \<Rightarrow> string \<Rightarrow> int option" where
  "parse_exponent e s =
     (case s of
        [] \<Rightarrow> Some 0
      | c # s' \<Rightarrow>
          (if lower_char c \<noteq> e then None
           else let (neg, ds) = split_sign s'
                in if ds \<noteq> [] \<and> list_all is_digit ds
                   then Some (if neg then - exponent_value ds else exponent_value ds) else None))"

definition parse_mantissa :: "(char \<Rightarrow> bool) \<Rightarrow> string \<Rightarrow> string \<times> string \<times> string" where
  "parse_mantissa dig s =
     (let ip = takeWhile dig s; s = dropWhile dig s
      in case s of
           c # s' \<Rightarrow> (if c = CHR ''.'' then (ip, takeWhile dig s', dropWhile dig s') else (ip, [], s))
         | [] \<Rightarrow> (ip, [], []))"

definition rat_pow :: "int \<Rightarrow> int \<Rightarrow> rat" where
  "rat_pow b e = (if e \<ge> 0 then of_int b ^ nat e else 1 / of_int b ^ nat (- e))"

definition parse_decimal :: "string \<Rightarrow> rat option" where
  "parse_decimal s =
     (let (ip, fp, s) = parse_mantissa is_digit s
      in if ip @ fp = [] then None
         else case parse_exponent (CHR ''e'') s of
                None \<Rightarrow> None
              | Some e \<Rightarrow> Some (of_int (based_value 10 (ip @ fp)) * rat_pow 10 (e - int (length fp))))"

text \<open>Underscores may separate the prefix and the digits of a hexadecimal mantissa.\<close>

fun underscores_ok :: "bool \<Rightarrow> string \<Rightarrow> bool" where
  "underscores_ok prev [] = True"
| "underscores_ok prev (c # s) =
     (if c = CHR ''_''
      then prev \<and> (case s of d # _ \<Rightarrow> hex_of d \<noteq> None | [] \<Rightarrow> False) \<and> underscores_ok False s
      else underscores_ok (hex_of c \<noteq> None) s)"

definition parse_hex :: "string \<Rightarrow> rat option" where
  "parse_hex s =
     (let (ip, fp, rest) = parse_mantissa (\<lambda>c. hex_of c \<noteq> None \<or> c = CHR ''_'') s;
          ds = filter (\<lambda>c. c \<noteq> CHR ''_'') (ip @ fp); n = length (filter (\<lambda>c. c \<noteq> CHR ''_'') fp)
      in if ds = [] \<or> rest = [] \<or> \<not> underscores_ok True s then None
         else case parse_exponent (CHR ''p'') rest of
                None \<Rightarrow> None
              | Some e \<Rightarrow> Some (of_int (based_value 16 ds) * rat_pow 2 (e - 4 * int n)))"

definition ParseFloat :: "string \<Rightarrow> f64 option" where
  "ParseFloat s =
     (let (neg, b) = split_sign s; w = map lower_char b
      in if map lower_char s = ''nan'' then Some NaN
         else if w = ''inf'' \<or> w = ''infinity'' then Some (Inf neg)
         else case (if starts_with ''0x'' w then parse_hex (drop 2 b) else parse_decimal b) of
                None \<Rightarrow> None
              | Some q \<Rightarrow> (let v = f64_round (if neg then - q else q) in if f64_isInf v then None else Some v))"

subsection \<open>time\<close>

text \<open>\<open>time.ParseDuration\<close> with its overflow checks; every error is \<open>None\<close>.\<close>

definition unit_map :: "string \<rightharpoonup> int" where
  "unit_map = map_of [(''ns'', 1), (''us'', 1000), ([CHR 0xC2, CHR 0xB5, CHR ''s''], 1000),
     ([CHR 0xCE, CHR 0xBC, CHR ''s''], 1000), (''ms'', 1000000), (''s'', 1000000000),
     (''m'', 60000000000), (''h'', 3600000000000)]"

fun leadingInt :: "int \<Rightarrow> string \<Rightarrow> (int \<times> string) option" where
  "leadingInt x [] = Some (x, [])"
| "leadingInt x (c # s) =
     (case digit_of c of
        None \<Rightarrow> Some (x, c # s)
      | Some d \<Rightarrow>
          (if x > 2 ^ 63 div 10 then None
           else let y = x * 10 + d in if y > 2 ^ 63 then None else leadingInt y s))"

fun leadingFraction :: "bool \<Rightarrow> int \<Rightarrow> f64 \<Rightarrow> string \<Rightarrow> int \<times> f64 \<times> string" where
  "leadingFraction overflow x scale [] = (x, scale, [])"
| "leadingFraction overflow x scale (c # s) =
     (case digit_of c of
        None \<Rightarrow> (x, scale, c # s)
      | Some d \<Rightarrow>
          (if overflow then leadingFraction overflow x scale s
           else if x > (2 ^ 63 - 1) div 10 then leadingFraction True x scale s
           else let y = x * 10 + d
                in if y > 2 ^ 63 then leadingFraction True x scale s
                   else leadingFraction False y (f64_mul scale (Fin 10)) s))"

definition not_unit_end :: "char \<Rightarrow> bool" where
  "not_unit_end c = (c \<noteq> CHR ''.'' \<and> \<not> is_digit c)"

text \<open>
  One number and its unit: nanoseconds and the rest of the input. The fraction is below one, so the
  float product is below the unit and its conversion to uint64 is in range.
\<close>

definition duration_part :: "string \<Rightarrow> (int \<times> string) option" where
  "duration_part s =
     (case leadingInt 0 s of
        None \<Rightarrow> None
      | Some (v, s1) \<Rightarrow>
          (let pre = (length s1 \<noteq> length s);
               (f, scale, s2, post) =
                 (case s1 of
                    c # s' \<Rightarrow>
                      (if c = CHR ''.''
                       then let (f, scale, s2) = leadingFraction False 0 (Fin 1) s' in (f, scale, s2, length s2 \<noteq> length s')
                       else (0, Fin 1, s1, False))
                  | [] \<Rightarrow> (0, Fin 1, s1, False));
               u = takeWhile not_unit_end s2; s3 = dropWhile not_unit_end s2
           in if \<not> pre \<and> \<not> post \<or> u = [] then None
              else case unit_map u of
                     None \<Rightarrow> None
                   | Some unit \<Rightarrow>
                       (if v > 2 ^ 63 div unit then None
                        else let v = v * unit;
                                 v = (if f > 0
                                      then v + f64_toInt (\<lambda>_. 0) (f64_mul (f64_of_int f) (f64_div (f64_of_int unit) scale))
                                      else v)
                             in if v > 2 ^ 63 then None else Some (v, s3))))"

text \<open>The loop of \<open>ParseDuration\<close>; the fuel is the length of the input, and every part consumes some of it.\<close>

fun duration_loop :: "nat \<Rightarrow> int \<Rightarrow> string \<Rightarrow> int option" where
  "duration_loop fuel d [] = Some d"
| "duration_loop 0 d (c # s) = None"
| "duration_loop (Suc fuel) d (c # s) =
     (if c \<noteq> CHR ''.'' \<and> \<not> is_digit c then None
      else case duration_part (c # s) of
             None \<Rightarrow> None
           | Some (v, s') \<Rightarrow>
               (let d = (d + v) mod 2 ^ 64 in if d > 2 ^ 63 then None else duration_loop fuel d s'))"

definition ParseDuration :: "string \<Rightarrow> duration option" where
  "ParseDuration s0 =
     (let (neg, s) = split_sign s0
      in if s = ''0'' then Some 0
         else if s = [] then None
         else case duration_loop (length s) 0 s of
                None \<Rightarrow> None
              | Some d \<Rightarrow>
                  (if neg then Some (i64 (- i64 d))
                   else if d > 2 ^ 63 - 1 then None else Some d))"

text \<open>\<open>Duration.String\<close>.\<close>

fun frac_digits :: "nat \<Rightarrow> int \<Rightarrow> string" where
  "frac_digits 0 v = []"
| "frac_digits (Suc k) v = frac_digits k (v div 10) @ [char_of (48 + v mod 10)]"

definition fmtFrac :: "int \<Rightarrow> nat \<Rightarrow> string" where
  "fmtFrac v prec =
     (let ds = rev (dropWhile (\<lambda>c. c = CHR ''0'') (rev (frac_digits prec v)))
      in if ds = [] then [] else CHR ''.'' # ds)"

definition Duration_String :: "duration \<Rightarrow> string" where
  "Duration_String d =
     (let u = \<bar>d\<bar>;
          body =
            (if u = 0 then ''0s''
             else if u < 1000 then dec_digits u @ ''ns''
             else if u < 1000000 then dec_digits (u div 1000) @ fmtFrac u 3 @ [CHR 0xC2, CHR 0xB5, CHR ''s'']
             else if u < 1000000000 then dec_digits (u div 1000000) @ fmtFrac u 6 @ ''ms''
             else let sec = u div 1000000000;
                      ss = dec_digits (sec mod 60) @ fmtFrac u 9 @ ''s''; mi = sec div 60
                  in if mi = 0 then ss
                     else let ms = dec_digits (mi mod 60) @ ''m'' @ ss; hr = mi div 60
                          in if hr = 0 then ms else dec_digits hr @ ''h'' @ ms)
      in if d < 0 then CHR ''-'' # body else body)"

lemma leadingInt_rest: "leadingInt x s = Some (v, r) \<Longrightarrow> length r \<le> length s"
proof (induction s arbitrary: x)
  case (Cons c s)
  then show ?case by (cases "digit_of c") (auto simp: Let_def split: if_splits intro: le_SucI)
qed simp

lemma leadingFraction_rest: "length (snd (snd (leadingFraction b x y s))) \<le> length s"
proof (induction s arbitrary: b x y)
  case (Cons c s)
  then show ?case by (cases "digit_of c") (simp_all add: Let_def le_SucI)
qed simp

lemma duration_part_consumes: "duration_part s = Some (v, r) \<Longrightarrow> length r < length s"
proof -
  assume d: "duration_part s = Some (v, r)"
  then obtain w s1 where l: "leadingInt 0 s = Some (w, s1)" by (auto simp: duration_part_def split: option.splits)
  define q where "q = (case s1 of
                    c # s' \<Rightarrow>
                      (if c = CHR ''.''
                       then let (f, scale, s2) = leadingFraction False 0 (Fin 1) s' in (f, scale, s2, length s2 \<noteq> length s')
                       else (0, Fin 1, s1, False))
                  | [] \<Rightarrow> (0, Fin 1, s1, False))"
  obtain f sc s2 post where q: "q = (f, sc, s2, post)" by (cases q)
  have "length s2 \<le> length s1"
    using q leadingFraction_rest [of False 0 "Fin 1" "tl s1"] unfolding q_def
    by (cases s1) (auto split: if_splits simp: Let_def split_beta intro: le_SucI)
  moreover have "takeWhile not_unit_end s2 \<noteq> []" "r = dropWhile not_unit_end s2"
    using d l q unfolding q_def duration_part_def
    by (auto simp: Let_def split: if_splits option.splits)
  moreover have "length (dropWhile not_unit_end s2) < length s2" if "takeWhile not_unit_end s2 \<noteq> []"
    using that by (cases s2) (auto split: if_splits simp: less_Suc_eq_le length_dropWhile_le)
  ultimately show ?thesis using leadingInt_rest [OF l] by simp
qed

text \<open>So the loop never runs out of fuel: more of it makes no difference.\<close>

lemma duration_loop_fuel: "length s \<le> n \<Longrightarrow> length s \<le> m \<Longrightarrow> duration_loop n d s = duration_loop m d s"
proof (induction n arbitrary: d s m)
  case (Suc n)
  show ?case
  proof (cases s)
    case (Cons c cs)
    then obtain k where m: "m = Suc k" using Suc.prems by (cases m) auto
    have "duration_loop n e r = duration_loop k e r" if "duration_part (c # cs) = Some (v, r)" for e v r
      using Suc.IH [of r k e] Suc.prems duration_part_consumes [OF that] by (simp add: Cons m)
    then show ?thesis by (simp add: Cons m Let_def split: option.split)
  qed simp
qed simp

end
