(* ===== verification/Circuit.thy ===== *)
theory Circuit
  imports Float64
begin

text \<open>
  \<^verbatim>\<open>internal/circuit/circuit.go\<close>: the rolling-window circuit breaker. A \<open>Breaker\<close> is the record
  \<open>breaker\<close>, its mutex-protected operations are functions on that record that take the value
  the injected clock \<open>Settings.Now\<close> returns and give back the new breaker, the state-change
  callbacks that the caller then makes in \<open>fire\<close>, and the result. A \<open>Probe\<close> is bound to one breaker; the probe
  operations take the breaker it is bound to as an argument.
\<close>

subsection \<open>Data\<close>

datatype bstate = StateClosed | StateOpen | StateHalfOpen

fun State_String :: "bstate \<Rightarrow> string" where
  "State_String StateClosed = ''closed''"
| "State_String StateOpen = ''open''"
| "State_String StateHalfOpen = ''half-open''"

fun State_int :: "bstate \<Rightarrow> int" where
  "State_int StateClosed = 0"
| "State_int StateOpen = 1"
| "State_int StateHalfOpen = 2"

record settings =
  s_Window :: duration
  s_Buckets :: int
  s_MinRequests :: int
  s_FailureRatio :: f64
  s_OpenTimeout :: duration
  s_HalfOpenMax :: int
  s_MaxEntries :: int
  s_OnStateChange :: bool \<comment> \<open>whether a callback is installed\<close>

definition normalize :: "settings \<Rightarrow> settings" where
  "normalize s =
     (let s = (if s_Window s \<le> 0 then s\<lparr>s_Window := second\<rparr> else s);
          s = (if s_Buckets s < 1 then s\<lparr>s_Buckets := 1\<rparr> else s);
          s = (if s_MinRequests s < 1 then s\<lparr>s_MinRequests := 1\<rparr> else s);
          s = (if f64_le (s_FailureRatio s) (Fin 0) then s\<lparr>s_FailureRatio := Fin (1 / 2)\<rparr> else s);
          s = (if s_HalfOpenMax s < 1 then s\<lparr>s_HalfOpenMax := 1\<rparr> else s)
      in s)"

record bucket =
  requests :: int
  failures :: int

definition bucket0 :: bucket where
  "bucket0 = \<lparr>requests = 0, failures = 0\<rparr>"

record transition =
  tr_from :: bstate
  tr_to :: bstate

record breaker =
  br_name :: string
  br_set :: settings
  br_bucketDur :: duration
  br_onChange :: bool
  br_fastState :: bstate
  br_state :: bstate
  br_buckets :: "bucket list"
  br_idx :: nat
  br_start :: go_time
  br_total :: bucket
  br_openedAt :: go_time
  br_probes :: int
  br_successes :: int
  br_gen :: "64 word"

record probe =
  pr_bound :: bool \<comment> \<open>the field \<open>b\<close> is not nil\<close>
  pr_gen :: "64 word"
  pr_probe :: bool

type_synonym fired = "(string \<times> bstate \<times> bstate) list"

definition zero_probe :: probe where
  "zero_probe = \<lparr>pr_bound = False, pr_gen = 0, pr_probe = False\<rparr>"

definition IsProbe :: "probe \<Rightarrow> bool" where
  "IsProbe p = pr_probe p"

definition NewBreaker :: "string \<Rightarrow> settings \<Rightarrow> go_time \<Rightarrow> breaker" where
  "NewBreaker name s0 now =
     (let s = normalize s0;
          d = s_Window s sdiv s_Buckets s;
          d = (if d \<le> 0 then 1 else d)
      in \<lparr>br_name = name, br_set = s, br_bucketDur = d, br_onChange = s_OnStateChange s,
          br_fastState = StateClosed, br_state = StateClosed,
          br_buckets = replicate (nat (s_Buckets s)) bucket0, br_idx = 0, br_start = now,
          br_total = bucket0, br_openedAt = time_zero, br_probes = 0, br_successes = 0,
          br_gen = 0\<rparr>)"

subsection \<open>The locked helpers\<close>

definition clearLocked :: "breaker \<Rightarrow> go_time \<Rightarrow> breaker" where
  "clearLocked b now =
     b\<lparr>br_buckets := map (\<lambda>_. bucket0) (br_buckets b), br_total := bucket0, br_idx := 0,
       br_start := now\<rparr>"

definition advance_once :: "breaker \<Rightarrow> breaker" where
  "advance_once b =
     (let i = (br_idx b + 1) mod length (br_buckets b);
          k = br_buckets b ! i
      in b\<lparr>br_idx := i,
           br_total := \<lparr>requests = requests (br_total b) - requests k,
                        failures = failures (br_total b) - failures k\<rparr>,
           br_buckets := (br_buckets b)[i := bucket0]\<rparr>)"

primrec advance_loop :: "nat \<Rightarrow> breaker \<Rightarrow> breaker" where
  "advance_loop 0 b = b"
| "advance_loop (Suc n) b = advance_loop n (advance_once b)"

definition advanceLocked :: "breaker \<Rightarrow> go_time \<Rightarrow> breaker" where
  "advanceLocked b now =
     (let elapsed = time_sub now (br_start b)
      in if elapsed < br_bucketDur b then b
         else let n = elapsed sdiv br_bucketDur b
              in if n \<ge> int (length (br_buckets b)) then clearLocked b now
                 else let b' = advance_loop (nat n) b
                      in b'\<lparr>br_start := br_start b' + n * br_bucketDur b'\<rparr>)"

definition countLocked :: "breaker \<Rightarrow> bool \<Rightarrow> breaker" where
  "countLocked b failed =
     (let k = br_buckets b ! br_idx b; t = br_total b;
          k = k\<lparr>requests := requests k + 1\<rparr>; t = t\<lparr>requests := requests t + 1\<rparr>;
          k = (if failed then k\<lparr>failures := failures k + 1\<rparr> else k);
          t = (if failed then t\<lparr>failures := failures t + 1\<rparr> else t)
      in b\<lparr>br_buckets := (br_buckets b)[br_idx b := k], br_total := t\<rparr>)"

definition setStateLocked ::
  "breaker \<Rightarrow> transition list \<Rightarrow> bstate \<Rightarrow> go_time \<Rightarrow> breaker \<times> transition list" where
  "setStateLocked b trs to now =
     (let from = br_state b
      in if from = to then (b, trs)
         else let b = b\<lparr>br_state := to, br_fastState := to, br_probes := 0, br_successes := 0\<rparr>;
                  b = (case to of
                         StateHalfOpen \<Rightarrow> b\<lparr>br_gen := br_gen b + 1\<rparr>
                       | StateOpen \<Rightarrow> b\<lparr>br_openedAt := now\<rparr>
                       | StateClosed \<Rightarrow> clearLocked b now)
              in (b, trs @ [\<lparr>tr_from = from, tr_to = to\<rparr>]))"

definition refreshLocked ::
  "breaker \<Rightarrow> go_time \<Rightarrow> transition list \<Rightarrow> breaker \<times> transition list" where
  "refreshLocked b now trs =
     (let b = advanceLocked b now
      in if br_state b = StateOpen \<and> time_sub now (br_openedAt b) \<ge> s_OpenTimeout (br_set b)
         then setStateLocked b trs StateHalfOpen now
         else (b, trs))"

text \<open>
  The callbacks that a caller makes after it has released the mutex. An operation below returns them with its result;
  how the callbacks of several goroutines interleave is the subject of \<^verbatim>\<open>Circuit_Callbacks\<close>.
\<close>

definition fire :: "breaker \<Rightarrow> transition list \<Rightarrow> fired" where
  "fire b trs =
     (if br_onChange b then map (\<lambda>t. (br_name b, tr_from t, tr_to t)) trs else [])"

subsection \<open>Operations\<close>

text \<open>
  \<open>State\<close>, \<open>Ready\<close> and \<open>Admit\<close> first load \<open>fastState\<close> without the mutex; the rest of each is
  one critical section, the function with the suffix \<open>_locked\<close>.
\<close>

definition State_locked :: "breaker \<Rightarrow> go_time \<Rightarrow> breaker \<times> fired \<times> bstate" where
  "State_locked b now =
     (let (b, trs) = refreshLocked b now [] in (b, fire b trs, br_state b))"

definition Breaker_State :: "breaker \<Rightarrow> go_time \<Rightarrow> breaker \<times> fired \<times> bstate" where
  "Breaker_State b now =
     (if br_fastState b = StateClosed then (b, [], StateClosed) else State_locked b now)"

definition Ready_locked :: "breaker \<Rightarrow> go_time \<Rightarrow> breaker \<times> fired \<times> bool" where
  "Ready_locked b now =
     (let (b, trs) = refreshLocked b now [];
          ready = (br_state b = StateClosed \<or>
                   (br_state b = StateHalfOpen \<and> br_probes b < s_HalfOpenMax (br_set b)))
      in (b, fire b trs, ready))"

definition Ready :: "breaker \<Rightarrow> go_time \<Rightarrow> breaker \<times> fired \<times> bool" where
  "Ready b now =
     (if br_fastState b = StateClosed then (b, [], True) else Ready_locked b now)"

definition Unattributed :: "breaker \<Rightarrow> probe" where
  "Unattributed b = \<lparr>pr_bound = True, pr_gen = 0, pr_probe = False\<rparr>"

definition Admit_locked :: "breaker \<Rightarrow> go_time \<Rightarrow> breaker \<times> fired \<times> probe \<times> bool" where
  "Admit_locked b now =
     (let (b, trs) = refreshLocked b now [];
          p = \<lparr>pr_bound = True, pr_gen = 0, pr_probe = False\<rparr>;
          (b, p, allowed) =
            (case br_state b of
               StateClosed \<Rightarrow> (b, p, True)
             | StateHalfOpen \<Rightarrow>
                 (if br_probes b < s_HalfOpenMax (br_set b)
                  then (b\<lparr>br_probes := br_probes b + 1\<rparr>,
                        \<lparr>pr_bound = True, pr_gen = br_gen b, pr_probe = True\<rparr>, True)
                  else (b, p, False))
             | StateOpen \<Rightarrow> (b, p, False))
      in (b, fire b trs, p, allowed))"

definition Admit :: "breaker \<Rightarrow> go_time \<Rightarrow> breaker \<times> fired \<times> probe \<times> bool" where
  "Admit b now =
     (if br_fastState b = StateClosed
      then (b, [], \<lparr>pr_bound = True, pr_gen = 0, pr_probe = False\<rparr>, True)
      else Admit_locked b now)"

definition tripped :: "breaker \<Rightarrow> bool" where
  "tripped b =
     (requests (br_total b) \<ge> s_MinRequests (br_set b) \<and>
      f64_le (s_FailureRatio (br_set b))
        (f64_div (f64_of_int (failures (br_total b))) (f64_of_int (requests (br_total b)))))"

text \<open>The \<open>switch b.state\<close> of \<open>record\<close>: who may move the breaker, and where to.\<close>

definition judgeLocked ::
  "breaker \<Rightarrow> bool \<Rightarrow> probe \<Rightarrow> go_time \<Rightarrow> transition list \<Rightarrow> breaker \<times> transition list" where
  "judgeLocked b failed p now trs =
     (let current = (pr_probe p \<and> pr_gen p = br_gen b \<and> br_state b = StateHalfOpen)
      in case br_state b of
           StateClosed \<Rightarrow> (if tripped b then setStateLocked b trs StateOpen now else (b, trs))
         | StateHalfOpen \<Rightarrow>
             (if \<not> current then (b, trs)
              else let b = (if br_probes b > 0 then b\<lparr>br_probes := br_probes b - 1\<rparr> else b)
                   in if failed then setStateLocked b trs StateOpen now
                      else let b = b\<lparr>br_successes := br_successes b + 1\<rparr>
                           in if br_successes b \<ge> s_HalfOpenMax (br_set b)
                              then setStateLocked b trs StateClosed now
                              else (b, trs))
         | StateOpen \<Rightarrow> (b, trs))"

definition record_outcome :: "breaker \<Rightarrow> bool \<Rightarrow> probe \<Rightarrow> go_time \<Rightarrow> breaker \<times> fired" where
  "record_outcome b failed p now =
     (let (b, trs) = refreshLocked b now [];
          b = countLocked b failed;
          (b, trs) = judgeLocked b failed p now trs
      in (b, fire b trs))"

definition Breaker_Success :: "breaker \<Rightarrow> go_time \<Rightarrow> breaker \<times> fired" where
  "Breaker_Success b now = record_outcome b False zero_probe now"

definition Breaker_Failure :: "breaker \<Rightarrow> go_time \<Rightarrow> breaker \<times> fired" where
  "Breaker_Failure b now = record_outcome b True zero_probe now"

definition Probe_Success :: "breaker \<Rightarrow> probe \<Rightarrow> go_time \<Rightarrow> breaker \<times> fired" where
  "Probe_Success b p now = (if pr_bound p then record_outcome b False p now else (b, []))"

definition Probe_Failure :: "breaker \<Rightarrow> probe \<Rightarrow> go_time \<Rightarrow> breaker \<times> fired" where
  "Probe_Failure b p now = (if pr_bound p then record_outcome b True p now else (b, []))"

definition release :: "breaker \<Rightarrow> probe \<Rightarrow> breaker" where
  "release b p =
     (if pr_gen p = br_gen b \<and> br_state b = StateHalfOpen \<and> br_probes b > 0
      then b\<lparr>br_probes := br_probes b - 1\<rparr> else b)"

definition Probe_Release :: "breaker \<Rightarrow> probe \<Rightarrow> breaker" where
  "Probe_Release b p = (if \<not> pr_bound p \<or> \<not> pr_probe p then b else release b p)"

definition Counts :: "breaker \<Rightarrow> go_time \<Rightarrow> breaker \<times> int \<times> int" where
  "Counts b now =
     (let b = advanceLocked b now in (b, requests (br_total b), failures (br_total b)))"

definition Reset :: "breaker \<Rightarrow> go_time \<Rightarrow> breaker \<times> fired" where
  "Reset b now =
     (let (b, trs) = setStateLocked b [] StateClosed now;
          b = clearLocked b now;
          b = b\<lparr>br_probes := 0, br_successes := 0\<rparr>
      in (b, fire b trs))"

subsection \<open>The breaker invariant\<close>

definition bucket_ok :: "bucket \<Rightarrow> bool" where
  "bucket_ok k = (0 \<le> failures k \<and> failures k \<le> requests k)"

definition bucket_sum :: "bucket list \<Rightarrow> bucket" where
  "bucket_sum ks = \<lparr>requests = sum_list (map requests ks), failures = sum_list (map failures ks)\<rparr>"

definition window_inv :: "breaker \<Rightarrow> bool" where
  "window_inv b =
     (br_idx b < length (br_buckets b) \<and> 0 < br_bucketDur b \<and>
      br_total b = bucket_sum (br_buckets b) \<and> list_all bucket_ok (br_buckets b))"

definition breaker_inv :: "breaker \<Rightarrow> bool" where
  "breaker_inv b =
     (window_inv b \<and> br_fastState b = br_state b \<and>
      1 \<le> s_HalfOpenMax (br_set b) \<and> 1 \<le> s_MinRequests (br_set b) \<and>
      0 \<le> br_probes b \<and> br_probes b \<le> s_HalfOpenMax (br_set b) \<and>
      0 \<le> br_successes b \<and> br_successes b < s_HalfOpenMax (br_set b) \<and>
      (br_state b \<noteq> StateHalfOpen \<longrightarrow> br_probes b = 0 \<and> br_successes b = 0))"

lemma bucket_ok_0 [simp]: "bucket_ok bucket0"
  by (simp add: bucket_ok_def bucket0_def)

lemma bucket_sum_const0 [simp]: "bucket_sum (map (\<lambda>_. bucket0) ks) = bucket0"
  by (induction ks) (simp_all add: bucket_sum_def bucket0_def)

lemma bucket_sum_replicate0 [simp]: "bucket_sum (replicate n bucket0) = bucket0"
  by (induction n) (simp_all add: bucket_sum_def bucket0_def)

lemma list_all_const0 [simp]: "list_all bucket_ok (map (\<lambda>_. bucket0) ks)"
  by (induction ks) simp_all

lemma sum_list_map_update:
  fixes f :: "'a \<Rightarrow> int"
  shows "i < length xs \<Longrightarrow> sum_list (map f (xs[i := x])) = sum_list (map f xs) - f (xs ! i) + f x"
  by (induction xs arbitrary: i) (auto split: nat.split)

lemma bucket_sum_update:
  "i < length ks \<Longrightarrow> bucket_sum (ks[i := k]) =
     \<lparr>requests = requests (bucket_sum ks) - requests (ks ! i) + requests k,
      failures = failures (bucket_sum ks) - failures (ks ! i) + failures k\<rparr>"
  by (simp add: bucket_sum_def sum_list_map_update)

lemma bucket_sum_ok: "list_all bucket_ok ks \<Longrightarrow> bucket_ok (bucket_sum ks)"
  by (induction ks) (auto simp: bucket_ok_def bucket_sum_def)

lemma window_inv_total_ok: "window_inv b \<Longrightarrow> bucket_ok (br_total b)"
  by (simp add: window_inv_def bucket_sum_ok)

text \<open>Fields the window operations never write.\<close>

lemma clearLocked_frame [simp]:
  "br_name (clearLocked b now) = br_name b" "br_set (clearLocked b now) = br_set b"
  "br_bucketDur (clearLocked b now) = br_bucketDur b" "br_onChange (clearLocked b now) = br_onChange b"
  "br_fastState (clearLocked b now) = br_fastState b" "br_state (clearLocked b now) = br_state b"
  "br_openedAt (clearLocked b now) = br_openedAt b" "br_probes (clearLocked b now) = br_probes b"
  "br_successes (clearLocked b now) = br_successes b" "br_gen (clearLocked b now) = br_gen b"
  "length (br_buckets (clearLocked b now)) = length (br_buckets b)"
  by (simp_all add: clearLocked_def)

lemma advance_once_frame [simp]:
  "br_name (advance_once b) = br_name b" "br_set (advance_once b) = br_set b"
  "br_bucketDur (advance_once b) = br_bucketDur b" "br_onChange (advance_once b) = br_onChange b"
  "br_fastState (advance_once b) = br_fastState b" "br_state (advance_once b) = br_state b"
  "br_openedAt (advance_once b) = br_openedAt b" "br_probes (advance_once b) = br_probes b"
  "br_successes (advance_once b) = br_successes b" "br_gen (advance_once b) = br_gen b"
  "length (br_buckets (advance_once b)) = length (br_buckets b)"
  "br_start (advance_once b) = br_start b"
  by (simp_all add: advance_once_def Let_def)

lemma advance_loop_frame [simp]:
  "br_name (advance_loop n b) = br_name b" "br_set (advance_loop n b) = br_set b"
  "br_bucketDur (advance_loop n b) = br_bucketDur b" "br_onChange (advance_loop n b) = br_onChange b"
  "br_fastState (advance_loop n b) = br_fastState b" "br_state (advance_loop n b) = br_state b"
  "br_openedAt (advance_loop n b) = br_openedAt b" "br_probes (advance_loop n b) = br_probes b"
  "br_successes (advance_loop n b) = br_successes b" "br_gen (advance_loop n b) = br_gen b"
  "length (br_buckets (advance_loop n b)) = length (br_buckets b)"
  "br_start (advance_loop n b) = br_start b"
  by (induction n arbitrary: b) simp_all

lemma advanceLocked_frame [simp]:
  "br_name (advanceLocked b now) = br_name b" "br_set (advanceLocked b now) = br_set b"
  "br_bucketDur (advanceLocked b now) = br_bucketDur b"
  "br_onChange (advanceLocked b now) = br_onChange b"
  "br_fastState (advanceLocked b now) = br_fastState b"
  "br_state (advanceLocked b now) = br_state b"
  "br_openedAt (advanceLocked b now) = br_openedAt b"
  "br_probes (advanceLocked b now) = br_probes b"
  "br_successes (advanceLocked b now) = br_successes b" "br_gen (advanceLocked b now) = br_gen b"
  "length (br_buckets (advanceLocked b now)) = length (br_buckets b)"
  by (simp_all add: advanceLocked_def Let_def)

lemma countLocked_frame [simp]:
  "br_name (countLocked b f) = br_name b" "br_set (countLocked b f) = br_set b"
  "br_bucketDur (countLocked b f) = br_bucketDur b" "br_onChange (countLocked b f) = br_onChange b"
  "br_fastState (countLocked b f) = br_fastState b" "br_state (countLocked b f) = br_state b"
  "br_openedAt (countLocked b f) = br_openedAt b" "br_probes (countLocked b f) = br_probes b"
  "br_successes (countLocked b f) = br_successes b" "br_gen (countLocked b f) = br_gen b"
  "br_idx (countLocked b f) = br_idx b" "br_start (countLocked b f) = br_start b"
  "length (br_buckets (countLocked b f)) = length (br_buckets b)"
  by (simp_all add: countLocked_def Let_def)

lemma next_idx_less: "i < length xs \<Longrightarrow> Suc i mod length xs < length xs"
  by (metis gr_implies_not0 mod_less_divisor neq0_conv)

lemma bucket0_sel [simp]: "requests bucket0 = 0" "failures bucket0 = 0"
  by (simp_all add: bucket0_def)

lemma advance_once_window: "window_inv b \<Longrightarrow> window_inv (advance_once b)"
  by (simp add: window_inv_def advance_once_def Let_def bucket_sum_update next_idx_less
      list_all_update)

lemma advance_loop_window: "window_inv b \<Longrightarrow> window_inv (advance_loop n b)"
  by (induction n arbitrary: b) (simp_all add: advance_once_window)

lemma clearLocked_window: "window_inv b \<Longrightarrow> window_inv (clearLocked b now)"
  by (auto simp: window_inv_def clearLocked_def)

lemma window_inv_update [simp]:
  "window_inv (b\<lparr>br_start := t\<rparr>) = window_inv b" "window_inv (b\<lparr>br_state := s\<rparr>) = window_inv b"
  "window_inv (b\<lparr>br_fastState := s\<rparr>) = window_inv b" "window_inv (b\<lparr>br_probes := k\<rparr>) = window_inv b"
  "window_inv (b\<lparr>br_successes := k\<rparr>) = window_inv b" "window_inv (b\<lparr>br_gen := g\<rparr>) = window_inv b"
  "window_inv (b\<lparr>br_openedAt := t\<rparr>) = window_inv b"
  by (simp_all add: window_inv_def)

lemma advanceLocked_window: "window_inv b \<Longrightarrow> window_inv (advanceLocked b now)"
  by (simp add: advanceLocked_def Let_def clearLocked_window advance_loop_window)

lemma countLocked_window: "window_inv b \<Longrightarrow> window_inv (countLocked b f)"
  by (auto simp: window_inv_def countLocked_def Let_def bucket_sum_update list_all_length
      bucket_ok_def nth_list_update)

lemma advanceLocked_inv: "breaker_inv b \<Longrightarrow> breaker_inv (advanceLocked b now)"
  by (simp add: breaker_inv_def advanceLocked_window)

lemma countLocked_inv: "breaker_inv b \<Longrightarrow> breaker_inv (countLocked b f)"
  by (simp add: breaker_inv_def countLocked_window)

text \<open>A change of state needs nothing of the probe counters: it resets them.\<close>

lemma setStateLocked_fresh:
  "window_inv b \<Longrightarrow> 1 \<le> s_HalfOpenMax (br_set b) \<Longrightarrow> 1 \<le> s_MinRequests (br_set b) \<Longrightarrow>
   br_state b \<noteq> to \<Longrightarrow> breaker_inv (fst (setStateLocked b trs to now))"
  by (cases to) (simp_all add: setStateLocked_def Let_def breaker_inv_def clearLocked_window)

lemma setStateLocked_inv:
  assumes "breaker_inv b"
  shows "breaker_inv (fst (setStateLocked b trs to now))"
proof (cases "br_state b = to")
  case True
  with assms show ?thesis by (simp add: setStateLocked_def)
next
  case False
  then show ?thesis by (rule setStateLocked_fresh [rotated 3]) (use assms in \<open>simp_all add: breaker_inv_def\<close>)
qed

lemma refreshLocked_inv: "breaker_inv b \<Longrightarrow> breaker_inv (fst (refreshLocked b now trs))"
  by (simp add: refreshLocked_def Let_def setStateLocked_inv advanceLocked_inv)

lemma refreshLocked_frame [simp]:
  "br_name (fst (refreshLocked b now trs)) = br_name b"
  "br_set (fst (refreshLocked b now trs)) = br_set b"
  "br_onChange (fst (refreshLocked b now trs)) = br_onChange b"
  by (simp_all add: refreshLocked_def setStateLocked_def Let_def)

subsection \<open>Runs of a breaker\<close>

text \<open>
  Everything a goroutine can do to a breaker under its mutex or on an atomic, as one step each. The \<open>Locked\<close> calls are
  the critical section of a goroutine that loaded \<open>fastState\<close> before another one changed it.
\<close>

datatype breaker_op =
    CallState | CallReady | CallAdmit | LockedState | LockedReady | LockedAdmit
  | CallSuccess | CallFailure | CallProbeSuccess probe | CallProbeFailure probe
  | CallRelease probe | CallCounts | CallReset

fun breaker_call :: "breaker_op \<Rightarrow> go_time \<Rightarrow> breaker \<Rightarrow> breaker \<times> fired" where
  "breaker_call CallState now b = (let (b', ev, _) = Breaker_State b now in (b', ev))"
| "breaker_call CallReady now b = (let (b', ev, _) = Ready b now in (b', ev))"
| "breaker_call CallAdmit now b = (let (b', ev, _) = Admit b now in (b', ev))"
| "breaker_call LockedState now b = (let (b', ev, _) = State_locked b now in (b', ev))"
| "breaker_call LockedReady now b = (let (b', ev, _) = Ready_locked b now in (b', ev))"
| "breaker_call LockedAdmit now b = (let (b', ev, _) = Admit_locked b now in (b', ev))"
| "breaker_call CallSuccess now b = Breaker_Success b now"
| "breaker_call CallFailure now b = Breaker_Failure b now"
| "breaker_call (CallProbeSuccess p) now b = Probe_Success b p now"
| "breaker_call (CallProbeFailure p) now b = Probe_Failure b p now"
| "breaker_call (CallRelease p) now b = (Probe_Release b p, [])"
| "breaker_call CallCounts now b = (fst (Counts b now), [])"
| "breaker_call CallReset now b = Reset b now"

fun breaker_run :: "(breaker_op \<times> go_time) list \<Rightarrow> breaker \<Rightarrow> breaker \<times> fired" where
  "breaker_run [] b = (b, [])"
| "breaker_run ((c, now) # cs) b =
     (let (b1, ev1) = breaker_call c now b; (b2, ev2) = breaker_run cs b1 in (b2, ev1 @ ev2))"

lemma NewBreaker_inv: "breaker_inv (NewBreaker name s now)"
proof -
  have "1 \<le> s_HalfOpenMax (normalize s)" "1 \<le> s_MinRequests (normalize s)" "1 \<le> s_Buckets (normalize s)"
    by (simp_all add: normalize_def Let_def)
  then show ?thesis
    by (auto simp: breaker_inv_def window_inv_def NewBreaker_def Let_def list_all_length)
qed

lemma Admit_locked_inv:
  assumes "breaker_inv b"
  shows "breaker_inv (fst (Admit_locked b now))"
proof -
  have "breaker_inv (fst (refreshLocked b now []))" by (rule refreshLocked_inv [OF assms])
  then show ?thesis
    by (cases "refreshLocked b now []")
      (auto simp: Admit_locked_def Let_def breaker_inv_def split: bstate.split)
qed

lemma judgeLocked_inv:
  assumes "breaker_inv b"
  shows "breaker_inv (fst (judgeLocked b f p now trs))"
proof (cases "br_state b")
  case StateClosed
  with assms show ?thesis by (simp add: judgeLocked_def setStateLocked_inv)
next
  case StateOpen
  with assms show ?thesis by (simp add: judgeLocked_def)
next
  case StateHalfOpen
  with assms show ?thesis
    by (auto simp: judgeLocked_def Let_def intro!: setStateLocked_fresh) (auto simp: breaker_inv_def)
qed

lemma record_outcome_inv:
  "breaker_inv b \<Longrightarrow> breaker_inv (fst (record_outcome b f p now))"
proof -
  assume "breaker_inv b"
  then have "breaker_inv (countLocked (fst (refreshLocked b now [])) f)"
    by (intro countLocked_inv refreshLocked_inv)
  then show ?thesis using judgeLocked_inv
    by (simp add: record_outcome_def Let_def split_beta)
qed

lemma Reset_inv: "breaker_inv b \<Longrightarrow> breaker_inv (fst (Reset b now))"
proof -
  assume b: "breaker_inv b"
  have "breaker_inv (fst (setStateLocked b [] StateClosed now))" by (rule setStateLocked_inv [OF b])
  moreover have "br_state (fst (setStateLocked b [] StateClosed now)) = StateClosed"
    by (simp add: setStateLocked_def Let_def)
  ultimately show ?thesis
    by (simp add: Reset_def split_beta Let_def breaker_inv_def clearLocked_window)
qed

lemma release_inv: "breaker_inv b \<Longrightarrow> breaker_inv (release b p)"
  by (auto simp: release_def breaker_inv_def)

lemmas breaker_op_defs = Breaker_State_def State_locked_def Ready_def Ready_locked_def Admit_def
  Breaker_Success_def Breaker_Failure_def Probe_Success_def Probe_Failure_def Probe_Release_def
  Counts_def

lemmas breaker_inv_ops = refreshLocked_inv Admit_locked_inv record_outcome_inv Reset_inv
  release_inv advanceLocked_inv

lemma breaker_call_inv: "breaker_inv b \<Longrightarrow> breaker_inv (fst (breaker_call c now b))"
  by (cases c) (simp_all add: breaker_op_defs Let_def split_beta breaker_inv_ops)

lemma breaker_run_inv: "breaker_inv b \<Longrightarrow> breaker_inv (fst (breaker_run cs b))"
proof (induction cs arbitrary: b)
  case (Cons c cs)
  from Cons.prems have "breaker_inv (fst (breaker_call (fst c) (snd c) b))" by (rule breaker_call_inv)
  then show ?case by (cases c) (simp add: Cons.IH Let_def split_beta)
qed simp

subsection \<open>State-change callbacks follow the state\<close>

text \<open>
  The only edges of the state machine: closed opens, open becomes half-open, half-open opens or
  closes; \<open>Reset\<close> adds open to closed. A sequence of callbacks is a chain when each starts where
  the one before ended.
\<close>

fun legal_edge :: "bstate \<Rightarrow> bstate \<Rightarrow> bool" where
  "legal_edge StateClosed t = (t = StateOpen)"
| "legal_edge StateOpen t = (t = StateHalfOpen)"
| "legal_edge StateHalfOpen t = (t \<noteq> StateHalfOpen)"

definition edge_ok :: "bool \<Rightarrow> bstate \<Rightarrow> bstate \<Rightarrow> bool" where
  "edge_ok resets s t = (legal_edge s t \<or> (resets \<and> s = StateOpen \<and> t = StateClosed))"

fun fired_chain :: "bool \<Rightarrow> string \<Rightarrow> bstate \<Rightarrow> fired \<Rightarrow> bstate \<Rightarrow> bool" where
  "fired_chain r nm s [] t = (s = t)"
| "fired_chain r nm s ((n, f, u) # evs) t = (n = nm \<and> f = s \<and> edge_ok r f u \<and> fired_chain r nm u evs t)"

abbreviation tr_event :: "string \<Rightarrow> transition \<Rightarrow> string \<times> bstate \<times> bstate" where
  "tr_event nm x \<equiv> (nm, tr_from x, tr_to x)"

lemma fired_chain_append [simp]:
  "fired_chain r nm s (xs @ ys) t = (\<exists>u. fired_chain r nm s xs u \<and> fired_chain r nm u ys t)"
  by (induction r nm s xs t rule: fired_chain.induct) auto

lemma fired_chain_mono: "fired_chain False nm s evs t \<Longrightarrow> fired_chain r nm s evs t"
  by (induction r nm s evs t rule: fired_chain.induct) (auto simp: edge_ok_def)

lemma setStateLocked_chain:
  "fired_chain r nm s (map (tr_event nm) trs) (br_state b) \<Longrightarrow>
   br_state b = to \<or> edge_ok r (br_state b) to \<Longrightarrow>
   fired_chain r nm s (map (tr_event nm) (snd (setStateLocked b trs to now)))
     (br_state (fst (setStateLocked b trs to now)))"
  by (cases to) (auto simp: setStateLocked_def Let_def)

lemma refreshLocked_chain:
  "fired_chain False nm (br_state b) (map (tr_event nm) (snd (refreshLocked b now [])))
     (br_state (fst (refreshLocked b now [])))"
  unfolding refreshLocked_def Let_def
  by (auto intro!: setStateLocked_chain simp: edge_ok_def)

lemma judgeLocked_chain:
  "fired_chain False nm s (map (tr_event nm) trs) (br_state b) \<Longrightarrow>
   fired_chain False nm s (map (tr_event nm) (snd (judgeLocked b f p now trs)))
     (br_state (fst (judgeLocked b f p now trs)))"
  by (cases "br_state b")
    (auto simp: judgeLocked_def Let_def edge_ok_def intro!: setStateLocked_chain)

lemma setStateLocked_frame [simp]:
  "br_name (fst (setStateLocked b trs to now)) = br_name b"
  "br_onChange (fst (setStateLocked b trs to now)) = br_onChange b"
  "br_set (fst (setStateLocked b trs to now)) = br_set b"
  by (cases to; simp add: setStateLocked_def Let_def)+

lemma judgeLocked_frame [simp]:
  "br_name (fst (judgeLocked b f p now trs)) = br_name b"
  "br_onChange (fst (judgeLocked b f p now trs)) = br_onChange b"
  "br_set (fst (judgeLocked b f p now trs)) = br_set b"
  by (cases "br_state b"; simp add: judgeLocked_def Let_def)+

lemma Admit_locked_shape:
  "br_state (fst (Admit_locked b now)) = br_state (fst (refreshLocked b now []))"
  "fst (snd (Admit_locked b now)) = fire b (snd (refreshLocked b now []))"
  "br_name (fst (Admit_locked b now)) = br_name b"
  "br_onChange (fst (Admit_locked b now)) = br_onChange b"
  "br_set (fst (Admit_locked b now)) = br_set b"
  by (auto simp: Admit_locked_def Let_def split_beta fire_def split: bstate.split)

lemma breaker_call_frame:
  "br_name (fst (breaker_call c now b)) = br_name b"
  "br_onChange (fst (breaker_call c now b)) = br_onChange b"
  "br_set (fst (breaker_call c now b)) = br_set b"
  by (cases c; simp add: breaker_op_defs Let_def split_beta Admit_locked_shape record_outcome_def
      Reset_def release_def)+

lemma Reset_chain:
  "br_onChange b \<Longrightarrow> fired_chain True (br_name b) (br_state b) (snd (Reset b now)) (br_state (fst (Reset b now)))"
  by (cases "br_state b") (simp_all add: Reset_def setStateLocked_def Let_def fire_def edge_ok_def)

lemma record_outcome_chain:
  assumes "br_onChange b"
  shows "fired_chain False (br_name b) (br_state b) (snd (record_outcome b f p now))
    (br_state (fst (record_outcome b f p now)))"
proof -
  let ?r = "refreshLocked b now []"
  have "fired_chain False (br_name b) (br_state b) (map (tr_event (br_name b)) (snd ?r))
      (br_state (countLocked (fst ?r) f))"
    using refreshLocked_chain by simp
  then show ?thesis using assms judgeLocked_chain
    by (simp add: record_outcome_def Let_def split_beta fire_def)
qed

lemma breaker_call_chain:
  assumes "breaker_inv b" "br_onChange b" "c = CallReset \<Longrightarrow> r"
  shows "fired_chain r (br_name b) (br_state b) (snd (breaker_call c now b))
    (br_state (fst (breaker_call c now b)))"
proof -
  have ref: "fired_chain r (br_name b) (br_state b) (fire b (snd (refreshLocked b now [])))
      (br_state (fst (refreshLocked b now [])))"
    using refreshLocked_chain assms(2) by (simp add: fire_def fired_chain_mono)
  have fast: "br_fastState b = br_state b" using assms(1) by (simp add: breaker_inv_def)
  show ?thesis
    using ref fast assms record_outcome_chain [OF assms(2), THEN fired_chain_mono] Reset_chain
    by (cases c) (auto simp: breaker_op_defs Let_def split_beta Admit_locked_shape release_def fire_def)
qed

lemma breaker_run_frame:
  "br_name (fst (breaker_run cs b)) = br_name b" "br_onChange (fst (breaker_run cs b)) = br_onChange b"
  "br_set (fst (breaker_run cs b)) = br_set b"
  by (induction cs arbitrary: b) (auto simp: Let_def split_beta breaker_call_frame)

subsection \<open>What each operation decides\<close>

lemma refreshLocked_not_open:
  "br_state b \<noteq> StateOpen \<Longrightarrow> refreshLocked b now trs = (advanceLocked b now, trs)"
  by (simp add: refreshLocked_def)

lemma refreshLocked_open_expired:
  "br_state b = StateOpen \<Longrightarrow> s_OpenTimeout (br_set b) \<le> time_sub now (br_openedAt b) \<Longrightarrow>
   refreshLocked b now trs =
     ((advanceLocked b now)\<lparr>br_state := StateHalfOpen, br_fastState := StateHalfOpen,
        br_probes := 0, br_successes := 0, br_gen := br_gen b + 1\<rparr>,
      trs @ [\<lparr>tr_from = StateOpen, tr_to = StateHalfOpen\<rparr>])"
  by (simp add: refreshLocked_def setStateLocked_def)

lemma refreshLocked_open_running:
  "br_state b = StateOpen \<Longrightarrow> time_sub now (br_openedAt b) < s_OpenTimeout (br_set b) \<Longrightarrow>
   refreshLocked b now trs = (advanceLocked b now, trs)"
  by (simp add: refreshLocked_def)

lemma fire_Nil [simp]: "fire b [] = []"
  by (simp add: fire_def)

definition sample_settings :: settings where
  "sample_settings = \<lparr>s_Window = 10 * second, s_Buckets = 10, s_MinRequests = 2,
     s_FailureRatio = Fin (1 / 2), s_OpenTimeout = 5 * second, s_HalfOpenMax = 2,
     s_MaxEntries = 4, s_OnStateChange = True\<rparr>"

definition sample_half_open :: breaker where
  "sample_half_open = fst (breaker_run
     [(CallFailure, 0), (CallFailure, 0), (CallState, 6 * second)]
     (NewBreaker ''b'' sample_settings 0))"

lemma sample_half_open_state:
  "br_state sample_half_open = StateHalfOpen" "br_gen sample_half_open = 1"
  by code_simp+

definition sample_open :: breaker where
  "sample_open = fst (breaker_run [(CallFailure, 0), (CallFailure, 0)] (NewBreaker ''b'' sample_settings 0))"

lemma sample_half_open_inv: "breaker_inv sample_half_open"
  unfolding sample_half_open_def by (rule breaker_run_inv [OF NewBreaker_inv])

definition sample_probe :: probe where
  "sample_probe = \<lparr>pr_bound = True, pr_gen = 1, pr_probe = True\<rparr>"

text \<open>
  C6: whatever goroutines do to a fresh breaker, in any order and at any clock readings, the
  running totals equal the sum of the buckets, failures never exceed requests, the lock-free copy
  of the state agrees with the state, and the half-open counters stay within \<open>HalfOpenMax\<close>.
\<close>

theorem breaker_lifetime_inv: "breaker_inv (fst (breaker_run cs (NewBreaker name s t0)))"
  by (rule breaker_run_inv [OF NewBreaker_inv])

text \<open>
  \<open>Ready\<close> answers exactly what \<open>Admit\<close> would answer, with the same callbacks, and the only
  difference between the two is the one probe slot that \<open>Admit\<close> reserves when it hands out a
  half-open probe.
\<close>

theorem ready_agrees_with_admit:
  "(let (b1, ev1, ready) = Ready b now; (b2, ev2, p, admitted) = Admit b now
    in ready = admitted \<and> ev1 = ev2 \<and> (pr_probe p \<longleftrightarrow> admitted \<and> br_state b2 = StateHalfOpen \<and> br_fastState b \<noteq> StateClosed) \<and>
       b2 = (if pr_probe p then b1\<lparr>br_probes := br_probes b1 + 1\<rparr> else b1))"
proof -
  obtain a trs where r: "refreshLocked b now [] = (a, trs)" by (cases "refreshLocked b now []")
  show ?thesis
    by (cases "br_state a")
      (simp_all add: Ready_def Admit_def Ready_locked_def Admit_locked_def fire_def r Let_def)
qed

text \<open>
  In half-open, an outcome that does not carry a probe of the running episode is counted in
  the rolling window and does nothing else: no slot is resolved, no success is credited, the state
  does not move and no callback fires.
\<close>

theorem stale_outcome_window_only:
  assumes "br_state b = StateHalfOpen" and "\<not> (pr_probe p \<and> pr_gen p = br_gen b)"
  shows "record_outcome b failed p now = (countLocked (advanceLocked b now) failed, [])"
  using assms by (auto simp: record_outcome_def refreshLocked_not_open judgeLocked_def)

theorem stale_outcome_window_only_witness:
  "br_state sample_half_open = StateHalfOpen \<and>
   record_outcome sample_half_open True zero_probe 0 =
     (countLocked (advanceLocked sample_half_open 0) True, [])"
  using stale_outcome_window_only [of sample_half_open zero_probe True 0] sample_half_open_state
  by (simp add: zero_probe_def)

text \<open>
  In half-open, a probe of the running episode decides. A failure reopens the breaker and
  restarts the open timer; a success frees the slot and is credited, and the one that brings the
  credit to \<open>HalfOpenMax\<close> closes the breaker with an empty window.
\<close>

theorem probe_outcome_decides:
  assumes "breaker_inv b" and "br_state b = StateHalfOpen"
    and "pr_bound p" and "pr_probe p" and "pr_gen p = br_gen b"
  shows "br_state (fst (Probe_Failure b p now)) = StateOpen \<and>
    br_openedAt (fst (Probe_Failure b p now)) = now \<and>
    (let b' = fst (Probe_Success b p now)
     in if br_successes b + 1 < s_HalfOpenMax (br_set b)
        then br_state b' = StateHalfOpen \<and> br_successes b' = br_successes b + 1 \<and>
             br_probes b' = max 0 (br_probes b - 1)
        else br_state b' = StateClosed \<and> br_total b' = bucket0 \<and>
             br_probes b' = 0 \<and> br_successes b' = 0)"
  using assms
  by (simp add: Probe_Failure_def Probe_Success_def record_outcome_def refreshLocked_not_open
      judgeLocked_def setStateLocked_def Let_def breaker_inv_def) (simp add: clearLocked_def)

theorem probe_outcome_decides_witness:
  "br_state (fst (Probe_Failure sample_half_open sample_probe 9)) = StateOpen"
  using probe_outcome_decides [OF sample_half_open_inv sample_half_open_state(1),
      of sample_probe 9] sample_half_open_state(2)
  by (simp add: sample_probe_def)

text \<open>
  C30: a closed breaker opens on an outcome exactly when the window, this outcome included, holds at
  least \<open>MinRequests\<close> requests and the float64 quotient of failures and requests reaches
  \<open>FailureRatio\<close>; a window of failures only always trips, one without failures never does.
\<close>

theorem closed_breaker_trips:
  assumes "breaker_inv b" and "br_state b = StateClosed"
    and "s_FailureRatio (br_set b) = Fin r" and "0 < r" and "r \<le> 1"
    and "w = br_total (countLocked (advanceLocked b now) failed)" and "requests w \<le> 2 ^ 53"
  shows "(br_state (fst (record_outcome b failed p now)) = StateOpen \<longleftrightarrow>
      s_MinRequests (br_set b) \<le> requests w \<and>
      f64_le (Fin r) (f64_round (of_int (failures w) / of_int (requests w)))) \<and>
    (failures w = requests w \<and> s_MinRequests (br_set b) \<le> requests w \<longrightarrow>
      br_state (fst (record_outcome b failed p now)) = StateOpen) \<and>
    (failures w = 0 \<longrightarrow> br_state (fst (record_outcome b failed p now)) = StateClosed)"
proof -
  let ?b = "countLocked (advanceLocked b now) failed"
  have inv: "breaker_inv ?b" using assms(1) by (intro countLocked_inv advanceLocked_inv)
  then have ok: "bucket_ok w" using assms(6) by (simp add: breaker_inv_def window_inv_total_ok)
  have pos: "1 \<le> s_MinRequests (br_set b)" using assms(1) by (simp add: breaker_inv_def)
  have op: "br_state (fst (record_outcome b failed p now)) = (if tripped ?b then StateOpen else StateClosed)"
    using assms(2) by (simp add: record_outcome_def refreshLocked_not_open judgeLocked_def setStateLocked_def Let_def)
  have tr: "tripped ?b \<longleftrightarrow> s_MinRequests (br_set b) \<le> requests w \<and>
      f64_le (Fin r) (f64_round (of_int (failures w) / of_int (requests w)))"
    using assms(3,6,7) ok pos by (auto simp: tripped_def bucket_ok_def)
  have "failures w = requests w \<Longrightarrow> s_MinRequests (br_set b) \<le> requests w \<Longrightarrow> tripped ?b"
    using tr pos assms(5) by simp
  moreover have "failures w = 0 \<Longrightarrow> \<not> tripped ?b" using tr assms(4) by simp
  ultimately show ?thesis unfolding tr [symmetric] op by auto
qed

theorem closed_breaker_trips_witness:
  "br_state (fst (record_outcome (NewBreaker ''b'' sample_settings 0) False zero_probe 0)) = StateClosed"
proof -
  have w: "br_total (countLocked (advanceLocked (NewBreaker ''b'' sample_settings 0) 0) False) =
      \<lparr>requests = 1, failures = 0\<rparr>" by code_simp
  have s: "br_state (NewBreaker ''b'' sample_settings 0) = StateClosed"
    "s_FailureRatio (br_set (NewBreaker ''b'' sample_settings 0)) = Fin (1 / 2)" by code_simp+
  show ?thesis
    using closed_breaker_trips [OF NewBreaker_inv s _ _ w [symmetric], of zero_probe] by simp
qed

text \<open>
  An open breaker refuses every request until \<open>OpenTimeout\<close> has passed since it opened; the
  first poll after that finds it half-open in a new episode with every probe slot free.
\<close>

theorem open_timer_owns_state:
  assumes "breaker_inv b" and "br_state b = StateOpen"
  shows "if time_sub now (br_openedAt b) < s_OpenTimeout (br_set b)
    then snd (snd (Breaker_State b now)) = StateOpen \<and> \<not> snd (snd (Ready b now)) \<and>
         \<not> snd (snd (snd (Admit b now))) \<and> \<not> pr_probe (fst (snd (snd (Admit b now)))) \<and>
         br_state (fst (record_outcome b failed p now)) = StateOpen
    else snd (snd (Breaker_State b now)) = StateHalfOpen \<and> snd (snd (Ready b now)) \<and>
         br_gen (fst (Breaker_State b now)) = br_gen b + 1 \<and>
         br_probes (fst (Breaker_State b now)) = 0 \<and>
         fst (snd (snd (Admit b now))) = \<lparr>pr_bound = True, pr_gen = br_gen b + 1, pr_probe = True\<rparr>"
proof -
  have fast: "br_fastState b \<noteq> StateClosed" "1 \<le> s_HalfOpenMax (br_set b)"
    using assms by (simp_all add: breaker_inv_def)
  show ?thesis
    using assms(2) fast
    by (simp add: Breaker_State_def State_locked_def Ready_def Ready_locked_def Admit_def
        Admit_locked_def record_outcome_def judgeLocked_def refreshLocked_open_running
        refreshLocked_open_expired not_less Let_def)
qed

theorem open_timer_owns_state_witness:
  "snd (snd (Breaker_State sample_open (6 * second))) = StateHalfOpen \<and>
   snd (snd (Breaker_State sample_open (4 * second))) = StateOpen"
proof -
  have i: "breaker_inv sample_open" unfolding sample_open_def by (rule breaker_run_inv [OF NewBreaker_inv])
  have s: "br_state sample_open = StateOpen" "br_openedAt sample_open = 0"
    "s_OpenTimeout (br_set sample_open) = 5 * second" by code_simp+
  show ?thesis
    using open_timer_owns_state [OF i s(1), of "6 * second"] open_timer_owns_state [OF i s(1), of "4 * second"]
    by (simp add: s time_sub_def i64_min_def i64_max_def)
qed

text \<open>
  A goroutine that saw \<open>fastState\<close> not closed and takes the mutex only after others have moved
  the breaker still gets the answer an atomic \<open>Admit\<close> would give at that point, with the same
  probe and the same callbacks; at most the expired buckets are retired earlier.
\<close>

theorem admit_lost_race:
  assumes "breaker_inv b"
  shows "snd (Admit_locked b now) = snd (Admit b now) \<and>
    fst (Admit_locked b now) =
      (if br_state b = StateClosed then advanceLocked b now else fst (Admit b now))"
  using assms
  by (simp add: Admit_def Admit_locked_def breaker_inv_def refreshLocked_not_open)

theorem admit_lost_race_witness:
  "snd (Admit_locked sample_half_open (7 * second)) = snd (Admit sample_half_open (7 * second))"
  using admit_lost_race [OF sample_half_open_inv, of "7 * second"] by simp

end
