(* ===== verification/Circuit_Window.thy ===== *)
theory Circuit_Window
  imports Circuit
begin

text \<open>
  The rolling window of \<^verbatim>\<open>internal/circuit/circuit.go\<close>. The ring buffer \<open>buckets\<close>, \<open>idx\<close>, \<open>start\<close>
  refines a queue of slots, newest first (\<open>rolling\<close>); and the queue in turn counts what it is meant
  to count: against a log of every outcome with its time, \<open>Counts\<close> returns the outcomes of the
  last slots and nothing older.
\<close>

subsection \<open>The abstract window\<close>

record rolling =
  rw_slots :: "bucket list" \<comment> \<open>newest first\<close>
  rw_start :: go_time
  rw_dur :: duration

definition rolling_of :: "breaker \<Rightarrow> rolling" where
  "rolling_of b = \<lparr>rw_slots = rev (rotate (Suc (br_idx b)) (br_buckets b)),
                   rw_start = br_start b, rw_dur = br_bucketDur b\<rparr>"

definition spec_advance :: "rolling \<Rightarrow> go_time \<Rightarrow> rolling" where
  "spec_advance w now =
     (let elapsed = time_sub now (rw_start w); N = length (rw_slots w)
      in if elapsed < rw_dur w then w
         else let n = elapsed div rw_dur w
              in if int N \<le> n then w\<lparr>rw_slots := replicate N bucket0, rw_start := now\<rparr>
                 else w\<lparr>rw_slots := replicate (nat n) bucket0 @ take (N - nat n) (rw_slots w),
                        rw_start := rw_start w + n * rw_dur w\<rparr>)"

definition spec_count :: "rolling \<Rightarrow> bool \<Rightarrow> rolling" where
  "spec_count w failed =
     (case rw_slots w of [] \<Rightarrow> w
      | k # ks \<Rightarrow> w\<lparr>rw_slots := \<lparr>requests = requests k + 1,
                      failures = failures k + (if failed then 1 else 0)\<rparr> # ks\<rparr>)"

abbreviation slots :: "breaker \<Rightarrow> bucket list" where
  "slots b \<equiv> rw_slots (rolling_of b)"

subsection \<open>The ring buffer refines the queue\<close>

lemma length_slots [simp]: "length (slots b) = length (br_buckets b)"
  by (simp add: rolling_of_def)

lemma slots_nth:
  assumes "br_idx b < length (br_buckets b)" "k < length (br_buckets b)"
  shows "slots b ! k = br_buckets b ! ((br_idx b + length (br_buckets b) - k) mod length (br_buckets b))"
proof -
  let ?N = "length (br_buckets b)"
  have "slots b ! k = rotate (Suc (br_idx b)) (br_buckets b) ! (?N - Suc k)"
    using assms by (simp add: rolling_of_def rev_nth)
  also have "\<dots> = br_buckets b ! ((Suc (br_idx b) + (?N - Suc k)) mod ?N)"
    using assms by (intro nth_rotate) simp
  also have "Suc (br_idx b) + (?N - Suc k) = br_idx b + ?N - k" using assms by simp
  finally show ?thesis .
qed

lemma sum_list_rotate [simp]: "sum_list (rotate n xs) = sum_list (xs :: int list)"
proof -
  have "sum_list (take k xs) + sum_list (drop k xs) = sum_list xs" for k
    by (metis append_take_drop_id sum_list_append)
  then show ?thesis by (simp add: rotate_drop_take add.commute)
qed

lemma slots_sum: "bucket_sum (slots b) = bucket_sum (br_buckets b)"
  by (simp add: rolling_of_def bucket_sum_def rev_map [symmetric] rotate_map [symmetric] del: rotate_Suc)

lemma slots_advance_once:
  assumes "window_inv b"
  shows "slots (advance_once b) = bucket0 # butlast (slots b)"
proof (rule nth_equalityI)
  let ?N = "length (br_buckets b)" and ?c = "advance_once b"
  have i: "br_idx b < ?N" using assms by (simp add: window_inv_def)
  have c: "br_idx ?c = (br_idx b + 1) mod ?N" "br_buckets ?c = (br_buckets b)[br_idx ?c := bucket0]"
    by (simp_all add: advance_once_def Let_def)
  have ic: "br_idx ?c < ?N" using next_idx_less [OF i] by (simp add: c)
  show "length (slots ?c) = length (bucket0 # butlast (slots b))" using i by simp
  fix k assume "k < length (slots ?c)"
  then have k: "k < ?N" by simp
  have n: "slots ?c ! k = br_buckets ?c ! ((br_idx ?c + ?N - k) mod ?N)"
    using slots_nth [of ?c k] ic k by simp
  show "slots ?c ! k = (bucket0 # butlast (slots b)) ! k"
  proof (cases k)
    case 0
    then show ?thesis using n ic by (simp add: c(2))
  next
    case (Suc j)
    have "(br_idx ?c + ?N - k) mod ?N = (br_idx b + ?N - j) mod ?N"
    proof (cases "br_idx b + 1 < ?N")
      case True
      then show ?thesis by (simp add: c(1) Suc)
    next
      case False
      with i have e: "br_idx b + 1 = ?N" by simp
      then have "br_idx b + ?N - j = ?N - k + ?N" using Suc k by linarith
      then have "(br_idx b + ?N - j) mod ?N = (?N - k + ?N) mod ?N" by simp
      also have "\<dots> = (?N - k) mod ?N" by simp
      finally show ?thesis using e by (simp add: c(1))
    qed
    moreover have "(br_idx ?c + ?N - k) mod ?N \<noteq> br_idx ?c"
      using k Suc ic by (cases "k \<le> br_idx ?c") (auto simp: mod_if)
    ultimately have "slots ?c ! k = br_buckets b ! ((br_idx b + ?N - j) mod ?N)"
      using n by (simp add: c(2))
    also have "\<dots> = slots b ! j" using slots_nth [OF i, of j] k Suc by simp
    finally show ?thesis using k Suc by (simp add: nth_butlast)
  qed
qed

lemma slots_advance_loop:
  "window_inv b \<Longrightarrow> n \<le> length (br_buckets b) \<Longrightarrow>
   slots (advance_loop n b) = replicate n bucket0 @ take (length (br_buckets b) - n) (slots b)"
proof (induction n arbitrary: b)
  case (Suc n)
  have "slots (advance_loop n (advance_once b)) =
      replicate n bucket0 @ take (length (br_buckets b) - n) (slots (advance_once b))"
    using Suc.IH [of "advance_once b"] Suc.prems by (simp add: advance_once_window)
  also have "take (length (br_buckets b) - n) (slots (advance_once b)) =
      bucket0 # take (length (br_buckets b) - Suc n) (slots b)"
    using Suc.prems
    by (simp add: slots_advance_once take_Cons' take_butlast)
  finally show ?case by (simp add: replicate_app_Cons_same)
qed simp

lemma slots_start [simp]: "slots (b\<lparr>br_start := t\<rparr>) = slots b"
  by (simp add: rolling_of_def)

lemma rolling_of_clear:
  "rolling_of (clearLocked b now) = (rolling_of b)\<lparr>rw_slots := replicate (length (br_buckets b)) bucket0, rw_start := now\<rparr>"
  by (simp add: rolling_of_def clearLocked_def rotate_map map_replicate_const)

lemma rolling_of_start: "rolling_of (b\<lparr>br_start := t\<rparr>) = (rolling_of b)\<lparr>rw_start := t\<rparr>"
  by (simp add: rolling_of_def)

lemma rolling_of_sel [simp]: "rw_start (rolling_of b) = br_start b" "rw_dur (rolling_of b) = br_bucketDur b"
  by (simp_all add: rolling_of_def)

lemma rolling_of_advance:
  assumes "window_inv b"
  shows "rolling_of (advanceLocked b now) = spec_advance (rolling_of b) now"
proof (cases "time_sub now (br_start b) < br_bucketDur b")
  case True
  then show ?thesis by (simp add: advanceLocked_def spec_advance_def Let_def)
next
  case False
  define n where "n = time_sub now (br_start b) div br_bucketDur b"
  have d: "0 < br_bucketDur b" using assms by (simp add: window_inv_def)
  with False have n: "time_sub now (br_start b) sdiv br_bucketDur b = n" "0 \<le> n"
    by (simp_all add: n_def sdiv_pos pos_imp_zdiv_nonneg_iff)
  show ?thesis
  proof (cases "int (length (br_buckets b)) \<le> n")
    case True
    with False n show ?thesis
      by (simp add: advanceLocked_def spec_advance_def Let_def rolling_of_clear n_def [symmetric])
  next
    case less: False
    then have "slots (advance_loop (nat n) b) =
        replicate (nat n) bucket0 @ take (length (br_buckets b) - nat n) (slots b)"
      using n(2) by (intro slots_advance_loop [OF assms]) linarith
    with False n less show ?thesis
      by (simp add: advanceLocked_def spec_advance_def Let_def rolling_of_start n_def [symmetric])
  qed
qed

lemma slots_count:
  assumes "window_inv b"
  shows "rolling_of (countLocked b f) = spec_count (rolling_of b) f"
proof -
  let ?N = "length (br_buckets b)"
  have i: "br_idx b < ?N" using assms by (simp add: window_inv_def)
  let ?k = "\<lparr>requests = requests (br_buckets b ! br_idx b) + 1,
      failures = failures (br_buckets b ! br_idx b) + (if f then 1 else 0)\<rparr>"
  have bk: "br_buckets (countLocked b f) = (br_buckets b)[br_idx b := ?k]"
    by (cases "br_buckets b ! br_idx b") (simp add: countLocked_def Let_def)
  have "slots (countLocked b f) = (slots b)[0 := ?k]"
  proof (rule nth_equalityI)
    fix k assume "k < length (slots (countLocked b f))"
    then have k: "k < ?N" by simp
    have "(br_idx b + ?N - k) mod ?N = br_idx b \<longleftrightarrow> k = 0"
      using k i by (cases "k \<le> br_idx b") (auto simp: mod_if)
    then show "slots (countLocked b f) ! k = (slots b)[0 := ?k] ! k"
      using k i slots_nth [of b k] slots_nth [of "countLocked b f" k] bk by (cases k) auto
  qed simp
  moreover have "slots b ! 0 = br_buckets b ! br_idx b" using slots_nth [of b 0] i by fastforce
  moreover have "slots b \<noteq> []" using i by (metis length_slots length_greater_0_conv gr_implies_not0 list.size(3) not_gr_zero)
  ultimately show ?thesis
    by (cases "slots b") (simp_all add: spec_count_def rolling_of_def)
qed

subsection \<open>The queue against a log of outcomes\<close>

type_synonym outcome_log = "(go_time \<times> bool) list"

definition tally :: "outcome_log \<Rightarrow> bucket" where
  "tally l = \<lparr>requests = int (length l), failures = int (length (filter snd l))\<rparr>"

definition logged_in :: "go_time \<Rightarrow> go_time \<Rightarrow> outcome_log \<Rightarrow> outcome_log" where
  "logged_in lo hi l = filter (\<lambda>(t, _). lo \<le> t \<and> t < hi) l"

text \<open>
  The log holds the outcomes since the window was last emptied by a change to closed or by
  \<open>Reset\<close>; \<open>tracks\<close> says slot \<open>k\<close> counts exactly the outcomes of its own time slice.
\<close>

definition tracks :: "breaker \<Rightarrow> outcome_log \<Rightarrow> go_time \<Rightarrow> bool" where
  "tracks b l now =
     (window_inv b \<and> br_start b \<le> now \<and>
      (\<forall>(t, _) \<in> set l. t \<le> now \<and> t < br_start b + br_bucketDur b) \<and>
      (\<forall>k < length (br_buckets b).
         slots b ! k = tally (logged_in (br_start b - int k * br_bucketDur b)
                                        (br_start b - int k * br_bucketDur b + br_bucketDur b) l)))"

lemma tally_Nil [simp]: "tally [] = bucket0"
  by (simp add: tally_def bucket0_def)

lemma logged_in_none: "(\<And>t f. (t, f) \<in> set l \<Longrightarrow> t < lo \<or> hi \<le> t) \<Longrightarrow> logged_in lo hi l = []"
  by (force simp: logged_in_def filter_empty_conv)

lemma logged_in_append [simp]: "logged_in lo hi (l @ l') = logged_in lo hi l @ logged_in lo hi l'"
  by (simp add: logged_in_def)

lemma tracks_advance:
  assumes tr: "tracks b l t" and mono: "t \<le> now" and range: "now - br_start b \<le> i64_max"
  shows "tracks (advanceLocked b now) l now \<and>
    now < br_start (advanceLocked b now) + br_bucketDur b \<and> br_start b \<le> br_start (advanceLocked b now)"
proof -
  let ?d = "br_bucketDur b" and ?N = "length (br_buckets b)"
  have w: "window_inv b" and st: "br_start b \<le> now" using tr mono by (auto simp: tracks_def)
  have d: "0 < ?d" and N: "0 < ?N" using w by (auto simp: window_inv_def)
  have w': "window_inv (advanceLocked b now)" using w by (rule advanceLocked_window)
  have el: "time_sub now (br_start b) = now - br_start b"
    using st range by (intro time_sub_eq) (auto simp: i64_min_def)
  have old: "tt \<le> now \<and> tt < br_start b + ?d" if "(tt, f) \<in> set l" for tt f
    using tr mono that by (fastforce simp: tracks_def)
  have slot: "slots b ! k = tally (logged_in (br_start b - int k * ?d) (br_start b - int k * ?d + ?d) l)"
    if "k < ?N" for k using tr that by (simp add: tracks_def)
  have ro: "rolling_of (advanceLocked b now) = spec_advance (rolling_of b) now"
    using w by (rule rolling_of_advance)
  have sl: "slots (advanceLocked b now) = rw_slots (spec_advance (rolling_of b) now)"
    "br_start (advanceLocked b now) = rw_start (spec_advance (rolling_of b) now)"
    using ro by (simp_all flip: ro)
  define n where "n = (now - br_start b) div ?d"
  have ndiv: "n * ?d \<le> now - br_start b" "now - br_start b < n * ?d + ?d" "0 \<le> n"
    using d st by (auto simp: n_def minus_mod_eq_div_mult [symmetric] pos_imp_zdiv_nonneg_iff)
  consider (stay) "now - br_start b < ?d" | (clear) "\<not> now - br_start b < ?d" "int ?N \<le> n"
    | (shift) "\<not> now - br_start b < ?d" "n < int ?N" by linarith
  then show ?thesis
  proof cases
    case stay
    then have "advanceLocked b now = b" by (simp add: advanceLocked_def el)
    with stay tr mono old show ?thesis by (auto simp: tracks_def)
  next
    case clear
    then have s: "slots (advanceLocked b now) = replicate ?N bucket0" "br_start (advanceLocked b now) = now"
      by (simp_all add: sl spec_advance_def el Let_def n_def [symmetric])
    have far: "br_start b + ?d \<le> now - int k * ?d" if "k < ?N" for k
    proof -
      have "(int k + 1) * ?d \<le> n * ?d" using that clear d by (intro mult_right_mono) auto
      then show ?thesis using ndiv by (simp add: algebra_simps)
    qed
    have "logged_in (now - int k * ?d) (now - int k * ?d + ?d) l = []" if "k < ?N" for k
      using far [OF that] old by (intro logged_in_none) (meson le_less_trans linorder_not_le order_trans)
    with s w' old d st show ?thesis using far [OF N] by (fastforce simp: tracks_def)
  next
    case shift
    then have s: "slots (advanceLocked b now) = replicate (nat n) bucket0 @ take (?N - nat n) (slots b)"
      "br_start (advanceLocked b now) = br_start b + n * ?d"
      by (simp_all add: sl spec_advance_def el Let_def n_def [symmetric])
    have n1: "1 \<le> n" using shift d zdiv_mono1 [of ?d "now - br_start b" ?d] by (simp add: n_def)
    have "slots (advanceLocked b now) ! k =
        tally (logged_in (br_start b + n * ?d - int k * ?d) (br_start b + n * ?d - int k * ?d + ?d) l)"
      if k: "k < ?N" for k
    proof (cases "k < nat n")
      case True
      then have "1 * ?d \<le> (n - int k) * ?d" using d by (intro mult_right_mono) linarith+
      then have "br_start b + ?d \<le> br_start b + n * ?d - int k * ?d" by (simp add: algebra_simps)
      then have "logged_in (br_start b + n * ?d - int k * ?d) (br_start b + n * ?d - int k * ?d + ?d) l = []"
        using old by (intro logged_in_none) (meson le_less_trans linorder_not_le order_trans)
      with True s show ?thesis by (simp add: nth_append)
    next
      case False
      then have e: "int (k - nat n) = int k - n" using ndiv by linarith
      have "slots (advanceLocked b now) ! k = slots b ! (k - nat n)"
        using False k shift by (simp add: s nth_append)
      also have "\<dots> = tally (logged_in (br_start b - int (k - nat n) * ?d) (br_start b - int (k - nat n) * ?d + ?d) l)"
        using k by (intro slot) linarith
      also have "br_start b - int (k - nat n) * ?d = br_start b + n * ?d - int k * ?d"
        unfolding e by (simp add: algebra_simps)
      finally show ?thesis .
    qed
    moreover have "?d \<le> n * ?d" using n1 d by (simp add: mult_le_cancel_right1)
    ultimately show ?thesis using s w' ndiv old d by (fastforce simp: tracks_def)
  qed
qed

fun outcome_of :: "breaker_op \<Rightarrow> bool option" where
  "outcome_of CallSuccess = Some False"
| "outcome_of CallFailure = Some True"
| "outcome_of (CallProbeSuccess p) = (if pr_bound p then Some False else None)"
| "outcome_of (CallProbeFailure p) = (if pr_bound p then Some True else None)"
| "outcome_of _ = None"

definition log_step :: "breaker_op \<Rightarrow> go_time \<Rightarrow> breaker \<Rightarrow> outcome_log \<Rightarrow> outcome_log" where
  "log_step c now b l =
     (if c = CallReset \<or> (br_state b \<noteq> StateClosed \<and> br_state (fst (breaker_call c now b)) = StateClosed)
      then []
      else case outcome_of c of Some f \<Rightarrow> l @ [(now, f)] | None \<Rightarrow> l)"

fun log_run :: "(breaker_op \<times> go_time) list \<Rightarrow> breaker \<Rightarrow> outcome_log \<Rightarrow> outcome_log" where
  "log_run [] b l = l"
| "log_run ((c, now) # cs) b l = log_run cs (fst (breaker_call c now b)) (log_step c now b l)"

subsection \<open>Every operation keeps the log in step\<close>

lemma rolling_of_update [simp]:
  "rolling_of (b\<lparr>br_state := s\<rparr>) = rolling_of b" "rolling_of (b\<lparr>br_fastState := s\<rparr>) = rolling_of b"
  "rolling_of (b\<lparr>br_probes := k\<rparr>) = rolling_of b" "rolling_of (b\<lparr>br_successes := k\<rparr>) = rolling_of b"
  "rolling_of (b\<lparr>br_gen := g\<rparr>) = rolling_of b" "rolling_of (b\<lparr>br_openedAt := t\<rparr>) = rolling_of b"
  by (simp_all add: rolling_of_def)

lemma tracks_update [simp]:
  "tracks (b\<lparr>br_state := s\<rparr>) l now = tracks b l now" "tracks (b\<lparr>br_fastState := s\<rparr>) l now = tracks b l now"
  "tracks (b\<lparr>br_probes := k\<rparr>) l now = tracks b l now" "tracks (b\<lparr>br_successes := k\<rparr>) l now = tracks b l now"
  "tracks (b\<lparr>br_gen := g\<rparr>) l now = tracks b l now" "tracks (b\<lparr>br_openedAt := t\<rparr>) l now = tracks b l now"
  by (simp_all add: tracks_def)

lemma tracks_later: "tracks b l t \<Longrightarrow> t \<le> now \<Longrightarrow> tracks b l now"
  by (fastforce simp: tracks_def)

lemma logged_in_Nil [simp]: "logged_in lo hi [] = []"
  by (simp add: logged_in_def)

lemma clearLocked_start: "br_start (clearLocked b now) = now"
  by (simp add: clearLocked_def)

lemma tracks_clear:
  assumes "window_inv b"
  shows "tracks (clearLocked b now) [] now"
proof -
  have "slots (clearLocked b now) = replicate (length (br_buckets b)) bucket0"
    using rolling_of_clear [of b now] by simp
  with clearLocked_window [OF assms] show ?thesis by (simp add: tracks_def) (simp add: clearLocked_def)
qed

lemma tracks_count:
  assumes tr: "tracks b l now" and lt: "now < br_start b + br_bucketDur b"
  shows "tracks (countLocked b f) (l @ [(now, f)]) now"
proof -
  let ?d = "br_bucketDur b"
  have w: "window_inv b" and d: "0 < ?d" and st: "br_start b \<le> now"
    using tr by (auto simp: tracks_def window_inv_def)
  then obtain s0 ss where ss: "slots b = s0 # ss"
    by (metis length_slots list.exhaust list.size(3) not_less_zero window_inv_def)
  have N: "0 < length (br_buckets b)" using w by (auto simp: window_inv_def)
  have sc: "slots (countLocked b f) =
      \<lparr>requests = requests s0 + 1, failures = failures s0 + (if f then 1 else 0)\<rparr> # ss"
    using slots_count [OF w, of f] ss by (simp add: spec_count_def)
  have slot: "slots b ! k = tally (logged_in (br_start b - int k * ?d) (br_start b - int k * ?d + ?d) l)"
    if "k < length (br_buckets b)" for k using tr that by (simp add: tracks_def)
  have "slots (countLocked b f) ! k =
      tally (logged_in (br_start b - int k * ?d) (br_start b - int k * ?d + ?d) (l @ [(now, f)]))"
    if "k < length (br_buckets b)" for k
  proof (cases k)
    case 0
    have "s0 = tally (logged_in (br_start b) (br_start b + ?d) l)" using slot [OF N] ss by simp
    then show ?thesis using 0 st lt by (simp add: sc tally_def) (simp add: logged_in_def)
  next
    case (Suc j)
    have "0 \<le> int j * ?d" using d by simp
    then have "br_start b - int k * ?d + ?d \<le> now" using Suc st by (simp add: algebra_simps)
    then have "logged_in (br_start b - int k * ?d) (br_start b - int k * ?d + ?d) [(now, f)] = []"
      by (simp add: logged_in_def)
    then show ?thesis using slot [OF that] ss Suc by (simp add: sc)
  qed
  with tr lt countLocked_window [OF w] show ?thesis by (auto simp: tracks_def)
qed

lemma tracks_refresh:
  "tracks (fst (refreshLocked b now trs)) l t = tracks (advanceLocked b now) l t"
  "br_start (fst (refreshLocked b now trs)) = br_start (advanceLocked b now)"
  "br_bucketDur (fst (refreshLocked b now trs)) = br_bucketDur b"
  by (simp_all add: refreshLocked_def setStateLocked_def Let_def)

lemma setStateLocked_open_window:
  "to \<noteq> StateClosed \<Longrightarrow> tracks (fst (setStateLocked b trs to now)) l t = tracks b l t"
  "to \<noteq> StateClosed \<Longrightarrow> br_start (fst (setStateLocked b trs to now)) = br_start b"
  by (cases to; simp add: setStateLocked_def Let_def)+

lemma judgeLocked_tracks:
  assumes "tracks b l now"
  shows "tracks (fst (judgeLocked b f p now trs))
      (if br_state b \<noteq> StateClosed \<and> br_state (fst (judgeLocked b f p now trs)) = StateClosed then [] else l) now \<and>
    br_start b \<le> br_start (fst (judgeLocked b f p now trs))"
proof -
  have w: "window_inv b" and st: "br_start b \<le> now" using assms by (auto simp: tracks_def)
  show ?thesis
  proof (cases "br_state b")
    case StateHalfOpen
    then show ?thesis using assms st tracks_clear
      by (auto simp: judgeLocked_def Let_def setStateLocked_open_window)
        (auto simp: setStateLocked_def Let_def w clearLocked_start)
  qed (use assms in \<open>auto simp: judgeLocked_def Let_def setStateLocked_open_window\<close>)
qed

lemma record_outcome_tracks:
  assumes "tracks b l t" "t \<le> now" "now - br_start b \<le> i64_max"
  shows "tracks (fst (record_outcome b f p now))
      (if br_state b \<noteq> StateClosed \<and> br_state (fst (record_outcome b f p now)) = StateClosed
       then [] else l @ [(now, f)]) now \<and>
    br_start b \<le> br_start (fst (record_outcome b f p now))"
proof -
  obtain b1 trs where r: "refreshLocked b now [] = (b1, trs)" by (cases "refreshLocked b now []")
  have a: "tracks b1 l now" "now < br_start b1 + br_bucketDur b1" "br_start b \<le> br_start b1"
    using tracks_advance [OF assms] tracks_refresh [of b now "[]"] by (simp_all add: r)
  have "tracks (countLocked b1 f) (l @ [(now, f)]) now" using a(1,2) by (rule tracks_count)
  note j = judgeLocked_tracks [OF this, of f p trs]
  have ro: "fst (record_outcome b f p now) = fst (judgeLocked (countLocked b1 f) f p now trs)"
    by (simp add: record_outcome_def r Let_def split_beta)
  have "br_state b = StateClosed \<longleftrightarrow> br_state b1 = StateClosed"
    using r by (auto simp: refreshLocked_def setStateLocked_def Let_def split: if_splits)
  with j a(3) show ?thesis by (simp add: ro)
qed

lemma refresh_tracks:
  assumes "tracks b l t" "t \<le> now" "now - br_start b \<le> i64_max"
  shows "tracks (fst (refreshLocked b now trs)) l now \<and> br_start b \<le> br_start (fst (refreshLocked b now trs))"
  using tracks_advance [OF assms] tracks_refresh by simp

lemma refreshLocked_closed_iff [simp]:
  "br_state (fst (refreshLocked b now trs)) = StateClosed \<longleftrightarrow> br_state b = StateClosed"
  by (simp add: refreshLocked_def setStateLocked_def Let_def)

lemma Admit_locked_tracks:
  "tracks (fst (Admit_locked b now)) l t = tracks (fst (refreshLocked b now [])) l t"
  "br_start (fst (Admit_locked b now)) = br_start (fst (refreshLocked b now []))"
  by (auto simp: Admit_locked_def Let_def split_beta split: bstate.split)

lemma Reset_tracks:
  assumes "tracks b l t" "t \<le> now"
  shows "tracks (fst (Reset b now)) [] now \<and> br_start b \<le> br_start (fst (Reset b now))"
proof -
  have "window_inv (fst (setStateLocked b [] StateClosed now))"
    using assms by (auto simp: tracks_def setStateLocked_def Let_def clearLocked_window)
  then have "tracks (clearLocked (fst (setStateLocked b [] StateClosed now)) now) [] now"
    by (rule tracks_clear)
  then show ?thesis using assms by (auto simp: Reset_def split_beta Let_def clearLocked_start tracks_def)
qed

lemma breaker_call_tracks:
  assumes "tracks b l t" "t \<le> now" "now - br_start b \<le> i64_max"
  shows "tracks (fst (breaker_call c now b)) (log_step c now b l) now \<and>
    br_start b \<le> br_start (fst (breaker_call c now b))"
proof -
  note later = tracks_later [OF assms(1,2)]
  note adv = tracks_advance [OF assms]
  note ref = refresh_tracks [OF assms, of "[]"]
  have rec: "br_state b \<noteq> StateClosed \<Longrightarrow> br_state (fst (record_outcome b f p now)) = StateClosed \<Longrightarrow>
      tracks (fst (record_outcome b f p now)) [] now"
    "br_state b = StateClosed \<Longrightarrow> tracks (fst (record_outcome b f p now)) (l @ [(now, f)]) now"
    "br_state (fst (record_outcome b f p now)) \<noteq> StateClosed \<Longrightarrow>
      tracks (fst (record_outcome b f p now)) (l @ [(now, f)]) now"
    "br_start b \<le> br_start (fst (record_outcome b f p now))" for f p
    using record_outcome_tracks [OF assms, of f p] by simp_all
  have rel: "tracks (release b p) l now" "br_start (release b p) = br_start b"
    "br_state (release b p) = br_state b" for p
    using later by (simp_all add: release_def)
  show ?thesis
    using later adv ref rel Reset_tracks [OF assms(1,2)]
    by (cases c) (simp_all add: log_step_def breaker_op_defs split_beta Let_def Admit_locked_tracks
        Admit_locked_shape rec)
qed

subsection \<open>Totals\<close>

lemma tally_split:
  "lo \<le> mid \<Longrightarrow> mid \<le> hi \<Longrightarrow>
   tally (logged_in lo hi l) =
     \<lparr>requests = requests (tally (logged_in lo mid l)) + requests (tally (logged_in mid hi l)),
      failures = failures (tally (logged_in lo mid l)) + failures (tally (logged_in mid hi l))\<rparr>"
  by (induction l) (auto simp: tally_def logged_in_def)

lemma tally_mono:
  assumes "\<And>t f. (t, f) \<in> set l \<Longrightarrow> lo \<le> t \<Longrightarrow> t < hi \<Longrightarrow> lo' \<le> t \<and> t < hi'"
  shows "requests (tally (logged_in lo hi l)) \<le> requests (tally (logged_in lo' hi' l)) \<and>
    failures (tally (logged_in lo hi l)) \<le> failures (tally (logged_in lo' hi' l))"
  using assms
proof (induction l)
  case (Cons x l)
  have "requests (tally (logged_in lo hi l)) \<le> requests (tally (logged_in lo' hi' l)) \<and>
      failures (tally (logged_in lo hi l)) \<le> failures (tally (logged_in lo' hi' l))"
    by (rule Cons.IH) (use Cons.prems in auto)
  then show ?case using Cons.prems [of "fst x" "snd x"]
    by (cases x) (auto simp: tally_def logged_in_def)
qed simp

lemma bucket_sum_slices:
  assumes "0 < d"
  shows "bucket_sum (map (\<lambda>k. tally (logged_in (s - int k * d) (s - int k * d + d) l)) [0..<m]) =
    tally (logged_in (s + d - int m * d) (s + d) l)"
proof (induction m)
  case 0
  have "logged_in (s + d) (s + d) l = []" by (rule logged_in_none) linarith
  then show ?case by (simp add: bucket_sum_def tally_def)
next
  case (Suc m)
  have "tally (logged_in (s + d - int (Suc m) * d) (s + d) l) =
      \<lparr>requests = requests (tally (logged_in (s - int m * d) (s - int m * d + d) l)) +
                  requests (tally (logged_in (s + d - int m * d) (s + d) l)),
       failures = failures (tally (logged_in (s - int m * d) (s - int m * d + d) l)) +
                  failures (tally (logged_in (s + d - int m * d) (s + d) l))\<rparr>"
    using tally_split [of "s - int m * d" "s + d - int m * d" "s + d" l] assms
    by (simp add: algebra_simps)
  then show ?case using Suc.IH [symmetric] by (simp add: bucket_sum_def)
qed

lemma tracks_total:
  assumes "tracks b l now"
  shows "br_total b = tally (logged_in (br_start b + br_bucketDur b - int (length (br_buckets b)) * br_bucketDur b)
    (br_start b + br_bucketDur b) l)"
proof -
  have w: "window_inv b" using assms by (simp add: tracks_def)
  have "slots b = map (\<lambda>k. tally (logged_in (br_start b - int k * br_bucketDur b)
      (br_start b - int k * br_bucketDur b + br_bucketDur b) l)) [0..<length (br_buckets b)]"
    by (rule nth_equalityI) (use assms in \<open>auto simp: tracks_def\<close>)
  then have "bucket_sum (slots b) = tally (logged_in (br_start b + br_bucketDur b - int (length (br_buckets b)) * br_bucketDur b)
      (br_start b + br_bucketDur b) l)"
    using bucket_sum_slices w by (simp add: window_inv_def)
  then show ?thesis using w by (simp add: slots_sum window_inv_def)
qed

lemma breaker_run_tracks:
  "tracks b l t \<Longrightarrow> sorted (t # map snd cs @ [now]) \<Longrightarrow> now - br_start b \<le> i64_max \<Longrightarrow>
   tracks (fst (breaker_run cs b)) (log_run cs b l) now \<and> br_start b \<le> br_start (fst (breaker_run cs b))"
proof (induction cs arbitrary: b l t)
  case Nil
  then show ?case by (simp add: tracks_later)
next
  case (Cons x cs)
  obtain c u where x: "x = (c, u)" by (cases x)
  have "t \<le> u" "u \<le> now" using Cons.prems(2) by (auto simp: x)
  then have k: "tracks (fst (breaker_call c u b)) (log_step c u b l) u \<and> br_start b \<le> br_start (fst (breaker_call c u b))"
    using Cons.prems by (intro breaker_call_tracks) auto
  have "tracks (fst (breaker_run cs (fst (breaker_call c u b)))) (log_run cs (fst (breaker_call c u b)) (log_step c u b l)) now \<and>
      br_start (fst (breaker_call c u b)) \<le> br_start (fst (breaker_run cs (fst (breaker_call c u b))))"
    by (rule Cons.IH) (use k Cons.prems x in auto)
  with k show ?case by (simp add: x split_beta Let_def)
qed

lemma rotate_replicate_same: "rotate n (replicate m x) = replicate m x"
proof (induction n)
  case (Suc n)
  then show ?case by (cases m) (simp_all add: replicate_append_same)
qed simp

lemma NewBreaker_tracks: "tracks (NewBreaker name s t0) [] t0 \<and> br_start (NewBreaker name s t0) = t0"
proof -
  have st: "br_start (NewBreaker name s t0) = t0" by (simp add: NewBreaker_def Let_def)
  have "window_inv (NewBreaker name s t0)" using NewBreaker_inv by (simp add: breaker_inv_def)
  moreover have "slots (NewBreaker name s t0) = replicate (length (br_buckets (NewBreaker name s t0))) bucket0"
    by (simp add: rolling_of_def NewBreaker_def Let_def rotate_replicate_same del: rotate_Suc)
  ultimately show ?thesis using st by (simp add: tracks_def)
qed

text \<open>
  C16: the ring buffer of buckets implements a queue of time slots. Advancing the breaker shifts the
  queue by the number of slots that have begun (or empties it), counting an outcome changes the
  newest slot only, and the running totals are the sum of the queue.
\<close>

theorem window_refines_queue:
  assumes "window_inv b"
  shows "rolling_of (advanceLocked b now) = spec_advance (rolling_of b) now \<and>
    rolling_of (countLocked b failed) = spec_count (rolling_of b) failed \<and>
    snd (Counts b now) =
      (requests (bucket_sum (rw_slots (spec_advance (rolling_of b) now))),
       failures (bucket_sum (rw_slots (spec_advance (rolling_of b) now))))"
proof -
  have "br_total (advanceLocked b now) = bucket_sum (slots (advanceLocked b now))"
    using advanceLocked_window [OF assms, of now] by (simp add: window_inv_def slots_sum)
  then show ?thesis using assms
    by (simp add: rolling_of_advance slots_count Counts_def Let_def)
qed

theorem window_refines_queue_witness:
  "rolling_of (countLocked sample_half_open True) = spec_count (rolling_of sample_half_open) True"
proof -
  have "window_inv sample_half_open" using sample_half_open_inv by (simp add: breaker_inv_def)
  from window_refines_queue [OF this, of 0 True] show ?thesis by simp
qed

text \<open>
  C17: whatever calls a breaker has seen under a monotone clock, \<open>Counts\<close> is taken over the outcomes recorded since the
  breaker last closed or was last \<open>Reset\<close>, when the window is emptied (all of them, if it never was): it reports every
  such outcome of the last \<open>Buckets - 1\<close> bucket durations and none older than \<open>Buckets\<close> bucket durations.
\<close>

theorem window_counts_recent_outcomes:
  assumes "sorted (t0 # map snd cs @ [now])" and "now - t0 \<le> i64_max"
    and "b = fst (breaker_run cs (NewBreaker name s t0))"
    and "l = log_run cs (NewBreaker name s t0) []"
    and "n = int (length (br_buckets b))"
  shows "let (_, r, f) = Counts b now;
             recent = tally (logged_in (now - (n - 1) * br_bucketDur b) (now + 1) l);
             old = tally (logged_in (now + 1 - n * br_bucketDur b) (now + 1) l)
         in requests recent \<le> r \<and> r \<le> requests old \<and> failures recent \<le> f \<and> f \<le> failures old"
proof -
  let ?d = "br_bucketDur b" and ?b = "advanceLocked b now"
  have tr: "tracks b l now" and st: "t0 \<le> br_start b"
    using breaker_run_tracks [of "NewBreaker name s t0" "[]" t0 cs now] NewBreaker_tracks assms by auto
  have a: "tracks ?b l now" "now < br_start ?b + ?d" "br_start ?b \<le> now"
    using tracks_advance [OF tr order_refl] st assms(2) by (auto simp: tracks_def)
  have tot: "br_total ?b = tally (logged_in (br_start ?b + ?d - n * ?d) (br_start ?b + ?d) l)"
    using tracks_total [OF a(1)] assms(5) by simp
  have past: "t \<le> now" if "(t, f) \<in> set l" for t f using a(1) that by (auto simp: tracks_def)
  have e: "(n - 1) * ?d = n * ?d - ?d" by (simp add: algebra_simps)
  have "requests (tally (logged_in (now - (n - 1) * ?d) (now + 1) l)) \<le> requests (br_total ?b) \<and>
      failures (tally (logged_in (now - (n - 1) * ?d) (now + 1) l)) \<le> failures (br_total ?b)"
    unfolding tot by (rule tally_mono) (use a(2,3) e in \<open>auto dest!: past\<close>)
  moreover have "requests (br_total ?b) \<le> requests (tally (logged_in (now + 1 - n * ?d) (now + 1) l)) \<and>
      failures (br_total ?b) \<le> failures (tally (logged_in (now + 1 - n * ?d) (now + 1) l))"
    unfolding tot by (rule tally_mono) (use a(2,3) e in \<open>auto dest!: past\<close>)
  ultimately show ?thesis by (simp add: Counts_def Let_def)
qed

theorem window_counts_recent_outcomes_witness:
  "fst (snd (Counts (fst (breaker_run [(CallSuccess, 0)] (NewBreaker ''b'' sample_settings 0))) 5)) = 1"
proof -
  let ?init = "NewBreaker ''b'' sample_settings 0" and ?cs = "[(CallSuccess, 0 :: go_time)]"
  let ?b = "fst (breaker_run ?cs ?init)"
  have e: "br_bucketDur ?b = second" "int (length (br_buckets ?b)) = 10" "log_run ?cs ?init [] = [(0, False)]"
    by code_simp+
  have "let (_, r, f) = Counts ?b 5;
             recent = tally (logged_in (5 - (10 - 1) * br_bucketDur ?b) (5 + 1) [(0, False)]);
             old = tally (logged_in (5 + 1 - 10 * br_bucketDur ?b) (5 + 1) [(0, False)])
         in requests recent \<le> r \<and> r \<le> requests old \<and> failures recent \<le> f \<and> f \<le> failures old"
    by (rule window_counts_recent_outcomes [of 0 ?cs 5 ?b "''b''" sample_settings])
      (use e in \<open>simp_all add: i64_max_def\<close>)
  then show ?thesis unfolding e by (simp add: tally_def logged_in_def split_beta Let_def)
qed

end
