(* ===== verification/Admission.thy ===== *)
theory Admission
  imports Prelude
begin

text \<open>
  The contract between a breaker and the code that sends requests through it
  (\<open>Admit\<close> before, \<open>Success\<close> / \<open>Failure\<close> / \<open>Release\<close> after): an operation never breaks the
  provider's invariant, \<open>ready\<close> predicts \<open>admit\<close>, and a slot that \<open>admit\<close> took is back once the
  request is resolved. \<^verbatim>\<open>internal/pool\<close> (a backend over its breaker) and \<^verbatim>\<open>internal/circuit\<close> provide
  it, \<^verbatim>\<open>internal/proxy\<close> and \<^verbatim>\<open>internal/middleware\<close> rely on it.
\<close>

datatype resolution = Resolved_Success | Resolved_Failure | Resolved_Release

locale admission_gate =
  fixes invar :: "'s \<Rightarrow> bool"
    and held :: "'s \<Rightarrow> int"
    and ready :: "'s \<Rightarrow> go_time \<Rightarrow> bool"
    and admit :: "'s \<Rightarrow> go_time \<Rightarrow> 's \<times> 'p \<times> bool"
    and resolve :: "'s \<Rightarrow> 'p \<Rightarrow> resolution \<Rightarrow> go_time \<Rightarrow> 's"
  assumes admit_invar: "invar s \<Longrightarrow> invar (fst (admit s t))"
    and resolve_invar: "invar s \<Longrightarrow> invar (resolve s p r t)"
    and held_nonneg: "invar s \<Longrightarrow> 0 \<le> held s"
    and ready_admit: "invar s \<Longrightarrow> ready s t = snd (snd (admit s t))"
    and resolve_returns:
      "invar s \<Longrightarrow> held (resolve (fst (admit s t)) (fst (snd (admit s t))) r u) \<le> held s"
begin

text \<open>One request: admission, then the outcome at a later reading of the clock.\<close>

definition cycle :: "'s \<Rightarrow> go_time \<times> resolution \<times> go_time \<Rightarrow> 's" where
  "cycle s x = (case x of (t, r, u) \<Rightarrow> resolve (fst (admit s t)) (fst (snd (admit s t))) r u)"

lemma cycle_invar: "invar s \<Longrightarrow> invar (cycle s x)"
  by (simp add: cycle_def admit_invar resolve_invar split: prod.split)

lemma cycles_invar: "invar s \<Longrightarrow> invar (foldl cycle s xs)"
  by (induction xs arbitrary: s) (simp_all add: cycle_invar)

lemma cycles_never_leak: "invar s \<Longrightarrow> held (foldl cycle s xs) \<le> held s"
proof (induction xs arbitrary: s)
  case (Cons x xs)
  have "held (foldl cycle (cycle s x) xs) \<le> held (cycle s x)"
    by (rule Cons.IH [OF cycle_invar [OF Cons.prems]])
  also have "\<dots> \<le> held s" using resolve_returns [OF Cons.prems] by (simp add: cycle_def split: prod.split)
  finally show ?case by simp
qed simp

lemma idle_stays_idle: "invar s \<Longrightarrow> held s = 0 \<Longrightarrow> held (foldl cycle s xs) = 0"
  using cycles_never_leak [of s xs] held_nonneg [OF cycles_invar, of s xs] by simp

end

end
