(* ===== verification/Circuit_Episodes.thy ===== *)
theory Circuit_Episodes
  imports Circuit Admission
begin

text \<open>
  The half-open protocol of \<^verbatim>\<open>internal/circuit/circuit.go\<close> with its callers: any number of
  goroutines hold admitted probes while others admit, poll, resolve, release and reset. The
  invariant ties \<open>Breaker.probes\<close> to the probes of the running episode that are still outstanding.
\<close>

subsection \<open>Callers and outstanding probes\<close>

record probe_system =
  ps_b :: breaker
  ps_out :: "probe multiset" \<comment> \<open>handed out by \<open>Admit\<close>, not yet resolved or released\<close>

definition outstanding :: "breaker \<Rightarrow> probe multiset \<Rightarrow> nat" where
  "outstanding b out = size (filter_mset (\<lambda>p. pr_probe p \<and> pr_gen p = br_gen b) out)"

text \<open>
  A step happens at some clock reading. \<open>br_gen\<close> is a uint64: the steps are those of the first
  2^64 - 1 half-open episodes, before the generation counter wraps.
\<close>

inductive probe_step :: "probe_system \<Rightarrow> probe_system \<Rightarrow> bool" where
  admit: "br_gen (ps_b s) \<noteq> - 1 \<Longrightarrow> Admit (ps_b s) now = (b', ev, p, ok) \<Longrightarrow>
    probe_step s (s\<lparr>ps_b := b', ps_out := add_mset p (ps_out s)\<rparr>)"
| admit_late: "br_gen (ps_b s) \<noteq> - 1 \<Longrightarrow> Admit_locked (ps_b s) now = (b', ev, p, ok) \<Longrightarrow>
    probe_step s (s\<lparr>ps_b := b', ps_out := add_mset p (ps_out s)\<rparr>)"
| succeed: "br_gen (ps_b s) \<noteq> - 1 \<Longrightarrow> p \<in># ps_out s \<Longrightarrow>
    probe_step s (s\<lparr>ps_b := fst (Probe_Success (ps_b s) p now), ps_out := ps_out s - {#p#}\<rparr>)"
| fail: "br_gen (ps_b s) \<noteq> - 1 \<Longrightarrow> p \<in># ps_out s \<Longrightarrow>
    probe_step s (s\<lparr>ps_b := fst (Probe_Failure (ps_b s) p now), ps_out := ps_out s - {#p#}\<rparr>)"
| release: "p \<in># ps_out s \<Longrightarrow>
    probe_step s (s\<lparr>ps_b := Probe_Release (ps_b s) p, ps_out := ps_out s - {#p#}\<rparr>)"
| poll: "br_gen (ps_b s) \<noteq> - 1 \<Longrightarrow>
    c \<in> {CallState, CallReady, LockedState, LockedReady, CallSuccess, CallFailure, CallCounts, CallReset} \<Longrightarrow>
    probe_step s (s\<lparr>ps_b := fst (breaker_call c now (ps_b s))\<rparr>)"

inductive probe_reach :: "probe_system \<Rightarrow> bool" where
  fresh: "probe_reach \<lparr>ps_b = NewBreaker name st t0, ps_out = {#}\<rparr>"
| step: "probe_reach s \<Longrightarrow> probe_step s s' \<Longrightarrow> probe_reach s'"

inductive_cases probe_stepE: "probe_step s s'"

definition attributed :: "breaker \<Rightarrow> probe multiset \<Rightarrow> bool" where
  "attributed b out =
     (breaker_inv b \<and>
      (\<forall>p \<in># out. pr_bound p \<and> (pr_probe p \<longrightarrow> pr_gen p \<le> br_gen b)) \<and>
      (br_state b = StateHalfOpen \<longrightarrow> br_probes b = int (outstanding b out)))"

subsection \<open>Sequential recovery\<close>

primrec probe_rounds :: "nat \<Rightarrow> go_time \<Rightarrow> breaker \<Rightarrow> breaker" where
  "probe_rounds 0 now b = b"
| "probe_rounds (Suc n) now b =
     (let (b', _, p, _) = Admit b now in probe_rounds n now (fst (Probe_Success b' p now)))"

subsection \<open>Attribution is invariant\<close>

lemma word_gen_next: "(g :: 64 word) \<noteq> - 1 \<Longrightarrow> x \<le> g \<Longrightarrow> x < g + 1"
  using inc_less_eq_self_iff_eq [of g] by (meson leI le_less_trans)

lemma outstanding_new_gen:
  assumes "\<forall>p \<in># out. pr_bound p \<and> (pr_probe p \<longrightarrow> pr_gen p \<le> br_gen b)" "br_gen b \<noteq> - 1"
  shows "filter_mset (\<lambda>p. pr_probe p \<and> pr_gen p = br_gen b + 1) out = {#}"
proof -
  have "\<not> (pr_probe p \<and> pr_gen p = br_gen b + 1)" if "p \<in># out" for p
    using assms that word_gen_next [OF assms(2), of "pr_gen p"] by auto
  then have "p \<notin># filter_mset (\<lambda>p. pr_probe p \<and> pr_gen p = br_gen b + 1) out" for p
    by auto
  then show ?thesis by (metis multiset_nonemptyE)
qed

lemma attributed_window:
  "attributed b out \<Longrightarrow> attributed (advanceLocked b now) out"
  "attributed b out \<Longrightarrow> attributed (countLocked b f) out"
  by (simp_all add: attributed_def outstanding_def advanceLocked_inv countLocked_inv)

lemma attributed_refresh:
  assumes "attributed b out" "br_gen b \<noteq> - 1"
  shows "attributed (fst (refreshLocked b now trs)) out"
proof (cases "br_state b = StateOpen \<and> s_OpenTimeout (br_set b) \<le> time_sub now (br_openedAt b)")
  case True
  have gens: "\<forall>p \<in># out. pr_bound p \<and> (pr_probe p \<longrightarrow> pr_gen p \<le> br_gen b)"
    using assms(1) by (simp add: attributed_def)
  then have le: "\<forall>p \<in># out. pr_bound p \<and> (pr_probe p \<longrightarrow> pr_gen p \<le> br_gen b + 1)"
    using word_gen_next [OF assms(2)] by (auto intro: less_imp_le)
  have "breaker_inv (fst (refreshLocked b now trs))"
    using assms(1) by (intro refreshLocked_inv) (simp add: attributed_def)
  then show ?thesis using True le outstanding_new_gen [OF gens assms(2)]
    by (simp add: attributed_def refreshLocked_open_expired outstanding_def)
next
  case False
  then have "refreshLocked b now trs = (advanceLocked b now, trs)" by (auto simp: refreshLocked_def)
  then show ?thesis using attributed_window(1) [OF assms(1)] by simp
qed

lemma attributed_admit_locked:
  assumes "attributed b out" "br_gen b \<noteq> - 1" "Admit_locked b now = (b', ev, p, ok)"
  shows "attributed b' (add_mset p out)"
proof -
  obtain a trs where r: "refreshLocked b now [] = (a, trs)" by (cases "refreshLocked b now []")
  have a: "attributed a out" using attributed_refresh [OF assms(1,2), of now "[]"] by (simp add: r)
  have "breaker_inv b'" using Admit_locked_inv [of b now] assms(1,3) by (simp add: attributed_def)
  then show ?thesis using a assms(3)
    by (cases "br_state a"; cases "br_probes a < s_HalfOpenMax (br_set a)")
      (auto simp: Admit_locked_def r Let_def attributed_def outstanding_def)
qed

lemma attributed_admit:
  assumes "attributed b out" "br_gen b \<noteq> - 1" "Admit b now = (b', ev, p, ok)"
  shows "attributed b' (add_mset p out)"
proof (cases "br_fastState b = StateClosed")
  case True
  then show ?thesis using assms
    by (auto simp: Admit_def attributed_def outstanding_def breaker_inv_def)
next
  case False
  then show ?thesis using assms attributed_admit_locked by (auto simp: Admit_def)
qed

text \<open>Leaving half-open, and forgetting an outcome that is not of the running episode.\<close>

lemma attributed_leave:
  "attributed b out \<Longrightarrow> breaker_inv b' \<Longrightarrow> br_gen b' = br_gen b \<Longrightarrow> br_state b' \<noteq> StateHalfOpen \<Longrightarrow>
   out' \<subseteq># out \<Longrightarrow> attributed b' out'"
  by (auto simp: attributed_def dest: mset_subset_eqD)

lemma setStateLocked_leave:
  "to \<noteq> StateHalfOpen \<Longrightarrow> br_gen (fst (setStateLocked b trs to now)) = br_gen b"
  "to \<noteq> StateHalfOpen \<Longrightarrow> br_state (fst (setStateLocked b trs to now)) = to"
  by (cases to; simp add: setStateLocked_def Let_def)+

lemma outstanding_remove:
  "p \<in># out \<Longrightarrow> outstanding b (out - {#p#}) =
     outstanding b out - (if pr_probe p \<and> pr_gen p = br_gen b then 1 else 0)"
  by (auto simp: outstanding_def size_Diff_singleton)

lemma outstanding_pos:
  "p \<in># out \<Longrightarrow> pr_probe p \<Longrightarrow> pr_gen p = br_gen b \<Longrightarrow> 0 < outstanding b out"
  by (auto simp: outstanding_def size_eq_0_iff_empty neq0_conv [symmetric] simp del: neq0_conv)

lemma attributed_forget:
  "attributed b out \<Longrightarrow> \<not> (pr_probe p \<and> pr_gen p = br_gen b) \<or> br_state b \<noteq> StateHalfOpen \<Longrightarrow>
   attributed b (out - {#p#})"
  by (cases "p \<in># out") (auto simp: attributed_def outstanding_remove diff_single_trivial dest: in_diffD)

lemma attributed_resolve:
  assumes "attributed b out" "p \<in># out" "pr_probe p" "pr_gen p = br_gen b" "br_state b = StateHalfOpen"
    and "br_successes b + k < s_HalfOpenMax (br_set b)" "0 \<le> k"
  shows "0 < br_probes b \<and>
    attributed (b\<lparr>br_probes := br_probes b - 1, br_successes := br_successes b + k\<rparr>) (out - {#p#})"
proof -
  have pos: "0 < br_probes b"
    using assms outstanding_pos [OF assms(2-4)] by (simp add: attributed_def)
  have "outstanding (b\<lparr>br_probes := br_probes b - 1, br_successes := br_successes b + k\<rparr>) (out - {#p#}) =
      outstanding b (out - {#p#})" by (simp add: outstanding_def)
  with pos show ?thesis using assms outstanding_remove [OF assms(2), of b] outstanding_pos [OF assms(2-4)]
    by (auto simp: attributed_def breaker_inv_def dest: in_diffD)
qed

lemma attributed_judge:
  assumes "attributed b out" "p \<in># out"
  shows "attributed (fst (judgeLocked b f p now trs)) (out - {#p#})"
proof -
  have inv: "breaker_inv b" using assms(1) by (simp add: attributed_def)
  have inv': "breaker_inv (fst (judgeLocked b f p now trs))" by (rule judgeLocked_inv [OF inv])
  have leave: "attributed (fst (judgeLocked b f p now trs)) (out - {#p#})"
    if "br_gen (fst (judgeLocked b f p now trs)) = br_gen b"
      "br_state (fst (judgeLocked b f p now trs)) \<noteq> StateHalfOpen"
    by (rule attributed_leave [OF assms(1) inv' that]) simp
  consider (other) "br_state b \<noteq> StateHalfOpen"
    | (stale) "br_state b = StateHalfOpen" "\<not> (pr_probe p \<and> pr_gen p = br_gen b)"
    | (decided) "br_state b = StateHalfOpen" "pr_probe p" "pr_gen p = br_gen b"
        "f \<or> s_HalfOpenMax (br_set b) \<le> br_successes b + 1"
    | (credit) "br_state b = StateHalfOpen" "pr_probe p" "pr_gen p = br_gen b"
        "\<not> f" "br_successes b + 1 < s_HalfOpenMax (br_set b)" by linarith
  then show ?thesis
  proof cases
    case other
    then show ?thesis
      by (intro leave; cases "br_state b") (auto simp: judgeLocked_def setStateLocked_leave)
  next
    case stale
    then show ?thesis using attributed_forget [OF assms(1)] by (auto simp: judgeLocked_def)
  next
    case decided
    then show ?thesis by (intro leave) (auto simp: judgeLocked_def Let_def setStateLocked_leave)
  next
    case credit
    then show ?thesis using attributed_resolve [OF assms credit(2,3,1), of 1]
      by (simp add: judgeLocked_def)
  qed
qed

lemma judge_zero_probe_attributed:
  "attributed b out \<Longrightarrow> attributed (fst (judgeLocked b f zero_probe now trs)) out"
proof (cases "br_state b")
  case StateClosed
  assume a: "attributed b out"
  then have i: "breaker_inv (fst (judgeLocked b f zero_probe now trs))"
    by (intro judgeLocked_inv) (simp add: attributed_def)
  show ?thesis using StateClosed
    by (intro attributed_leave [OF a i _ _ subset_mset.order_refl])
      (auto simp: judgeLocked_def setStateLocked_leave)
qed (auto simp: judgeLocked_def zero_probe_def)

lemma attributed_record:
  assumes "attributed b out" "br_gen b \<noteq> - 1"
  shows "p \<in># out \<Longrightarrow> attributed (fst (record_outcome b f p now)) (out - {#p#})"
    and "attributed (fst (record_outcome b f zero_probe now)) out"
proof -
  have "attributed (countLocked (fst (refreshLocked b now [])) f) out"
    by (intro attributed_window attributed_refresh assms)
  then show "p \<in># out \<Longrightarrow> attributed (fst (record_outcome b f p now)) (out - {#p#})"
    and "attributed (fst (record_outcome b f zero_probe now)) out"
    by (simp_all add: record_outcome_def Let_def split_beta attributed_judge judge_zero_probe_attributed)
qed

lemma attributed_release:
  assumes "attributed b out" "p \<in># out"
  shows "attributed (Probe_Release b p) (out - {#p#})"
proof (cases "pr_probe p \<and> pr_gen p = br_gen b \<and> br_state b = StateHalfOpen")
  case True
  moreover have "br_successes b + 0 < s_HalfOpenMax (br_set b)" "pr_bound p"
    using assms by (auto simp: attributed_def breaker_inv_def)
  ultimately show ?thesis using attributed_resolve [OF assms, of 0] by (simp add: Probe_Release_def release_def)
next
  case False
  then have "Probe_Release b p = b" by (auto simp: Probe_Release_def release_def)
  then show ?thesis using attributed_forget [OF assms(1), of p] False by auto
qed

lemma attributed_reset: "attributed b out \<Longrightarrow> attributed (fst (Reset b now)) out"
proof -
  assume a: "attributed b out"
  then have i: "breaker_inv (fst (Reset b now))" by (intro Reset_inv) (simp add: attributed_def)
  show ?thesis
    by (rule attributed_leave [OF a i _ _ subset_mset.order_refl])
      (simp_all add: Reset_def Let_def split_beta setStateLocked_leave)
qed

lemma probe_step_attributed:
  "probe_step s s' \<Longrightarrow> attributed (ps_b s) (ps_out s) \<Longrightarrow> attributed (ps_b s') (ps_out s')"
proof (induction rule: probe_step.induct)
  case (succeed s p now)
  then have "pr_bound p" by (simp add: attributed_def)
  then show ?case using attributed_record(1) succeed by (simp add: Probe_Success_def)
next
  case (fail s p now)
  then have "pr_bound p" by (simp add: attributed_def)
  then show ?case using attributed_record(1) fail by (simp add: Probe_Failure_def)
next
  case (poll s c now)
  then show ?case
    by (auto simp: breaker_op_defs Let_def split_beta attributed_refresh attributed_record
        attributed_window attributed_reset)
qed (simp_all add: attributed_admit attributed_admit_locked attributed_release)

lemma probe_reach_attributed: "probe_reach s \<Longrightarrow> attributed (ps_b s) (ps_out s)"
proof (induction rule: probe_reach.induct)
  case (fresh name st t0)
  have "br_state (NewBreaker name st t0) = StateClosed" by (simp add: NewBreaker_def Let_def)
  then show ?case using NewBreaker_inv by (simp add: attributed_def)
qed (rule probe_step_attributed)

subsection \<open>The breaker as an admission gate\<close>

definition breaker_ready :: "breaker \<Rightarrow> go_time \<Rightarrow> bool" where
  "breaker_ready b t = snd (snd (Ready b t))"

definition breaker_admit :: "breaker \<Rightarrow> go_time \<Rightarrow> breaker \<times> probe \<times> bool" where
  "breaker_admit b t = (let (b', _, p, ok) = Admit b t in (b', p, ok))"

fun breaker_resolve :: "breaker \<Rightarrow> probe \<Rightarrow> resolution \<Rightarrow> go_time \<Rightarrow> breaker" where
  "breaker_resolve b p Resolved_Success t = fst (Probe_Success b p t)"
| "breaker_resolve b p Resolved_Failure t = fst (Probe_Failure b p t)"
| "breaker_resolve b p Resolved_Release t = Probe_Release b p"

lemma setStateLocked_probes:
  "br_probes (fst (setStateLocked b trs to now)) = (if br_state b = to then br_probes b else 0)"
  by (cases to) (simp_all add: setStateLocked_def Let_def)

lemma record_outcome_probes:
  assumes "breaker_inv b"
  shows "br_probes (fst (record_outcome b f p now)) \<le>
    (if br_state b = StateHalfOpen \<and> pr_probe p \<and> pr_gen p = br_gen b then max 0 (br_probes b - 1) else br_probes b)"
proof (cases "br_state b = StateHalfOpen")
  case True
  with assms show ?thesis
    by (auto simp: record_outcome_def refreshLocked_not_open judgeLocked_def setStateLocked_probes
        Let_def breaker_inv_def split_beta)
next
  case False
  let ?a = "countLocked (fst (refreshLocked b now [])) f"
  have z: "br_probes ?a = 0" "br_probes b = 0" using assms False
    by (auto simp: refreshLocked_def setStateLocked_probes breaker_inv_def Let_def)
  have "br_probes (fst (judgeLocked ?a f p now trs)) = 0" for trs
    using z(1) by (cases "br_state ?a") (simp_all add: judgeLocked_def setStateLocked_probes Let_def)
  then show ?thesis using z False by (simp add: record_outcome_def Let_def split_beta)
qed

lemma Admit_takes_slot:
  assumes "breaker_inv b" "Admit b t = (b', ev, p, ok)"
  shows "pr_bound p \<and> (if pr_probe p
    then br_state b' = StateHalfOpen \<and> pr_gen p = br_gen b' \<and> br_probes b' \<le> br_probes b + 1
    else br_probes b' \<le> br_probes b)"
proof (cases "br_state b = StateOpen \<and> s_OpenTimeout (br_set b) \<le> time_sub t (br_openedAt b)")
  case True
  with assms show ?thesis
    by (auto simp: Admit_def Admit_locked_def refreshLocked_open_expired breaker_inv_def Let_def split: if_splits)
next
  case False
  then have r: "refreshLocked b t [] = (advanceLocked b t, [])" by (auto simp: refreshLocked_def)
  show ?thesis using assms
    by (cases "br_state b") (auto simp: Admit_def Admit_locked_def r breaker_inv_def Let_def split: if_splits)
qed

lemma resolve_probes:
  assumes "breaker_inv b" "pr_bound p"
  shows "br_probes (breaker_resolve b p r u) \<le>
    (if br_state b = StateHalfOpen \<and> pr_probe p \<and> pr_gen p = br_gen b then max 0 (br_probes b - 1) else br_probes b)"
  using record_outcome_probes [OF assms(1)] assms(2)
  by (cases r) (auto simp: Probe_Success_def Probe_Failure_def Probe_Release_def release_def)

lemma breaker_resolve_inv: "breaker_inv b \<Longrightarrow> breaker_inv (breaker_resolve b p r u)"
  by (cases r) (simp_all add: breaker_op_defs breaker_inv_ops)

interpretation breaker_gate: admission_gate breaker_inv br_probes breaker_ready breaker_admit breaker_resolve
proof
  fix b t assume b: "breaker_inv b"
  show "breaker_inv (fst (breaker_admit b t))"
    using breaker_call_inv [OF b, of CallAdmit t] by (simp add: breaker_admit_def split_beta Let_def)
  show "breaker_ready b t = snd (snd (breaker_admit b t))"
    using b by (auto simp: breaker_ready_def breaker_admit_def Ready_def Admit_def Ready_locked_def
        Admit_locked_def split_beta Let_def split: bstate.split)
  show "0 \<le> br_probes b" using b by (simp add: breaker_inv_def)
  fix r u
  obtain b' ev p ok where a: "Admit b t = (b', ev, p, ok)" by (cases "Admit b t")
  have "breaker_inv b'" using breaker_call_inv [OF b, of CallAdmit t] a by simp
  then show "br_probes (breaker_resolve (fst (breaker_admit b t)) (fst (snd (breaker_admit b t))) r u) \<le> br_probes b"
    using Admit_takes_slot [OF b a] resolve_probes [of b' p r u] b
    by (auto simp: breaker_admit_def a breaker_inv_def split: if_splits)
qed (rule breaker_resolve_inv)

subsection \<open>Recovery\<close>

lemma probe_credit:
  assumes "breaker_inv b" "br_state b = StateHalfOpen" "0 < br_probes b"
    "a = fst (Probe_Success b \<lparr>pr_bound = True, pr_gen = br_gen b, pr_probe = True\<rparr> now)"
  shows "breaker_inv a \<and> br_set a = br_set b \<and>
    (if br_successes b + 1 < s_HalfOpenMax (br_set b)
     then br_state a = StateHalfOpen \<and> br_successes a = br_successes b + 1 \<and> br_probes a = br_probes b - 1
     else br_state a = StateClosed)"
proof -
  have "breaker_inv a" using assms(1,4) by (simp add: Probe_Success_def record_outcome_inv)
  moreover have "br_set a = br_set b"
    using assms(4) by (simp add: Probe_Success_def record_outcome_def Let_def split_beta)
  moreover have "if br_successes b + 1 < s_HalfOpenMax (br_set b)
     then br_state a = StateHalfOpen \<and> br_successes a = br_successes b + 1 \<and> br_probes a = br_probes b - 1
     else br_state a = StateClosed"
    using assms by (simp add: Probe_Success_def record_outcome_def refreshLocked_not_open judgeLocked_def
        setStateLocked_leave breaker_inv_def Let_def split_beta)
  ultimately show ?thesis by blast
qed

text \<open>The first poll after the timer is an admission into a fresh episode.\<close>

definition admitting :: "breaker \<Rightarrow> go_time \<Rightarrow> bool" where
  "admitting b now = (case br_state b of
     StateClosed \<Rightarrow> False
   | StateOpen \<Rightarrow> s_OpenTimeout (br_set b) \<le> time_sub now (br_openedAt b)
   | StateHalfOpen \<Rightarrow> br_probes b < s_HalfOpenMax (br_set b))"

lemma admitting_Admit:
  assumes "breaker_inv b" "admitting b now"
  obtains b' ev where "Admit b now = (b', ev, \<lparr>pr_bound = True, pr_gen = br_gen b', pr_probe = True\<rparr>, True)"
    "breaker_inv b'" "br_state b' = StateHalfOpen" "br_probes b' = br_probes b + 1"
    "br_successes b' = br_successes b" "br_set b' = br_set b"
proof -
  have i: "breaker_inv (fst (Admit b now))" using breaker_call_inv [OF assms(1), of CallAdmit now]
    by (simp add: split_beta Let_def)
  have "\<exists>b' ev. Admit b now = (b', ev, \<lparr>pr_bound = True, pr_gen = br_gen b', pr_probe = True\<rparr>, True) \<and>
    br_state b' = StateHalfOpen \<and> br_probes b' = br_probes b + 1 \<and>
    br_successes b' = br_successes b \<and> br_set b' = br_set b"
    using assms by (cases "br_state b")
      (simp_all add: admitting_def Admit_def Admit_locked_def refreshLocked_open_expired
        refreshLocked_not_open breaker_inv_def)
  then show ?thesis using i that by fastforce
qed

lemma probe_rounds_admitting:
  "breaker_inv b \<Longrightarrow> admitting b now \<Longrightarrow> 0 < n \<Longrightarrow>
   br_successes b + int n \<le> s_HalfOpenMax (br_set b) \<Longrightarrow>
   br_state (probe_rounds n now b) =
     (if br_successes b + int n = s_HalfOpenMax (br_set b) then StateClosed else StateHalfOpen)"
proof (induction n arbitrary: b)
  case (Suc n)
  obtain b' ev where a: "Admit b now = (b', ev, \<lparr>pr_bound = True, pr_gen = br_gen b', pr_probe = True\<rparr>, True)"
    and b': "breaker_inv b'" "br_state b' = StateHalfOpen" "br_probes b' = br_probes b + 1"
      "br_successes b' = br_successes b" "br_set b' = br_set b"
    using admitting_Admit [OF Suc.prems(1,2)] .
  let ?a = "fst (Probe_Success b' \<lparr>pr_bound = True, pr_gen = br_gen b', pr_probe = True\<rparr> now)"
  have pos: "0 < br_probes b'" using Suc.prems(1) b'(3) by (simp add: breaker_inv_def)
  note c = probe_credit [OF b'(1,2) pos refl, of now, unfolded b'(3-5)]
  have "br_probes b' \<le> s_HalfOpenMax (br_set b)" using b' by (simp add: breaker_inv_def)
  then have adm: "br_state ?a = StateHalfOpen \<Longrightarrow> br_probes ?a = br_probes b \<Longrightarrow> admitting ?a now"
    using c b'(3) by (simp add: admitting_def)
  show ?case
  proof (cases "br_successes b + 1 < s_HalfOpenMax (br_set b)")
    case True
    then show ?thesis using c adm Suc.prems Suc.IH [of ?a] by (cases n) (simp_all add: a add_ac)
  next
    case False
    then show ?thesis using c Suc.prems by (cases n) (simp_all add: a)
  qed
qed simp

definition sample_system :: probe_system where
  "sample_system = \<lparr>ps_b = sample_half_open, ps_out = {#}\<rparr>"

lemma sample_system_reach: "probe_reach sample_system"
proof -
  let ?a = "NewBreaker ''b'' sample_settings 0"
  let ?c = "fst (Breaker_Failure ?a 0)"
  let ?d = "fst (Breaker_Failure ?c 0)"
  have g: "br_gen ?a \<noteq> - 1" "br_gen ?c \<noteq> - 1" "br_gen ?d \<noteq> - 1" by code_simp+
  have "probe_reach \<lparr>ps_b = ?a, ps_out = {#}\<rparr>" by (rule probe_reach.fresh)
  from probe_reach.step [OF this probe_step.poll, of CallFailure 0]
  have "probe_reach \<lparr>ps_b = ?c, ps_out = {#}\<rparr>" using g by simp
  from probe_reach.step [OF this probe_step.poll, of CallFailure 0]
  have "probe_reach \<lparr>ps_b = ?d, ps_out = {#}\<rparr>" using g by simp
  from probe_reach.step [OF this probe_step.poll, of CallState "6 * second"]
  show ?thesis using g
    by (simp add: sample_system_def sample_half_open_def Let_def split_beta)
qed

lemma sample_half_open_probes: "br_probes sample_half_open = 0"
  by code_simp

subsection \<open>Claims\<close>

text \<open>
  C5: however callers interleave, a half-open breaker accounts for exactly the probes of the
  running episode that are still outstanding. It is ready if and only if fewer than
  \<open>HalfOpenMax\<close> of them are, so it never wedges: once every caller has resolved or released its
  probe, the next request is admitted as a probe of this episode.
\<close>

theorem half_open_never_wedges:
  assumes "probe_reach s" and "br_state (ps_b s) = StateHalfOpen"
  shows "br_probes (ps_b s) = int (outstanding (ps_b s) (ps_out s)) \<and>
    int (outstanding (ps_b s) (ps_out s)) \<le> s_HalfOpenMax (br_set (ps_b s)) \<and>
    (snd (snd (Ready (ps_b s) now)) \<longleftrightarrow>
       int (outstanding (ps_b s) (ps_out s)) < s_HalfOpenMax (br_set (ps_b s))) \<and>
    (ps_out s = {#} \<longrightarrow> snd (snd (Admit (ps_b s) now)) =
       (\<lparr>pr_bound = True, pr_gen = br_gen (ps_b s), pr_probe = True\<rparr>, True))"
proof -
  have a: "attributed (ps_b s) (ps_out s)" by (rule probe_reach_attributed [OF assms(1)])
  then have p: "br_probes (ps_b s) = int (outstanding (ps_b s) (ps_out s))" and i: "breaker_inv (ps_b s)"
    using assms(2) by (simp_all add: attributed_def)
  then have "snd (snd (Ready (ps_b s) now)) \<longleftrightarrow> br_probes (ps_b s) < s_HalfOpenMax (br_set (ps_b s))"
    using assms(2) by (simp add: Ready_def Ready_locked_def refreshLocked_not_open breaker_inv_def)
  moreover have "snd (snd (Admit (ps_b s) now)) =
       (\<lparr>pr_bound = True, pr_gen = br_gen (ps_b s), pr_probe = True\<rparr>, True)" if "ps_out s = {#}"
    using that i p assms(2) by (simp add: Admit_def Admit_locked_def refreshLocked_not_open breaker_inv_def outstanding_def)
  ultimately show ?thesis using p i by (simp add: breaker_inv_def)
qed

theorem half_open_never_wedges_witness:
  "br_state (ps_b sample_system) = StateHalfOpen \<and> snd (snd (Ready (ps_b sample_system) 7))"
proof -
  have "br_state (ps_b sample_system) = StateHalfOpen" "ps_out sample_system = {#}"
    "s_HalfOpenMax (br_set (ps_b sample_system)) = 2"
    by (simp add: sample_system_def sample_half_open_state, simp add: sample_system_def, code_simp)
  then show ?thesis using half_open_never_wedges [OF sample_system_reach, of 7]
    by (simp add: outstanding_def)
qed

text \<open>
  C21: recovery. An open breaker whose timeout has passed closes again after \<open>HalfOpenMax\<close>
  admitted requests that succeed, and no earlier.
\<close>

theorem breaker_recovers:
  assumes "breaker_inv b" and "br_state b = StateOpen"
    and "s_OpenTimeout (br_set b) \<le> time_sub now (br_openedAt b)"
    and "0 < n" and "int n \<le> s_HalfOpenMax (br_set b)"
  shows "br_state (probe_rounds n now b) =
    (if int n = s_HalfOpenMax (br_set b) then StateClosed else StateHalfOpen)"
proof -
  have "br_successes b = 0" using assms(1,2) by (simp add: breaker_inv_def)
  then show ?thesis using probe_rounds_admitting [OF assms(1) _ assms(4), of now] assms(2,3,5)
    by (simp add: admitting_def)
qed

theorem breaker_recovers_witness:
  "br_state (probe_rounds 2 (6 * second) sample_open) = StateClosed"
proof -
  have i: "breaker_inv sample_open" unfolding sample_open_def by (rule breaker_run_inv [OF NewBreaker_inv])
  have s: "br_state sample_open = StateOpen" "br_openedAt sample_open = 0"
    "s_OpenTimeout (br_set sample_open) = 5 * second" "s_HalfOpenMax (br_set sample_open) = 2" by code_simp+
  show ?thesis using breaker_recovers [OF i s(1), of "6 * second" 2]
    by (simp add: s time_sub_def i64_min_def i64_max_def)
qed

text \<open>
  A caller that resolves every request it was admitted for, with any outcomes and at any
  times, never leaves a slot reserved: a breaker with no outstanding probe has none afterwards.
\<close>

theorem resolved_requests_leave_no_probe:
  assumes "breaker_inv b" and "br_probes b = 0"
  shows "br_probes (foldl (\<lambda>b (t, r, u). breaker_resolve (fst (breaker_admit b t))
      (fst (snd (breaker_admit b t))) r u) b xs) = 0"
proof -
  have "(\<lambda>b (t, r, u). breaker_resolve (fst (breaker_admit b t)) (fst (snd (breaker_admit b t))) r u) =
      breaker_gate.cycle" by (simp add: fun_eq_iff breaker_gate.cycle_def)
  then show ?thesis using breaker_gate.idle_stays_idle [OF assms] by simp
qed

theorem resolved_requests_leave_no_probe_witness:
  "br_probes (foldl (\<lambda>b (t, r, u). breaker_resolve (fst (breaker_admit b t))
      (fst (snd (breaker_admit b t))) r u) sample_half_open [(7, Resolved_Success, 8), (9, Resolved_Release, 9)]) = 0"
  using resolved_requests_leave_no_probe [OF sample_half_open_inv] sample_half_open_probes by blast

end
