(* ===== verification/Capped.thy ===== *)
theory Capped
  imports Prelude
begin

text \<open>
  The contract of a table keyed by client-chosen names that must not grow without bound:
  \<^verbatim>\<open>circuit.Registry\<close> and the method labels of \<^verbatim>\<open>internal/middleware/metrics.go\<close> both give a name its own
  entry until the cap is reached and a shared one afterwards. The lemmas hold for any sequence of
  lookups; \<open>'e\<close> is what a lookup takes beside the name (the clock reading, for a registry).
\<close>

locale capped_table =
  fixes keys :: "'s \<Rightarrow> string set"
    and cap :: "'s \<Rightarrow> int"
    and lookup :: "'s \<Rightarrow> string \<Rightarrow> 'e \<Rightarrow> 's \<times> 'r"
    and own :: "string \<Rightarrow> 'r"
    and shared :: 'r
    and ok :: "'s \<Rightarrow> bool"
  assumes ok_lookup: "ok s \<Longrightarrow> ok (fst (lookup s k e))"
    and finite_keys: "ok s \<Longrightarrow> finite (keys s)"
    and cap_lookup: "cap (fst (lookup s k e)) = cap s"
    and hit: "ok s \<Longrightarrow> k \<in> keys s \<Longrightarrow> lookup s k e = (s, own k)"
    and full: "ok s \<Longrightarrow> k \<notin> keys s \<Longrightarrow> cap s \<le> int (card (keys s)) \<Longrightarrow> lookup s k e = (s, shared)"
    and room: "ok s \<Longrightarrow> k \<notin> keys s \<Longrightarrow> int (card (keys s)) < cap s \<Longrightarrow>
      keys (fst (lookup s k e)) = insert k (keys s) \<and> snd (lookup s k e) = own k"
begin

definition lookups :: "'s \<Rightarrow> (string \<times> 'e) list \<Rightarrow> 's" where
  "lookups s xs = foldl (\<lambda>s x. fst (lookup s (fst x) (snd x))) s xs"

lemma lookups_simps [simp]:
  "lookups s [] = s" "lookups s (x # xs) = lookups (fst (lookup s (fst x) (snd x))) xs"
  by (simp_all add: lookups_def)

lemma keys_lookup:
  assumes "ok s"
  shows "keys (fst (lookup s k e)) =
    (if k \<in> keys s \<or> cap s \<le> int (card (keys s)) then keys s else insert k (keys s))"
  using assms hit [of s k e] full [of s k e] room [of s k e] by (cases "k \<in> keys s") auto

lemma lookups_ok: "ok s \<Longrightarrow> ok (lookups s xs)"
  by (induction xs arbitrary: s) (simp_all add: ok_lookup)

lemma lookups_cap: "cap (lookups s xs) = cap s"
  by (induction xs arbitrary: s) (simp_all add: cap_lookup)

lemma lookups_keys_mono: "ok s \<Longrightarrow> keys s \<subseteq> keys (lookups s xs)"
proof (induction xs arbitrary: s)
  case (Cons x xs)
  have "keys s \<subseteq> keys (fst (lookup s (fst x) (snd x)))" using keys_lookup [OF Cons.prems] by auto
  then show ?case using Cons.IH [OF ok_lookup [OF Cons.prems]] by fastforce
qed simp

lemma lookups_bounded:
  "ok s \<Longrightarrow> int (card (keys s)) \<le> cap s \<Longrightarrow> int (card (keys (lookups s xs))) \<le> cap s"
proof (induction xs arbitrary: s)
  case (Cons x xs)
  let ?s = "fst (lookup s (fst x) (snd x))"
  have "int (card (keys ?s)) \<le> cap ?s"
    using keys_lookup [OF Cons.prems(1), of "fst x" "snd x"] Cons.prems finite_keys [OF Cons.prems(1)]
    by (simp add: cap_lookup card_insert_if)
  then show ?case using Cons.IH [OF ok_lookup [OF Cons.prems(1)]] by (simp add: cap_lookup)
qed simp

text \<open>A name that was given its own entry keeps it.\<close>

lemma own_is_stable:
  assumes "ok s" "snd (lookup s k e) = own k" "own k \<noteq> shared"
  shows "snd (lookup (lookups (fst (lookup s k e)) xs) k e') = own k"
proof -
  have "k \<in> keys (fst (lookup s k e))"
    using assms full [of s k e] keys_lookup [OF assms(1), of k e] by (cases "k \<in> keys s") (auto split: if_splits)
  then have "k \<in> keys (lookups (fst (lookup s k e)) xs)"
    using lookups_keys_mono [OF ok_lookup [OF assms(1)]] by blast
  then show ?thesis using hit [OF lookups_ok [OF ok_lookup [OF assms(1)]]] by simp
qed

text \<open>While the distinct names fit under the cap nobody shares.\<close>

lemma keys_of_lookups:
  "ok s \<Longrightarrow> int (card (keys s \<union> fst ` set xs)) \<le> cap s \<Longrightarrow> keys (lookups s xs) = keys s \<union> fst ` set xs"
proof (induction xs arbitrary: s)
  case (Cons x xs)
  let ?s = "fst (lookup s (fst x) (snd x))"
  have "card (keys s) < card (keys s \<union> fst ` set (x # xs))" if "fst x \<notin> keys s"
    using that finite_keys [OF Cons.prems(1)] by (intro psubset_card_mono) auto
  then have k: "keys ?s = insert (fst x) (keys s)"
    using keys_lookup [OF Cons.prems(1), of "fst x" "snd x"] Cons.prems(2) by auto
  then have "keys (lookups ?s xs) = keys ?s \<union> fst ` set xs"
    using Cons.prems by (intro Cons.IH ok_lookup) (simp_all add: cap_lookup)
  then show ?case using k by simp
qed simp

end

end
