(* ===== verification/Circuit_Registry.thy ===== *)
theory Circuit_Registry
  imports Circuit Capped
begin

text \<open>
  \<^verbatim>\<open>Registry\<close> of \<^verbatim>\<open>internal/circuit/circuit.go\<close>: breakers by name, at most \<open>MaxEntries\<close> of them. A
  \<open>*Breaker\<close> is a reference \<open>bref\<close> into the registry, so that two callers that got the same
  breaker see each other's writes. \<open>Get\<close> is given once as a whole and once as the four atomic
  accesses (\<open>Load\<close>, \<open>n.Load\<close>, \<open>LoadOrStore\<close>, \<open>n.Add\<close>) that goroutines interleave.
\<close>

subsection \<open>Data and operations\<close>

datatype bref = Named string | Overflow

record registry =
  rg_set :: settings
  rg_breakers :: "string \<rightharpoonup> breaker"
  rg_n :: int
  rg_overflow :: breaker

definition DefaultMaxEntries :: int where
  "DefaultMaxEntries = 1024"

definition OverflowName :: string where
  "OverflowName = ''__overflow__''"

definition NewRegistry :: "settings \<Rightarrow> go_time \<Rightarrow> registry" where
  "NewRegistry s now =
     (let s = (if s_MaxEntries s < 1 then s\<lparr>s_MaxEntries := DefaultMaxEntries\<rparr> else s)
      in \<lparr>rg_set = s, rg_breakers = Map.empty, rg_n = 0, rg_overflow = NewBreaker OverflowName s now\<rparr>)"

definition Registry_Get :: "registry \<Rightarrow> string \<Rightarrow> go_time \<Rightarrow> registry \<times> bref" where
  "Registry_Get r name now =
     (case rg_breakers r name of
        Some _ \<Rightarrow> (r, Named name)
      | None \<Rightarrow>
          (if rg_n r \<ge> s_MaxEntries (rg_set r) then (r, Overflow)
           else (r\<lparr>rg_breakers := (rg_breakers r)(name \<mapsto> NewBreaker name (rg_set r) now),
                   rg_n := rg_n r + 1\<rparr>, Named name)))"

text \<open>Reading and writing the breaker behind a reference.\<close>

fun breaker_at :: "registry \<Rightarrow> bref \<Rightarrow> breaker option" where
  "breaker_at r (Named name) = rg_breakers r name"
| "breaker_at r Overflow = Some (rg_overflow r)"

fun breaker_put :: "registry \<Rightarrow> bref \<Rightarrow> breaker \<Rightarrow> registry" where
  "breaker_put r (Named name) b = r\<lparr>rg_breakers := (rg_breakers r)(name \<mapsto> b)\<rparr>"
| "breaker_put r Overflow b = r\<lparr>rg_overflow := b\<rparr>"

definition registry_inv :: "registry \<Rightarrow> bool" where
  "registry_inv r =
     (1 \<le> s_MaxEntries (rg_set r) \<and> finite (dom (rg_breakers r)) \<and>
      (\<forall>name b. rg_breakers r name = Some b \<longrightarrow> breaker_inv b \<and> br_name b = name) \<and>
      breaker_inv (rg_overflow r) \<and> br_name (rg_overflow r) = OverflowName)"

definition registry_counted :: "registry \<Rightarrow> bool" where
  "registry_counted r = (registry_inv r \<and> rg_n r = int (card (dom (rg_breakers r))))"

subsection \<open>Goroutines inside Get\<close>

datatype get_pc =
    Idle
  | AtLoad string
  | AtCheck string
  | AtStore string
  | AtAdd string
  | Returned string bref

record get_system =
  gs_reg :: registry
  gs_threads :: "get_pc list"

definition goto :: "get_system \<Rightarrow> nat \<Rightarrow> get_pc \<Rightarrow> get_system" where
  "goto g i pc = g\<lparr>gs_threads := (gs_threads g)[i := pc]\<rparr>"

definition at_pc :: "get_system \<Rightarrow> nat \<Rightarrow> get_pc \<Rightarrow> bool" where
  "at_pc g i pc = (i < length (gs_threads g) \<and> gs_threads g ! i = pc)"

inductive get_step :: "get_system \<Rightarrow> get_system \<Rightarrow> bool" where
  call: "at_pc g i Idle \<Longrightarrow> get_step g (goto g i (AtLoad name))"
| again: "at_pc g i (Returned name ref) \<Longrightarrow> get_step g (goto g i Idle)"
| load_hit: "at_pc g i (AtLoad name) \<Longrightarrow> name \<in> dom (rg_breakers (gs_reg g)) \<Longrightarrow>
    get_step g (goto g i (Returned name (Named name)))"
| load_miss: "at_pc g i (AtLoad name) \<Longrightarrow> name \<notin> dom (rg_breakers (gs_reg g)) \<Longrightarrow>
    get_step g (goto g i (AtCheck name))"
| check_full: "at_pc g i (AtCheck name) \<Longrightarrow> rg_n (gs_reg g) \<ge> s_MaxEntries (rg_set (gs_reg g)) \<Longrightarrow>
    get_step g (goto g i (Returned name Overflow))"
| check_room: "at_pc g i (AtCheck name) \<Longrightarrow> rg_n (gs_reg g) < s_MaxEntries (rg_set (gs_reg g)) \<Longrightarrow>
    get_step g (goto g i (AtStore name))"
| store_lost: "at_pc g i (AtStore name) \<Longrightarrow> name \<in> dom (rg_breakers (gs_reg g)) \<Longrightarrow>
    get_step g (goto g i (Returned name (Named name)))"
| store_won: "at_pc g i (AtStore name) \<Longrightarrow> name \<notin> dom (rg_breakers (gs_reg g)) \<Longrightarrow> r = gs_reg g \<Longrightarrow>
    get_step g (goto (g\<lparr>gs_reg := r\<lparr>rg_breakers :=
      (rg_breakers r)(name \<mapsto> NewBreaker name (rg_set r) now)\<rparr>\<rparr>) i (AtAdd name))"
| add: "at_pc g i (AtAdd name) \<Longrightarrow> r = gs_reg g \<Longrightarrow>
    get_step g (goto (g\<lparr>gs_reg := r\<lparr>rg_n := rg_n r + 1\<rparr>\<rparr>) i (Returned name (Named name)))"
| use_breaker: "at_pc g i (Returned name ref) \<Longrightarrow> breaker_at (gs_reg g) ref = Some b \<Longrightarrow>
    get_step g (g\<lparr>gs_reg := breaker_put (gs_reg g) ref (fst (breaker_call c now b))\<rparr>)"

inductive get_reach :: "settings \<Rightarrow> nat \<Rightarrow> get_system \<Rightarrow> bool" for s k where
  init: "get_reach s k \<lparr>gs_reg = NewRegistry s t0, gs_threads = replicate k Idle\<rparr>"
| step: "get_reach s k g \<Longrightarrow> get_step g g' \<Longrightarrow> get_reach s k g'"

inductive_cases get_stepE: "get_step g g'"

text \<open>Goroutines between the capacity check and the end of the call.\<close>

fun adding :: "get_pc \<Rightarrow> bool" where
  "adding (AtAdd _) = True"
| "adding _ = False"

fun past_check :: "get_pc \<Rightarrow> bool" where
  "past_check (AtStore _) = True"
| "past_check (AtAdd _) = True"
| "past_check _ = False"

fun sound_return :: "registry \<Rightarrow> get_pc \<Rightarrow> bool" where
  "sound_return r (Returned name (Named m)) = (m = name \<and> name \<in> dom (rg_breakers r))"
| "sound_return r (AtAdd name) = (name \<in> dom (rg_breakers r))"
| "sound_return r _ = True"

definition pcs :: "('a \<Rightarrow> bool) \<Rightarrow> 'a list \<Rightarrow> int" where
  "pcs P ts = (\<Sum>pc\<leftarrow>ts. of_bool (P pc))"

definition get_inv :: "settings \<Rightarrow> nat \<Rightarrow> get_system \<Rightarrow> bool" where
  "get_inv s k g =
     (let r = gs_reg g; ts = gs_threads g
      in registry_inv r \<and> length ts = k \<and> rg_set r = rg_set (NewRegistry s 0) \<and>
         int (card (dom (rg_breakers r))) = rg_n r + pcs adding ts \<and>
         rg_n r + pcs past_check ts \<le> s_MaxEntries (rg_set r) + max 0 (int k - 1) \<and>
         list_all (sound_return r) ts)"

lemma pcs_update:
  "i < length ts \<Longrightarrow> pcs P (ts[i := x]) = pcs P ts - of_bool (P (ts ! i)) + of_bool (P x)"
  by (simp add: pcs_def sum_list_map_update)

lemma pcs_le: "pcs P ts \<le> int (length ts)"
  by (induction ts) (auto simp: pcs_def)

lemma pcs_less: "i < length ts \<Longrightarrow> \<not> P (ts ! i) \<Longrightarrow> pcs P ts \<le> int (length ts) - 1"
  using pcs_le [of P "take i ts"] pcs_le [of P "drop (Suc i) ts"]
  by (subst id_take_nth_drop [of i ts]) (simp_all add: pcs_def)

lemma pcs_replicate [simp]: "\<not> P x \<Longrightarrow> pcs P (replicate k x) = 0"
  by (induction k) (simp_all add: pcs_def)

lemma sound_return_mono:
  "list_all (sound_return r) ts \<Longrightarrow> dom (rg_breakers r) \<subseteq> dom (rg_breakers r') \<Longrightarrow> list_all (sound_return r') ts"
proof (rule list.pred_mono_strong, assumption)
  fix pc assume "dom (rg_breakers r) \<subseteq> dom (rg_breakers r')" "sound_return r pc"
  then show "sound_return r' pc" by (induction r pc rule: sound_return.induct) auto
qed

lemma breaker_put_dom:
  "breaker_at r ref = Some b \<Longrightarrow> dom (rg_breakers (breaker_put r ref b')) = dom (rg_breakers r)"
  by (cases ref) auto

lemma breaker_put_frame [simp]:
  "rg_set (breaker_put r ref b) = rg_set r" "rg_n (breaker_put r ref b) = rg_n r"
  by (cases ref; simp)+

lemma breaker_put_inv:
  "registry_inv r \<Longrightarrow> breaker_at r ref = Some b \<Longrightarrow> breaker_inv b' \<Longrightarrow> br_name b' = br_name b \<Longrightarrow>
   registry_inv (breaker_put r ref b')"
  by (cases ref) (auto simp: registry_inv_def)

lemma breaker_at_inv: "registry_inv r \<Longrightarrow> breaker_at r ref = Some b \<Longrightarrow> breaker_inv b"
  by (cases ref) (auto simp: registry_inv_def)

lemma registry_insert_inv:
  "registry_inv r \<Longrightarrow> registry_inv (r\<lparr>rg_breakers := (rg_breakers r)(name \<mapsto> NewBreaker name (rg_set r) now)\<rparr>)"
  using NewBreaker_inv [of name "rg_set r" now]
  by (auto simp: registry_inv_def NewBreaker_def Let_def)

lemma registry_inv_n [simp]: "registry_inv (r\<lparr>rg_n := k\<rparr>) = registry_inv r"
  by (simp add: registry_inv_def)

lemma sound_return_n [simp]: "sound_return (r\<lparr>rg_n := k\<rparr>) = sound_return r"
proof
  fix pc show "sound_return (r\<lparr>rg_n := k\<rparr>) pc = sound_return r pc"
    by (induction r pc rule: sound_return.induct) simp_all
qed

text \<open>A move of one goroutine that leaves the registry alone.\<close>

lemma get_inv_goto:
  assumes "get_inv s k g" "at_pc g i pc" "sound_return (gs_reg g) pc'"
    and "adding pc' = adding pc" "past_check pc' \<longrightarrow> past_check pc"
  shows "get_inv s k (goto g i pc')"
  using assms
  by (auto simp: get_inv_def goto_def at_pc_def Let_def pcs_update list_all_update)

lemma get_inv_enter:
  assumes "get_inv s k g" "at_pc g i (AtCheck name)"
    and "rg_n (gs_reg g) < s_MaxEntries (rg_set (gs_reg g))"
  shows "get_inv s k (goto g i (AtStore name))"
proof -
  have i: "i < length (gs_threads g)" "gs_threads g ! i = AtCheck name"
    using assms(2) by (simp_all add: at_pc_def)
  have "pcs past_check (gs_threads g) \<le> int k - 1"
    using pcs_less [OF i(1), of past_check] i(2) assms(1) by (simp add: get_inv_def Let_def)
  then show ?thesis using assms(1,3) i
    by (auto simp: get_inv_def goto_def Let_def pcs_update list_all_update)
qed

lemma get_inv_insert:
  assumes "get_inv s k g" "at_pc g i (AtStore name)" "name \<notin> dom (rg_breakers (gs_reg g))"
    and r: "r = (gs_reg g)\<lparr>rg_breakers := (rg_breakers (gs_reg g))
      (name \<mapsto> NewBreaker name (rg_set (gs_reg g)) now)\<rparr>"
  shows "get_inv s k (goto (g\<lparr>gs_reg := r\<rparr>) i (AtAdd name))"
proof -
  have i: "i < length (gs_threads g)" "gs_threads g ! i = AtStore name"
    using assms(2) by (simp_all add: at_pc_def)
  have "list_all (sound_return r) (gs_threads g)"
    by (rule sound_return_mono [of "gs_reg g"]) (use assms in \<open>auto simp: get_inv_def Let_def\<close>)
  then have "list_all (sound_return r) ((gs_threads g)[i := AtAdd name])"
    by (rule list_all_update) (simp add: r)
  moreover have "registry_inv r"
    unfolding r by (rule registry_insert_inv) (use assms(1) in \<open>simp add: get_inv_def Let_def\<close>)
  moreover have "finite (dom (rg_breakers (gs_reg g)))"
    using assms(1) by (simp add: get_inv_def Let_def registry_inv_def)
  then have "card (dom (rg_breakers r)) = Suc (card (dom (rg_breakers (gs_reg g))))"
    using assms(3) by (simp add: r)
  ultimately show ?thesis using assms(1) i
    by (auto simp: get_inv_def goto_def Let_def pcs_update r)
qed

lemma get_inv_use:
  assumes "get_inv s k g" "breaker_at (gs_reg g) ref = Some b"
  shows "get_inv s k (g\<lparr>gs_reg := breaker_put (gs_reg g) ref (fst (breaker_call c now b))\<rparr>)"
proof -
  let ?r = "breaker_put (gs_reg g) ref (fst (breaker_call c now b))"
  have reg: "registry_inv (gs_reg g)" using assms(1) by (simp add: get_inv_def Let_def)
  have "registry_inv ?r"
    using assms(2) breaker_call_inv [OF breaker_at_inv [OF reg assms(2)]]
    by (intro breaker_put_inv [OF reg assms(2)]) (simp_all add: breaker_call_frame)
  moreover have "list_all (sound_return ?r) (gs_threads g)"
    by (rule sound_return_mono [of "gs_reg g"])
      (use assms in \<open>simp_all add: get_inv_def Let_def breaker_put_dom\<close>)
  ultimately show ?thesis using assms by (auto simp: get_inv_def Let_def breaker_put_dom)
qed

lemma get_step_inv: "get_step g g' \<Longrightarrow> get_inv s k g \<Longrightarrow> get_inv s k g'"
proof (induction rule: get_step.induct)
  case (add g i name r)
  then have i: "i < length (gs_threads g)" "gs_threads g ! i = AtAdd name"
    by (simp_all add: at_pc_def)
  moreover have "sound_return r (AtAdd name)"
    using add i by (auto simp: get_inv_def Let_def list_all_length)
  ultimately show ?case using add
    by (auto simp: get_inv_def goto_def Let_def pcs_update list_all_update)
next
  case (load_hit g i name)
  then show ?case by (intro get_inv_goto) auto
next
  case (store_lost g i name)
  then show ?case by (intro get_inv_goto) auto
qed (auto intro: get_inv_goto get_inv_enter get_inv_insert get_inv_use)

lemma NewRegistry_inv: "registry_inv (NewRegistry s t0)"
  using NewBreaker_inv
  by (auto simp: registry_inv_def NewRegistry_def Let_def DefaultMaxEntries_def) (simp_all add: NewBreaker_def Let_def)

lemma get_reach_inv: "get_reach s k g \<Longrightarrow> get_inv s k g"
proof (induction rule: get_reach.induct)
  case (init t0)
  have "1 \<le> s_MaxEntries (rg_set (NewRegistry s t0))" using NewRegistry_inv by (simp add: registry_inv_def)
  moreover have "rg_set (NewRegistry s t0) = rg_set (NewRegistry s 0)" "rg_n (NewRegistry s t0) = 0"
    "rg_breakers (NewRegistry s t0) = Map.empty" by (simp_all add: NewRegistry_def Let_def)
  ultimately show ?case using NewRegistry_inv by (simp add: get_inv_def Let_def list_all_length)
qed (rule get_step_inv)

subsection \<open>The registry as a capped table\<close>

definition registry_keys :: "registry \<Rightarrow> string set" where
  "registry_keys r = dom (rg_breakers r)"

definition registry_cap :: "registry \<Rightarrow> int" where
  "registry_cap r = s_MaxEntries (rg_set r)"

lemma Registry_Get_set: "rg_set (fst (Registry_Get r name now)) = rg_set r"
  by (simp add: Registry_Get_def split: option.split)

lemma Registry_Get_counted: "registry_counted r \<Longrightarrow> registry_counted (fst (Registry_Get r name now))"
proof (cases "rg_breakers r name = None \<and> rg_n r < s_MaxEntries (rg_set r)")
  case True
  assume c: "registry_counted r"
  then have "finite (dom (rg_breakers r))" "name \<notin> dom (rg_breakers r)"
    using True by (auto simp: registry_counted_def registry_inv_def)
  moreover have "registry_inv (r\<lparr>rg_breakers := (rg_breakers r)(name \<mapsto> NewBreaker name (rg_set r) now)\<rparr>)"
    using c by (intro registry_insert_inv) (simp add: registry_counted_def)
  ultimately show ?thesis using c True
    by (simp add: Registry_Get_def registry_counted_def)
next
  case False
  then have "fst (Registry_Get r name now) = r" by (auto simp: Registry_Get_def split: option.split)
  then show "registry_counted r \<Longrightarrow> ?thesis" by simp
qed

interpretation reg: capped_table registry_keys registry_cap Registry_Get Named Overflow registry_counted
proof
  fix r k e
  show "registry_cap (fst (Registry_Get r k e)) = registry_cap r"
    by (simp add: registry_cap_def Registry_Get_set)
  assume r: "registry_counted r"
  show "registry_counted (fst (Registry_Get r k e))" by (rule Registry_Get_counted [OF r])
  show "finite (registry_keys r)" using r by (simp add: registry_keys_def registry_counted_def registry_inv_def)
  show "k \<in> registry_keys r \<Longrightarrow> Registry_Get r k e = (r, Named k)"
    by (auto simp: registry_keys_def Registry_Get_def)
  show "Registry_Get r k e = (r, Overflow)"
    if "k \<notin> registry_keys r" "registry_cap r \<le> int (card (registry_keys r))"
  proof -
    have "rg_breakers r k = None" using that(1) by (auto simp: registry_keys_def)
    then show ?thesis using that(2) r
      by (simp add: registry_keys_def registry_cap_def registry_counted_def Registry_Get_def)
  qed
  show "registry_keys (fst (Registry_Get r k e)) = insert k (registry_keys r) \<and> snd (Registry_Get r k e) = Named k"
    if "k \<notin> registry_keys r" "int (card (registry_keys r)) < registry_cap r"
  proof -
    have "rg_breakers r k = None" using that(1) by (auto simp: registry_keys_def)
    then show ?thesis using that(2) r
      by (simp add: registry_keys_def registry_cap_def registry_counted_def Registry_Get_def)
  qed
qed

lemma NewRegistry_counted: "registry_counted (NewRegistry s t0)"
  using NewRegistry_inv by (simp add: registry_counted_def) (simp add: NewRegistry_def Let_def)

lemma NewRegistry_cap:
  "registry_cap (NewRegistry s t0) = (if s_MaxEntries s < 1 then 1024 else s_MaxEntries s)"
  by (simp add: registry_cap_def NewRegistry_def Let_def DefaultMaxEntries_def)

lemma NewRegistry_keys [simp]: "registry_keys (NewRegistry s t0) = {}"
  by (simp add: registry_keys_def NewRegistry_def Let_def)

definition sample_reg_system :: get_system where
  "sample_reg_system = \<lparr>gs_reg = NewRegistry sample_settings 0, gs_threads = replicate 3 Idle\<rparr>"

lemma sample_reg_reach: "get_reach sample_settings 3 sample_reg_system"
  unfolding sample_reg_system_def by (rule get_reach.init)

definition Gets :: "registry \<Rightarrow> (string \<times> go_time) list \<Rightarrow> registry" where
  "Gets r xs = foldl (\<lambda>r x. fst (Registry_Get r (fst x) (snd x))) r xs"

lemma Gets_lookups: "Gets r xs = reg.lookups r xs"
  by (simp add: Gets_def reg.lookups_def)

subsection \<open>Claims\<close>

text \<open>
  C12: with \<open>k\<close> goroutines inside \<open>Get\<close> at once, interleaved in any way and using the breakers they
  got, the registry never holds more than \<open>MaxEntries + k - 1\<close> named breakers (the documented
  approximate cap), and every reference that \<open>Get\<close> returned is either the overflow breaker or
  the one breaker that carries the requested name.
\<close>

theorem registry_cap_under_races:
  assumes "get_reach s k g" and "0 < k"
  shows "int (card (dom (rg_breakers (gs_reg g)))) \<le>
      (if s_MaxEntries s < 1 then 1024 else s_MaxEntries s) + int k - 1 \<and>
    (\<forall>name ref. Returned name ref \<in> set (gs_threads g) \<longrightarrow>
       ref = Overflow \<or> (ref = Named name \<and>
         (\<exists>b. breaker_at (gs_reg g) ref = Some b \<and> br_name b = name \<and> breaker_inv b)))"
proof -
  have i: "get_inv s k g" by (rule get_reach_inv [OF assms(1)])
  have card: "int (card (dom (rg_breakers (gs_reg g)))) = rg_n (gs_reg g) + pcs adding (gs_threads g)"
    and bound: "rg_n (gs_reg g) + pcs past_check (gs_threads g) \<le> s_MaxEntries (rg_set (gs_reg g)) + max 0 (int k - 1)"
    using i by (auto simp: get_inv_def Let_def)
  have le: "pcs adding ts \<le> pcs past_check ts" for ts
  proof (induction ts)
    case (Cons pc ts) then show ?case by (cases pc) (simp_all add: pcs_def)
  qed (simp add: pcs_def)
  have "s_MaxEntries (rg_set (gs_reg g)) = (if s_MaxEntries s < 1 then 1024 else s_MaxEntries s)"
    using i NewRegistry_cap [of s 0] by (simp add: get_inv_def Let_def registry_cap_def)
  then have "int (card (dom (rg_breakers (gs_reg g)))) \<le>
      (if s_MaxEntries s < 1 then 1024 else s_MaxEntries s) + int k - 1"
    using card bound le [of "gs_threads g"] assms(2) by simp
  moreover have "ref = Overflow \<or> (ref = Named name \<and>
      (\<exists>b. breaker_at (gs_reg g) ref = Some b \<and> br_name b = name \<and> breaker_inv b))"
    if "Returned name ref \<in> set (gs_threads g)" for name ref
  proof -
    have "sound_return (gs_reg g) (Returned name ref)" "registry_inv (gs_reg g)"
      using i that by (auto simp: get_inv_def Let_def list_all_iff)
    then show ?thesis by (cases ref) (auto simp: registry_inv_def)
  qed
  ultimately show ?thesis by blast
qed

theorem registry_cap_under_races_witness:
  "int (card (dom (rg_breakers (gs_reg sample_reg_system)))) \<le> 6"
  using registry_cap_under_races [OF sample_reg_reach] by (simp add: sample_settings_def)

text \<open>
  \<open>Get\<close> is stable and isolating. Up to \<open>MaxEntries\<close> distinct names each get a breaker of their
  own; once a name has its own breaker every later \<open>Get\<close> returns that same breaker, whatever
  other names are looked up in between; and a call on one breaker leaves every other unchanged.
\<close>

theorem registry_isolates_names:
  "(int (card (fst ` set xs)) \<le> (if s_MaxEntries s < 1 then 1024 else s_MaxEntries s) \<longrightarrow>
      dom (rg_breakers (Gets (NewRegistry s t0) xs)) = fst ` set xs) \<and>
   (snd (Registry_Get (Gets (NewRegistry s t0) xs) name t) = Named name \<longrightarrow>
      snd (Registry_Get (Gets (fst (Registry_Get (Gets (NewRegistry s t0) xs) name t)) ys) name u) = Named name) \<and>
   (ref' \<noteq> ref \<longrightarrow> breaker_at (breaker_put r ref b) ref' = breaker_at r ref')"
proof -
  have "dom (rg_breakers (Gets (NewRegistry s t0) xs)) = fst ` set xs"
    if "int (card (fst ` set xs)) \<le> (if s_MaxEntries s < 1 then 1024 else s_MaxEntries s)"
    using reg.keys_of_lookups [OF NewRegistry_counted, of s t0 xs] that
    by (simp add: Gets_lookups registry_keys_def [symmetric] NewRegistry_cap)
  moreover have "snd (Registry_Get (Gets (fst (Registry_Get (Gets (NewRegistry s t0) xs) name t)) ys) name u) = Named name"
    if "snd (Registry_Get (Gets (NewRegistry s t0) xs) name t) = Named name"
    using reg.own_is_stable [OF reg.lookups_ok [OF NewRegistry_counted]] that by (simp add: Gets_lookups)
  moreover have "breaker_at (breaker_put r ref b) ref' = breaker_at r ref'" if "ref' \<noteq> ref"
    using that by (cases ref; cases ref') auto
  ultimately show ?thesis by blast
qed

theorem registry_isolates_names_witness:
  "snd (Registry_Get (Gets (fst (Registry_Get (Gets (NewRegistry sample_settings 0) []) ''a'' 0)) [(''b'', 1)]) ''a'' 2)
     = Named ''a''"
proof -
  have "snd (Registry_Get (Gets (NewRegistry sample_settings 0) []) ''a'' 0) = Named ''a''"
    by (simp add: Gets_def Registry_Get_def NewRegistry_def sample_settings_def Let_def)
  then show ?thesis
    using registry_isolates_names [of "[]" sample_settings 0 "''a''" 0 "[(''b'', 1)]" 2] by blast
qed

end
