(* ===== verification/Config.thy ===== *)
theory Config
  imports Go_Strings
begin

text \<open>
  \<^verbatim>\<open>internal/config/config.go\<close>: the configuration tree, its defaults, the environment layer, the
  derived defaults, validation and the shadow tree that the YAML decoder fills. The decoder
  (\<^verbatim>\<open>yaml.v3\<close>) and the file system are parameters of \<open>Load\<close>. An error is a value of \<open>cfg_error\<close> that
  says which check failed and carries the arguments of the message.
\<close>

subsection \<open>Data\<close>

record cfg_backend =
  cb_ID :: string
  cb_Addr :: string
  cb_Weight :: int

record cfg_routing =
  rt_HashHeader :: string
  rt_VirtualNodes :: int
  rt_MaxAttempts :: int
  rt_RetryPolicy :: string

record cfg_health =
  hc_Interval :: duration
  hc_Timeout :: duration
  hc_Rise :: int
  hc_Fall :: int
  hc_Service :: string

record cfg_ratelimit =
  rl_Enabled :: bool
  rl_RPS :: f64
  rl_Burst :: int
  rl_PerClient :: bool
  rl_PerClientRPS :: f64
  rl_PerClientBurst :: int

record cfg_circuit =
  cc_Enabled :: bool
  cc_Window :: duration
  cc_Buckets :: int
  cc_MinRequests :: int
  cc_FailureRatio :: f64
  cc_OpenTimeout :: duration
  cc_HalfOpenMax :: int

record cfg_logging =
  lg_Level :: string
  lg_Format :: string
  lg_SampleRate :: f64

record cfg_proxy =
  px_MaxRecvMsgSize :: int
  px_MaxSendMsgSize :: int
  px_ShutdownGrace :: duration

record config =
  c_Listen :: string
  c_AdminListen :: string
  c_Backends :: "cfg_backend list"
  c_Routing :: cfg_routing
  c_Health :: cfg_health
  c_RateLimit :: cfg_ratelimit
  c_CircuitBreaker :: cfg_circuit
  c_Logging :: cfg_logging
  c_Proxy :: cfg_proxy

text \<open>The field a check is about, as the messages name it, and the offending value.\<close>

datatype cfg_error =
    Empty_Field string
  | No_Backends
  | Backend_Empty nat string
  | Backend_Dup nat string string nat
  | Backend_Weight nat int
  | Bad_Int string int
  | Bad_Float string f64
  | Bad_Name string string
  | Entry_Empty nat string string
  | Bad_Duration string string

datatype env_error =
    Env_No_Lookup
  | Env_Bad_Backends string "cfg_error list"
  | Env_Not_Number string
  | Env_Not_Integer string

datatype load_error =
    Load_No_Path
  | Load_Open string
  | Load_Decode string
  | Load_Parse "cfg_error list"
  | Load_Env "env_error list"
  | Load_Invalid "cfg_error list"

definition RetryConnectFailure :: string where "RetryConnectFailure = ''connect-failure''"
definition RetryUnavailable :: string where "RetryUnavailable = ''unavailable''"
definition RetryNone :: string where "RetryNone = ''none''"
definition DefaultWeight :: int where "DefaultWeight = 100"

definition EnvListen :: string where "EnvListen = ''LB_LISTEN''"
definition EnvAdminListen :: string where "EnvAdminListen = ''LB_ADMIN_LISTEN''"
definition EnvBackends :: string where "EnvBackends = ''LB_BACKENDS''"
definition EnvLogLevel :: string where "EnvLogLevel = ''LB_LOG_LEVEL''"
definition EnvRateLimitRPS :: string where "EnvRateLimitRPS = ''LB_RATE_LIMIT_RPS''"
definition EnvHashHeader :: string where "EnvHashHeader = ''LB_HASH_HEADER''"
definition EnvMaxAttempts :: string where "EnvMaxAttempts = ''LB_MAX_ATTEMPTS''"

subsection \<open>Defaults\<close>

definition Default :: config where
  "Default = \<lparr>
     c_Listen = '':8080'', c_AdminListen = '':9090'', c_Backends = [],
     c_Routing = \<lparr>rt_HashHeader = ''x-session-id'', rt_VirtualNodes = 200, rt_MaxAttempts = 3,
       rt_RetryPolicy = RetryConnectFailure\<rparr>,
     c_Health = \<lparr>hc_Interval = second, hc_Timeout = 500 * millisecond, hc_Rise = 2, hc_Fall = 3, hc_Service = []\<rparr>,
     c_RateLimit = \<lparr>rl_Enabled = False, rl_RPS = Fin 50000, rl_Burst = 100000, rl_PerClient = False,
       rl_PerClientRPS = Fin 5000, rl_PerClientBurst = 10000\<rparr>,
     c_CircuitBreaker = \<lparr>cc_Enabled = False, cc_Window = 10 * second, cc_Buckets = 10, cc_MinRequests = 20,
       cc_FailureRatio = Fin (1 / 2), cc_OpenTimeout = 5 * second, cc_HalfOpenMax = 5\<rparr>,
     c_Logging = \<lparr>lg_Level = ''info'', lg_Format = ''json'', lg_SampleRate = Fin 1\<rparr>,
     c_Proxy = \<lparr>px_MaxRecvMsgSize = 16 * 2 ^ 20, px_MaxSendMsgSize = 16 * 2 ^ 20,
       px_ShutdownGrace = 10 * second\<rparr>\<rparr>"

definition burstFor :: "f64 \<Rightarrow> int" where
  "burstFor rps =
     (let v = f64_ceil (f64_mul (Fin 2) rps)
      in if f64_isNaN v \<or> f64_lt v (Fin 1) then 1
         else if f64_lt (Fin (2 ^ 31 - 1)) v then 2 ^ 31 - 1
         else f64_toInt (\<lambda>_. 0) v)"

definition derived_backend :: "cfg_backend \<Rightarrow> cfg_backend" where
  "derived_backend b =
     (let b = b\<lparr>cb_ID := TrimSpace (cb_ID b)\<rparr>;
          b = b\<lparr>cb_Addr := TrimSpace (cb_Addr b)\<rparr>
      in if cb_Weight b = 0 then b\<lparr>cb_Weight := DefaultWeight\<rparr> else b)"

definition applyDerivedDefaults :: "config \<Rightarrow> config" where
  "applyDerivedDefaults c =
     (let c = c\<lparr>c_Backends := map derived_backend (c_Backends c)\<rparr>;
          r = c_RateLimit c;
          r = (if rl_Burst r = 0 then r\<lparr>rl_Burst := burstFor (rl_RPS r)\<rparr> else r);
          r = (if rl_PerClientBurst r = 0 then r\<lparr>rl_PerClientBurst := burstFor (rl_PerClientRPS r)\<rparr> else r)
      in c\<lparr>c_RateLimit := r\<rparr>)"

subsection \<open>The environment layer\<close>

definition envValue :: "(string \<Rightarrow> string option) \<Rightarrow> string \<Rightarrow> string option" where
  "envValue lookup key =
     (case lookup key of
        None \<Rightarrow> None
      | Some v \<Rightarrow> (let v = TrimSpace v in if v = [] then None else Some v))"

text \<open>One entry of \<open>LB_BACKENDS\<close>: nothing for a blank field, otherwise a backend or an error.\<close>

definition parse_entry :: "nat \<Rightarrow> string \<Rightarrow> (cfg_error + cfg_backend) option" where
  "parse_entry i f0 =
     (let f = TrimSpace f0
      in if f = [] then None
         else let (ident, addr, hasID) = cut_at (CHR ''='') f;
                  ident = TrimSpace ident; addr = TrimSpace addr;
                  (ident, addr) = (if \<not> hasID then (''backend-'' @ itoa (int i + 1), ident) else (ident, addr))
              in if ident = [] then Some (Inl (Entry_Empty (i + 1) ''id'' f))
                 else if addr = [] then Some (Inl (Entry_Empty (i + 1) ''addr'' f))
                 else Some (Inr \<lparr>cb_ID = ident, cb_Addr = addr, cb_Weight = DefaultWeight\<rparr>))"

fun parse_entries :: "nat \<Rightarrow> string list \<Rightarrow> cfg_error list \<times> cfg_backend list" where
  "parse_entries i [] = ([], [])"
| "parse_entries i (f # fs) =
     (let (errs, bs) = parse_entries (i + 1) fs
      in case parse_entry i f of
           None \<Rightarrow> (errs, bs)
         | Some (Inl e) \<Rightarrow> (e # errs, bs)
         | Some (Inr b) \<Rightarrow> (errs, b # bs))"

definition ParseBackends :: "string \<Rightarrow> cfg_error list + cfg_backend list" where
  "ParseBackends s =
     (let (errs, bs) = parse_entries 0 (split_on (CHR '','') s)
      in if errs \<noteq> [] then Inl errs else Inr bs)"

text \<open>An override that cannot fail, and one that reports an error and then leaves the value alone.\<close>

definition env_set ::
  "(string \<Rightarrow> string option) \<Rightarrow> string \<Rightarrow> (string \<Rightarrow> config \<Rightarrow> config) \<Rightarrow> config \<Rightarrow> config" where
  "env_set lookup key f c = (case envValue lookup key of Some v \<Rightarrow> f v c | None \<Rightarrow> c)"

definition env_try ::
  "(string \<Rightarrow> string option) \<Rightarrow> string \<Rightarrow> (string \<Rightarrow> config \<Rightarrow> env_error + config) \<Rightarrow>
   config \<times> env_error list \<Rightarrow> config \<times> env_error list" where
  "env_try lookup key f x =
     (let (c, errs) = x
      in case envValue lookup key of
           None \<Rightarrow> (c, errs)
         | Some v \<Rightarrow> (case f v c of Inl e \<Rightarrow> (c, errs @ [e]) | Inr c' \<Rightarrow> (c', errs)))"

definition env_backends :: "string \<Rightarrow> config \<Rightarrow> env_error + config" where
  "env_backends v c =
     (case ParseBackends v of Inl es \<Rightarrow> Inl (Env_Bad_Backends v es) | Inr bs \<Rightarrow> Inr (c\<lparr>c_Backends := bs\<rparr>))"

definition env_rps :: "string \<Rightarrow> config \<Rightarrow> env_error + config" where
  "env_rps v c =
     (case ParseFloat v of
        None \<Rightarrow> Inl (Env_Not_Number v)
      | Some rps \<Rightarrow> Inr (c\<lparr>c_RateLimit := (c_RateLimit c)\<lparr>rl_RPS := rps\<rparr>\<rparr>))"

definition env_attempts :: "string \<Rightarrow> config \<Rightarrow> env_error + config" where
  "env_attempts v c =
     (case Atoi v of
        None \<Rightarrow> Inl (Env_Not_Integer v)
      | Some n \<Rightarrow> Inr (c\<lparr>c_Routing := (c_Routing c)\<lparr>rt_MaxAttempts := n\<rparr>\<rparr>))"

definition ApplyEnv :: "(string \<Rightarrow> string option) option \<Rightarrow> config \<Rightarrow> config \<times> env_error list" where
  "ApplyEnv lookup0 c =
     (case lookup0 of
        None \<Rightarrow> (c, [Env_No_Lookup])
      | Some lookup \<Rightarrow>
          (let c = env_set lookup EnvListen (\<lambda>v c. c\<lparr>c_Listen := v\<rparr>) c;
               c = env_set lookup EnvAdminListen (\<lambda>v c. c\<lparr>c_AdminListen := v\<rparr>) c;
               c = env_set lookup EnvHashHeader (\<lambda>v c. c\<lparr>c_Routing := (c_Routing c)\<lparr>rt_HashHeader := v\<rparr>\<rparr>) c;
               c = env_set lookup EnvLogLevel (\<lambda>v c. c\<lparr>c_Logging := (c_Logging c)\<lparr>lg_Level := ToLower v\<rparr>\<rparr>) c;
               x = env_try lookup EnvBackends env_backends (c, []);
               x = env_try lookup EnvRateLimitRPS env_rps x;
               x = env_try lookup EnvMaxAttempts env_attempts x
           in x))"

subsection \<open>Validation\<close>

abbreviation check_that :: "bool \<Rightarrow> cfg_error \<Rightarrow> cfg_error list" where
  "check_that ok e \<equiv> (if ok then [] else [e])"

text \<open>The loop over the backends, with the maps \<open>ids\<close> and \<open>addrs\<close> of the positions seen first.\<close>

fun validate_backends ::
  "nat \<Rightarrow> (string \<rightharpoonup> nat) \<Rightarrow> (string \<rightharpoonup> nat) \<Rightarrow> cfg_backend list \<Rightarrow> cfg_error list" where
  "validate_backends i ids addrs [] = []"
| "validate_backends i ids addrs (b # bs) =
     (let (e1, ids) =
            (if cb_ID b = [] then ([Backend_Empty i ''id''], ids)
             else case ids (cb_ID b) of
                    Some first \<Rightarrow> ([Backend_Dup i ''id'' (cb_ID b) first], ids)
                  | None \<Rightarrow> ([], ids(cb_ID b \<mapsto> i)));
          (e2, addrs) =
            (if cb_Addr b = [] then ([Backend_Empty i ''addr''], addrs)
             else case addrs (cb_Addr b) of
                    Some first \<Rightarrow> ([Backend_Dup i ''addr'' (cb_Addr b) first], addrs)
                  | None \<Rightarrow> ([], addrs(cb_Addr b \<mapsto> i)));
          e3 = (if cb_Weight b \<le> 0 then [Backend_Weight i (cb_Weight b)] else [])
      in e1 @ e2 @ e3 @ validate_backends (i + 1) ids addrs bs)"

definition validate_ratelimit :: "cfg_ratelimit \<Rightarrow> cfg_error list" where
  "validate_ratelimit r =
     (if rl_Enabled r
      then check_that (f64_lt (Fin 0) (rl_RPS r)) (Bad_Float ''rate_limit.rps'' (rl_RPS r)) @
           check_that (rl_Burst r \<ge> 1) (Bad_Int ''rate_limit.burst'' (rl_Burst r)) @
           (if rl_PerClient r
            then check_that (f64_lt (Fin 0) (rl_PerClientRPS r)) (Bad_Float ''rate_limit.per_client_rps'' (rl_PerClientRPS r)) @
                 check_that (rl_PerClientBurst r \<ge> 1) (Bad_Int ''rate_limit.per_client_burst'' (rl_PerClientBurst r))
            else [])
      else [])"

definition validate_circuit :: "cfg_circuit \<Rightarrow> cfg_error list" where
  "validate_circuit k =
     check_that (cc_Window k > 0) (Bad_Int ''circuit_breaker.window'' (cc_Window k)) @
     check_that (cc_Buckets k \<ge> 1) (Bad_Int ''circuit_breaker.buckets'' (cc_Buckets k)) @
     check_that (cc_MinRequests k \<ge> 1) (Bad_Int ''circuit_breaker.min_requests'' (cc_MinRequests k)) @
     check_that (f64_lt (Fin 0) (cc_FailureRatio k) \<and> f64_le (cc_FailureRatio k) (Fin 1))
       (Bad_Float ''circuit_breaker.failure_ratio'' (cc_FailureRatio k)) @
     check_that (cc_OpenTimeout k > 0) (Bad_Int ''circuit_breaker.open_timeout'' (cc_OpenTimeout k)) @
     check_that (cc_HalfOpenMax k \<ge> 1) (Bad_Int ''circuit_breaker.half_open_max'' (cc_HalfOpenMax k))"

definition validate_logging :: "cfg_logging \<Rightarrow> cfg_error list" where
  "validate_logging l =
     check_that (ToLower (lg_Level l) \<in> {''debug'', ''info'', ''warn'', ''error''}) (Bad_Name ''logging.level'' (lg_Level l)) @
     check_that (ToLower (lg_Format l) \<in> {''json'', ''text''}) (Bad_Name ''logging.format'' (lg_Format l)) @
     (if f64_lt (lg_SampleRate l) (Fin 0) \<or> f64_lt (Fin 1) (lg_SampleRate l)
      then [Bad_Float ''logging.sample_rate'' (lg_SampleRate l)] else [])"

definition Validate :: "config \<Rightarrow> cfg_error list" where
  "Validate c =
     check_that (TrimSpace (c_Listen c) \<noteq> []) (Empty_Field ''listen'') @
     check_that (TrimSpace (c_AdminListen c) \<noteq> []) (Empty_Field ''admin_listen'') @
     check_that (c_Backends c \<noteq> []) No_Backends @
     validate_backends 0 Map.empty Map.empty (c_Backends c) @
     check_that (rt_RetryPolicy (c_Routing c) \<in> {RetryConnectFailure, RetryUnavailable, RetryNone})
       (Bad_Name ''routing.retry_policy'' (rt_RetryPolicy (c_Routing c))) @
     check_that (rt_VirtualNodes (c_Routing c) > 0) (Bad_Int ''routing.virtual_nodes'' (rt_VirtualNodes (c_Routing c))) @
     check_that (rt_MaxAttempts (c_Routing c) \<ge> 1) (Bad_Int ''routing.max_attempts'' (rt_MaxAttempts (c_Routing c))) @
     check_that (hc_Interval (c_Health c) > 0) (Bad_Int ''health.interval'' (hc_Interval (c_Health c))) @
     check_that (hc_Timeout (c_Health c) > 0) (Bad_Int ''health.timeout'' (hc_Timeout (c_Health c))) @
     check_that (hc_Rise (c_Health c) \<ge> 1) (Bad_Int ''health.rise'' (hc_Rise (c_Health c))) @
     check_that (hc_Fall (c_Health c) \<ge> 1) (Bad_Int ''health.fall'' (hc_Fall (c_Health c))) @
     validate_ratelimit (c_RateLimit c) @
     validate_circuit (c_CircuitBreaker c) @
     validate_logging (c_Logging c) @
     check_that (px_MaxRecvMsgSize (c_Proxy c) > 0) (Bad_Int ''proxy.max_recv_msg_size'' (px_MaxRecvMsgSize (c_Proxy c))) @
     check_that (px_MaxSendMsgSize (c_Proxy c) > 0) (Bad_Int ''proxy.max_send_msg_size'' (px_MaxSendMsgSize (c_Proxy c))) @
     check_that (px_ShutdownGrace (c_Proxy c) > 0) (Bad_Int ''proxy.shutdown_grace'' (px_ShutdownGrace (c_Proxy c)))"

datatype slog_level = LevelDebug | LevelInfo | LevelWarn | LevelError

definition SlogLevel :: "cfg_logging \<Rightarrow> slog_level" where
  "SlogLevel l =
     (let s = ToLower (TrimSpace (lg_Level l))
      in if s = ''debug'' then LevelDebug
         else if s = ''warn'' \<or> s = ''warning'' then LevelWarn
         else if s = ''error'' then LevelError
         else LevelInfo)"

subsection \<open>The shadow tree of the YAML decoder\<close>

record rawHealth =
  rh_Interval :: string
  rh_Timeout :: string
  rh_Rise :: int
  rh_Fall :: int
  rh_Service :: string

record rawCircuit =
  rk_Enabled :: bool
  rk_Window :: string
  rk_Buckets :: int
  rk_MinRequests :: int
  rk_FailureRatio :: f64
  rk_OpenTimeout :: string
  rk_HalfOpenMax :: int

record rawProxy =
  rp_MaxRecvMsgSize :: int
  rp_MaxSendMsgSize :: int
  rp_ShutdownGrace :: string

text \<open>\<open>rawRateLimit\<close> has the fields of \<open>RateLimit\<close>.\<close>

record rawConfig =
  rc_Listen :: string
  rc_AdminListen :: string
  rc_Backends :: "cfg_backend list"
  rc_Routing :: cfg_routing
  rc_Health :: rawHealth
  rc_RateLimit :: cfg_ratelimit
  rc_CircuitBreaker :: rawCircuit
  rc_Logging :: cfg_logging
  rc_Proxy :: rawProxy

definition newRawConfig :: "config \<Rightarrow> rawConfig" where
  "newRawConfig base =
     (let h = c_Health base; r = c_RateLimit base; k = c_CircuitBreaker base; p = c_Proxy base
      in \<lparr>rc_Listen = c_Listen base, rc_AdminListen = c_AdminListen base, rc_Backends = c_Backends base,
          rc_Routing = c_Routing base,
          rc_Health = \<lparr>rh_Interval = Duration_String (hc_Interval h), rh_Timeout = Duration_String (hc_Timeout h),
            rh_Rise = hc_Rise h, rh_Fall = hc_Fall h, rh_Service = hc_Service h\<rparr>,
          rc_RateLimit = \<lparr>rl_Enabled = rl_Enabled r, rl_RPS = rl_RPS r, rl_Burst = 0, rl_PerClient = rl_PerClient r,
            rl_PerClientRPS = rl_PerClientRPS r, rl_PerClientBurst = 0\<rparr>,
          rc_CircuitBreaker = \<lparr>rk_Enabled = cc_Enabled k, rk_Window = Duration_String (cc_Window k),
            rk_Buckets = cc_Buckets k, rk_MinRequests = cc_MinRequests k, rk_FailureRatio = cc_FailureRatio k,
            rk_OpenTimeout = Duration_String (cc_OpenTimeout k), rk_HalfOpenMax = cc_HalfOpenMax k\<rparr>,
          rc_Logging = c_Logging base,
          rc_Proxy = \<lparr>rp_MaxRecvMsgSize = px_MaxRecvMsgSize p, rp_MaxSendMsgSize = px_MaxSendMsgSize p,
            rp_ShutdownGrace = Duration_String (px_ShutdownGrace p)\<rparr>\<rparr>)"

definition parse_field :: "string \<Rightarrow> string \<Rightarrow> duration \<times> cfg_error list" where
  "parse_field field src =
     (case ParseDuration (TrimSpace src) of
        None \<Rightarrow> (0, [Bad_Duration field src])
      | Some v \<Rightarrow> (v, []))"

definition raw_config :: "rawConfig \<Rightarrow> config \<times> cfg_error list" where
  "raw_config r =
     (let (interval, e1) = parse_field ''health.interval'' (rh_Interval (rc_Health r));
          (timeout, e2) = parse_field ''health.timeout'' (rh_Timeout (rc_Health r));
          (window, e3) = parse_field ''circuit_breaker.window'' (rk_Window (rc_CircuitBreaker r));
          (openT, e4) = parse_field ''circuit_breaker.open_timeout'' (rk_OpenTimeout (rc_CircuitBreaker r));
          (grace, e5) = parse_field ''proxy.shutdown_grace'' (rp_ShutdownGrace (rc_Proxy r));
          h = rc_Health r; k = rc_CircuitBreaker r; p = rc_Proxy r
      in (\<lparr>c_Listen = rc_Listen r, c_AdminListen = rc_AdminListen r, c_Backends = rc_Backends r,
           c_Routing = rc_Routing r,
           c_Health = \<lparr>hc_Interval = interval, hc_Timeout = timeout, hc_Rise = rh_Rise h, hc_Fall = rh_Fall h,
             hc_Service = rh_Service h\<rparr>,
           c_RateLimit = rc_RateLimit r,
           c_CircuitBreaker = \<lparr>cc_Enabled = rk_Enabled k, cc_Window = window, cc_Buckets = rk_Buckets k,
             cc_MinRequests = rk_MinRequests k, cc_FailureRatio = rk_FailureRatio k, cc_OpenTimeout = openT,
             cc_HalfOpenMax = rk_HalfOpenMax k\<rparr>,
           c_Logging = rc_Logging r,
           c_Proxy = \<lparr>px_MaxRecvMsgSize = rp_MaxRecvMsgSize p, px_MaxSendMsgSize = rp_MaxSendMsgSize p,
             px_ShutdownGrace = grace\<rparr>\<rparr>,
          e1 @ e2 @ e3 @ e4 @ e5))"

text \<open>What the decoder did to the tree it was given: \<open>DecodeEOF\<close> for an empty document.\<close>

datatype decoded = Decoded rawConfig | DecodeEOF rawConfig | DecodeError string

definition load_raw :: "(string \<Rightarrow> string option) \<Rightarrow> rawConfig \<Rightarrow> load_error + config" where
  "load_raw env raw =
     (let (c, errs) = raw_config raw
      in if errs \<noteq> [] then Inl (Load_Parse errs)
         else let (c, errs) = ApplyEnv (Some env) c
              in if errs \<noteq> [] then Inl (Load_Env errs)
                 else let c = applyDerivedDefaults c; errs = Validate c
                      in if errs \<noteq> [] then Inl (Load_Invalid errs) else Inr c)"

definition Load ::
  "(string \<Rightarrow> string + 'f) \<Rightarrow> ('f \<Rightarrow> rawConfig \<Rightarrow> decoded) \<Rightarrow> (string \<Rightarrow> string option) \<Rightarrow> string \<Rightarrow> load_error + config" where
  "Load openf decode env path =
     (if TrimSpace path = [] then Inl Load_No_Path
      else case openf path of
             Inl msg \<Rightarrow> Inl (Load_Open msg)
           | Inr f \<Rightarrow>
               (case decode f (newRawConfig Default) of
                  DecodeError msg \<Rightarrow> Inl (Load_Decode msg)
                | Decoded raw \<Rightarrow> load_raw env raw
                | DecodeEOF raw \<Rightarrow> load_raw env raw))"

subsection \<open>What validation means\<close>

definition backends_ok :: "cfg_backend list \<Rightarrow> bool" where
  "backends_ok bs =
     (distinct (map cb_ID bs) \<and> distinct (map cb_Addr bs) \<and>
      list_all (\<lambda>b. cb_ID b \<noteq> [] \<and> cb_Addr b \<noteq> [] \<and> 0 < cb_Weight b) bs)"

definition circuit_ok :: "cfg_circuit \<Rightarrow> bool" where
  "circuit_ok k =
     (0 < cc_Window k \<and> 1 \<le> cc_Buckets k \<and> 1 \<le> cc_MinRequests k \<and>
      (\<exists>r. cc_FailureRatio k = Fin r \<and> 0 < r \<and> r \<le> 1) \<and> 0 < cc_OpenTimeout k \<and> 1 \<le> cc_HalfOpenMax k)"

definition ratelimit_ok :: "cfg_ratelimit \<Rightarrow> bool" where
  "ratelimit_ok r =
     (rl_Enabled r \<longrightarrow> f64_lt (Fin 0) (rl_RPS r) \<and> 1 \<le> rl_Burst r \<and>
        (rl_PerClient r \<longrightarrow> f64_lt (Fin 0) (rl_PerClientRPS r) \<and> 1 \<le> rl_PerClientBurst r))"

text \<open>
  The sampling rates that pass: those in [0,1], as the message demands, and also NaN, on which both comparisons are
  false. The fields of a rate limit that is off are not looked at.
\<close>

definition sample_rate_accepted :: "f64 \<Rightarrow> bool" where
  "sample_rate_accepted x = (x = NaN \<or> (\<exists>r. x = Fin r \<and> 0 \<le> r \<and> r \<le> 1))"

definition config_ok :: "config \<Rightarrow> bool" where
  "config_ok c =
     (TrimSpace (c_Listen c) \<noteq> [] \<and> TrimSpace (c_AdminListen c) \<noteq> [] \<and>
      c_Backends c \<noteq> [] \<and> backends_ok (c_Backends c) \<and>
      rt_RetryPolicy (c_Routing c) \<in> {''connect-failure'', ''unavailable'', ''none''} \<and>
      0 < rt_VirtualNodes (c_Routing c) \<and> 1 \<le> rt_MaxAttempts (c_Routing c) \<and>
      0 < hc_Interval (c_Health c) \<and> 0 < hc_Timeout (c_Health c) \<and>
      1 \<le> hc_Rise (c_Health c) \<and> 1 \<le> hc_Fall (c_Health c) \<and>
      ratelimit_ok (c_RateLimit c) \<and> circuit_ok (c_CircuitBreaker c) \<and>
      ToLower (lg_Level (c_Logging c)) \<in> {''debug'', ''info'', ''warn'', ''error''} \<and>
      ToLower (lg_Format (c_Logging c)) \<in> {''json'', ''text''} \<and>
      sample_rate_accepted (lg_SampleRate (c_Logging c)) \<and>
      0 < px_MaxRecvMsgSize (c_Proxy c) \<and> 0 < px_MaxSendMsgSize (c_Proxy c) \<and> 0 < px_ShutdownGrace (c_Proxy c))"

lemma validate_backends_ok:
  "validate_backends i ids addrs bs = [] \<longleftrightarrow>
     distinct (map cb_ID bs) \<and> distinct (map cb_Addr bs) \<and>
     (\<forall>b \<in> set bs. cb_ID b \<noteq> [] \<and> cb_Addr b \<noteq> [] \<and> 0 < cb_Weight b \<and>
        ids (cb_ID b) = None \<and> addrs (cb_Addr b) = None)"
proof (induction bs arbitrary: i ids addrs)
  case (Cons b bs)
  show ?case
  proof (cases "cb_ID b \<noteq> [] \<and> cb_Addr b \<noteq> [] \<and> ids (cb_ID b) = None \<and> addrs (cb_Addr b) = None \<and> 0 < cb_Weight b")
    case True
    then have "validate_backends i ids addrs (b # bs) =
        validate_backends (i + 1) (ids(cb_ID b \<mapsto> i)) (addrs(cb_Addr b \<mapsto> i)) bs"
      by (simp add: Let_def)
    then show ?thesis using True by (auto simp: Cons.IH image_iff split: if_splits)
  next
    case False
    then show ?thesis by (auto simp: Let_def split: option.splits if_splits)
  qed
qed simp

lemma f64_ratio_ok: "f64_lt (Fin 0) x \<and> f64_le x (Fin 1) \<longleftrightarrow> (\<exists>r. x = Fin r \<and> 0 < r \<and> r \<le> 1)"
  by (cases x) (auto simp: f64_le_def)

lemma validate_circuit_ok: "validate_circuit k = [] \<longleftrightarrow> circuit_ok k"
  by (simp add: validate_circuit_def circuit_ok_def f64_ratio_ok)

lemma validate_ratelimit_ok: "validate_ratelimit r = [] \<longleftrightarrow> ratelimit_ok r"
  by (simp add: validate_ratelimit_def ratelimit_ok_def)

lemma validate_logging_ok: "validate_logging l = [] \<longleftrightarrow>
    ToLower (lg_Level l) \<in> {''debug'', ''info'', ''warn'', ''error''} \<and>
    ToLower (lg_Format l) \<in> {''json'', ''text''} \<and> sample_rate_accepted (lg_SampleRate l)"
  by (cases "lg_SampleRate l") (auto simp: validate_logging_def sample_rate_accepted_def)

lemma Validate_config_ok: "Validate c = [] \<longleftrightarrow> config_ok c"
  unfolding Validate_def config_ok_def append_is_Nil_conv validate_backends_ok validate_circuit_ok
    validate_ratelimit_ok validate_logging_ok backends_ok_def list_all_iff
  by (simp add: RetryConnectFailure_def RetryUnavailable_def RetryNone_def)

subsection \<open>LB_BACKENDS round trip\<close>

definition entry_text :: "cfg_backend \<Rightarrow> string" where
  "entry_text b = cb_ID b @ ''='' @ cb_Addr b"

fun join_comma :: "string list \<Rightarrow> string" where
  "join_comma [] = []"
| "join_comma [f] = f"
| "join_comma (f # fs) = f @ '','' @ join_comma fs"

definition env_backend :: "cfg_backend \<Rightarrow> bool" where
  "env_backend b =
     (cb_ID b \<noteq> [] \<and> cb_Addr b \<noteq> [] \<and> TrimSpace (cb_ID b) = cb_ID b \<and> TrimSpace (cb_Addr b) = cb_Addr b \<and>
      CHR '','' \<notin> set (cb_ID b) \<and> CHR ''='' \<notin> set (cb_ID b) \<and> CHR '','' \<notin> set (cb_Addr b) \<and>
      cb_Weight b = DefaultWeight)"

lemma split_join_comma:
  "fs \<noteq> [] \<Longrightarrow> \<forall>f \<in> set fs. CHR '','' \<notin> set f \<Longrightarrow> split_on (CHR '','') (join_comma fs) = fs"
  by (induction fs rule: join_comma.induct) (simp_all add: split_on_single split_on_join)

lemma parse_entry_text: "env_backend b \<Longrightarrow> parse_entry i (entry_text b) = Some (Inr b)"
  using cut_at_pair [of "CHR ''=''" "cb_ID b" "cb_Addr b"] TrimSpace_around_eq [of "cb_ID b" "cb_Addr b"]
  by (auto simp: env_backend_def parse_entry_def entry_text_def Let_def)

lemma parse_entries_text: "list_all env_backend bs \<Longrightarrow> parse_entries i (map entry_text bs) = ([], bs)"
  by (induction bs arbitrary: i) (simp_all add: parse_entry_text)

lemma parse_entry_sound:
  "parse_entry i f = Some (Inr b) \<Longrightarrow> cb_ID b \<noteq> [] \<and> cb_Addr b \<noteq> [] \<and> cb_Weight b = DefaultWeight \<and> TrimSpace (cb_Addr b) = cb_Addr b"
  by (auto simp: parse_entry_def Let_def split: if_splits prod.splits)

lemma parse_entries_sound:
  "b \<in> set (snd (parse_entries i fs)) \<Longrightarrow>
   cb_ID b \<noteq> [] \<and> cb_Addr b \<noteq> [] \<and> cb_Weight b = DefaultWeight \<and> TrimSpace (cb_Addr b) = cb_Addr b"
proof (induction fs arbitrary: i)
  case (Cons f fs)
  then show ?case using parse_entry_sound [of i f]
    by (cases "parse_entry i f") (auto simp: Let_def split_beta split: sum.splits)
qed simp

lemma burstFor_range: "1 \<le> burstFor rps \<and> burstFor rps \<le> 2 ^ 31 - 1"
proof (cases "f64_ceil (f64_mul (Fin 2) rps)")
  case (Fin x)
  obtain n :: int where x: "x = of_int n" using Fin by (cases "f64_mul (Fin 2) rps") auto
  show ?thesis
  proof (cases "1 \<le> n \<and> n \<le> 2 ^ 31 - 1")
    case True
    then have "\<not> (of_int n :: rat) < 1" "\<not> (2 ^ 31 - 1 :: rat) < of_int n"
      by (simp, metis (mono_tags, opaque_lifting) True of_int_1 of_int_diff of_int_le_iff of_int_numeral of_int_power not_less)
    then show ?thesis using True by (simp add: burstFor_def Fin x Let_def i64_min_def i64_max_def)
  next
    case False
    then show ?thesis by (auto simp: burstFor_def Fin x Let_def)
  qed
qed (simp_all add: burstFor_def Let_def)

subsection \<open>Precedence of the layers\<close>

lemma env_set_frame: "(\<And>v c. g (f v c) = g c) \<Longrightarrow> g (env_set lookup key f c) = g c"
  by (simp add: env_set_def split: option.split)

lemma env_try_ok:
  "env_try lookup key f x = (c', []) \<Longrightarrow>
   snd x = [] \<and> (case envValue lookup key of None \<Rightarrow> c' = fst x | Some v \<Rightarrow> f v (fst x) = Inr c')"
  by (cases x) (auto simp: env_try_def split: option.splits sum.splits)

lemma ApplyEnv_stages:
  assumes "ApplyEnv (Some env) c = (c', [])"
  obtains c1 c2 c3 where
    "c_Listen c1 = (case envValue env EnvListen of Some v \<Rightarrow> v | None \<Rightarrow> c_Listen c)"
    "case envValue env EnvBackends of None \<Rightarrow> c2 = c1 | Some v \<Rightarrow> env_backends v c1 = Inr c2"
    "case envValue env EnvRateLimitRPS of None \<Rightarrow> c3 = c2 | Some v \<Rightarrow> env_rps v c2 = Inr c3"
    "case envValue env EnvMaxAttempts of None \<Rightarrow> c' = c3 | Some v \<Rightarrow> env_attempts v c3 = Inr c'"
proof -
  define c1 where "c1 =
    env_set env EnvLogLevel (\<lambda>v c. c\<lparr>c_Logging := (c_Logging c)\<lparr>lg_Level := ToLower v\<rparr>\<rparr>)
      (env_set env EnvHashHeader (\<lambda>v c. c\<lparr>c_Routing := (c_Routing c)\<lparr>rt_HashHeader := v\<rparr>\<rparr>)
        (env_set env EnvAdminListen (\<lambda>v c. c\<lparr>c_AdminListen := v\<rparr>)
          (env_set env EnvListen (\<lambda>v c. c\<lparr>c_Listen := v\<rparr>) c)))"
  let ?x = "env_try env EnvBackends env_backends (c1, [])"
  let ?y = "env_try env EnvRateLimitRPS env_rps ?x"
  have z: "env_try env EnvMaxAttempts env_attempts ?y = (c', [])"
    using assms by (simp add: ApplyEnv_def c1_def Let_def)
  have y: "?y = (fst ?y, [])" using env_try_ok [OF z] by (simp add: prod_eq_iff)
  have x: "?x = (fst ?x, [])" using env_try_ok [OF y] by (simp add: prod_eq_iff)
  have "c_Listen c1 = c_Listen (env_set env EnvListen (\<lambda>v c. c\<lparr>c_Listen := v\<rparr>) c)"
    unfolding c1_def by (simp add: env_set_frame [where g = c_Listen])
  also have "\<dots> = (case envValue env EnvListen of Some v \<Rightarrow> v | None \<Rightarrow> c_Listen c)"
    by (simp add: env_set_def split: option.split)
  finally show ?thesis
    by (rule that [of c1 "fst ?x" "fst ?y"])
      (use env_try_ok [OF x, unfolded fst_conv] env_try_ok [OF y] env_try_ok [OF z] in simp_all)
qed

lemma env_frames:
  "env_backends v c = Inr c' \<Longrightarrow> c_Listen c' = c_Listen c \<and> ParseBackends v = Inr (c_Backends c')"
  "env_rps v c = Inr c' \<Longrightarrow> c_Listen c' = c_Listen c \<and> c_Backends c' = c_Backends c \<and> ParseFloat v = Some (rl_RPS (c_RateLimit c'))"
  "env_attempts v c = Inr c' \<Longrightarrow> c_Listen c' = c_Listen c \<and> c_Backends c' = c_Backends c \<and>
     c_RateLimit c' = c_RateLimit c \<and> Atoi v = Some (rt_MaxAttempts (c_Routing c'))"
  by (auto simp: env_backends_def env_rps_def env_attempts_def split: sum.splits option.splits)

lemma ApplyEnv_ok:
  assumes "ApplyEnv (Some env) c = (c', [])"
  shows "envValue env EnvListen = Some v \<Longrightarrow> c_Listen c' = v"
    "envValue env EnvBackends = Some v \<Longrightarrow> ParseBackends v = Inr (c_Backends c')"
    "envValue env EnvMaxAttempts = Some v \<Longrightarrow> Atoi v = Some (rt_MaxAttempts (c_Routing c'))"
    "envValue env EnvRateLimitRPS = Some v \<Longrightarrow> ParseFloat v = Some (rl_RPS (c_RateLimit c'))"
proof -
  obtain c1 c2 c3 where st:
    "c_Listen c1 = (case envValue env EnvListen of Some v \<Rightarrow> v | None \<Rightarrow> c_Listen c)"
    "case envValue env EnvBackends of None \<Rightarrow> c2 = c1 | Some v \<Rightarrow> env_backends v c1 = Inr c2"
    "case envValue env EnvRateLimitRPS of None \<Rightarrow> c3 = c2 | Some v \<Rightarrow> env_rps v c2 = Inr c3"
    "case envValue env EnvMaxAttempts of None \<Rightarrow> c' = c3 | Some v \<Rightarrow> env_attempts v c3 = Inr c'"
    using ApplyEnv_stages [OF assms] .
  have "c_Listen c2 = c_Listen c1" using st(2) env_frames(1) by (auto split: option.splits)
  moreover have r: "c_Listen c3 = c_Listen c2 \<and> c_Backends c3 = c_Backends c2"
    using st(3) env_frames(2) by (auto split: option.splits)
  moreover have a: "c_Listen c' = c_Listen c3 \<and> c_Backends c' = c_Backends c3 \<and> c_RateLimit c' = c_RateLimit c3"
    using st(4) env_frames(3) by (auto split: option.splits)
  ultimately show "envValue env EnvListen = Some v \<Longrightarrow> c_Listen c' = v" using st(1) by simp
  show "envValue env EnvBackends = Some v \<Longrightarrow> ParseBackends v = Inr (c_Backends c')"
    using st(2) env_frames(1) r a by simp
  show "envValue env EnvMaxAttempts = Some v \<Longrightarrow> Atoi v = Some (rt_MaxAttempts (c_Routing c'))"
    using st(4) env_frames(3) by simp
  show "envValue env EnvRateLimitRPS = Some v \<Longrightarrow> ParseFloat v = Some (rl_RPS (c_RateLimit c'))"
    using st(3) env_frames(2) a by simp
qed

lemma applyDerivedDefaults_frame:
  "c_Listen (applyDerivedDefaults c) = c_Listen c" "c_AdminListen (applyDerivedDefaults c) = c_AdminListen c"
  "c_Routing (applyDerivedDefaults c) = c_Routing c" "c_Health (applyDerivedDefaults c) = c_Health c"
  "c_CircuitBreaker (applyDerivedDefaults c) = c_CircuitBreaker c" "c_Logging (applyDerivedDefaults c) = c_Logging c"
  "c_Proxy (applyDerivedDefaults c) = c_Proxy c" "c_Backends (applyDerivedDefaults c) = map derived_backend (c_Backends c)"
  "rl_RPS (c_RateLimit (applyDerivedDefaults c)) = rl_RPS (c_RateLimit c)"
  by (simp_all add: applyDerivedDefaults_def Let_def)

lemma Load_derived:
  assumes "Load openf decode env path = Inr c"
  obtains d0 d where "ApplyEnv (Some env) d0 = (d, [])" "c = applyDerivedDefaults d" "Validate c = []"
proof -
  obtain raw where raw: "load_raw env raw = Inr c"
    using assms by (auto simp: Load_def split: if_splits sum.splits decoded.splits)
  obtain d e where d: "raw_config raw = (d, e)" by (cases "raw_config raw")
  obtain d' e' where d': "ApplyEnv (Some env) d = (d', e')" by (cases "ApplyEnv (Some env) d")
  show ?thesis by (rule that [of d d']) (use raw d' in \<open>auto simp: load_raw_def d d' Let_def split: if_splits\<close>)
qed

definition one_backend :: config where
  "one_backend = Default\<lparr>c_Backends := [\<lparr>cb_ID = ''a'', cb_Addr = ''h:1'', cb_Weight = 100\<rparr>]\<rparr>"

lemma one_backend_valid: "Validate one_backend = []"
  by code_simp

subsection \<open>Claims\<close>

text \<open>
  C27: \<open>Validate\<close> accepts exactly the configurations in which every field is in range, with one exception, that a NaN
  sampling rate passes although it is not in [0,1]. In particular the two maps of its loop accept exactly the backend
  lists with non-empty, pairwise distinct ids and addresses and positive weights.
\<close>

theorem validate_exact: "Validate c = [] \<longleftrightarrow> config_ok c"
  by (rule Validate_config_ok)

text \<open>
  C35: \<open>Validate\<close> does not reject a NaN sampling rate, although its message demands a value in
  [0,1] (its two comparisons are both false on NaN; the other float checks are written negated).
\<close>

theorem validate_accepts_nan_sample_rate:
  assumes "Validate c = []"
  shows "Validate (c\<lparr>c_Logging := (c_Logging c)\<lparr>lg_SampleRate := NaN\<rparr>\<rparr>) = []"
  using assms by (simp add: Validate_config_ok config_ok_def sample_rate_accepted_def)

theorem validate_accepts_nan_sample_rate_witness:
  "Validate (one_backend\<lparr>c_Logging := (c_Logging one_backend)\<lparr>lg_SampleRate := NaN\<rparr>\<rparr>) = []"
  by (rule validate_accepts_nan_sample_rate [OF one_backend_valid])

text \<open>
  C28: \<open>LB_BACKENDS\<close> round trip: the comma-separated \<open>id=addr\<close> rendering of any list of backends
  whose ids and addresses are trimmed and free of separators parses back to that list; and
  whatever parses has non-empty ids, non-empty trimmed addresses and the default weight.
\<close>

theorem backends_env_roundtrip:
  assumes "bs \<noteq> []" and "list_all env_backend bs"
  shows "ParseBackends (join_comma (map entry_text bs)) = Inr bs \<and>
    (\<forall>s bs'. ParseBackends s = Inr bs' \<longrightarrow>
       list_all (\<lambda>b. cb_ID b \<noteq> [] \<and> cb_Addr b \<noteq> [] \<and> TrimSpace (cb_Addr b) = cb_Addr b \<and> cb_Weight b = DefaultWeight) bs')"
proof -
  have "\<forall>f \<in> set (map entry_text bs). CHR '','' \<notin> set f"
    using assms(2) by (auto simp: list_all_iff env_backend_def entry_text_def)
  then have "split_on (CHR '','') (join_comma (map entry_text bs)) = map entry_text bs"
    using assms(1) by (intro split_join_comma) simp_all
  then have "ParseBackends (join_comma (map entry_text bs)) = Inr bs"
    using parse_entries_text [OF assms(2)] by (simp add: ParseBackends_def)
  moreover have "list_all (\<lambda>b. cb_ID b \<noteq> [] \<and> cb_Addr b \<noteq> [] \<and> TrimSpace (cb_Addr b) = cb_Addr b \<and> cb_Weight b = DefaultWeight) bs'"
    if "ParseBackends s = Inr bs'" for s bs'
    using that parse_entries_sound [of _ 0 "split_on (CHR '','') s"]
    by (auto simp: ParseBackends_def Let_def split_beta list_all_iff split: if_splits)
  ultimately show ?thesis by blast
qed

theorem backends_env_roundtrip_witness:
  "ParseBackends ''a=h:1,b=h:2'' =
     Inr [\<lparr>cb_ID = ''a'', cb_Addr = ''h:1'', cb_Weight = 100\<rparr>, \<lparr>cb_ID = ''b'', cb_Addr = ''h:2'', cb_Weight = 100\<rparr>]"
proof -
  let ?bs = "[\<lparr>cb_ID = ''a'', cb_Addr = ''h:1'', cb_Weight = 100\<rparr>, \<lparr>cb_ID = ''b'', cb_Addr = ''h:2'', cb_Weight = 100\<rparr>]"
  have e: "list_all env_backend ?bs" by code_simp
  show ?thesis using backends_env_roundtrip [OF _ e] by (simp add: entry_text_def)
qed

text \<open>
  A configuration that \<open>Load\<close> returns is valid, whatever the file, the decoder and the
  environment: ids and addresses are trimmed, and every non-blank variable that is set has
  replaced the value of the file.
\<close>

theorem load_result_valid:
  assumes "Load openf decode env path = Inr c"
  shows "config_ok c \<and>
    list_all (\<lambda>b. TrimSpace (cb_ID b) = cb_ID b \<and> TrimSpace (cb_Addr b) = cb_Addr b) (c_Backends c) \<and>
    (\<forall>v. envValue env EnvListen = Some v \<longrightarrow> c_Listen c = v) \<and>
    (\<forall>v. envValue env EnvMaxAttempts = Some v \<longrightarrow> Atoi v = Some (rt_MaxAttempts (c_Routing c))) \<and>
    (\<forall>v. envValue env EnvRateLimitRPS = Some v \<longrightarrow> ParseFloat v = Some (rl_RPS (c_RateLimit c))) \<and>
    (\<forall>v. envValue env EnvBackends = Some v \<longrightarrow>
       (\<exists>bs. ParseBackends v = Inr bs \<and> c_Backends c = map derived_backend bs))"
proof -
  obtain d d' where d': "ApplyEnv (Some env) d = (d', [])" and c: "c = applyDerivedDefaults d'" and v: "Validate c = []"
    using Load_derived [OF assms] .
  note env = ApplyEnv_ok [OF d']
  have "list_all (\<lambda>b. TrimSpace (cb_ID b) = cb_ID b \<and> TrimSpace (cb_Addr b) = cb_Addr b) (c_Backends c)"
    by (auto simp: c applyDerivedDefaults_frame list_all_iff derived_backend_def Let_def)
  then show ?thesis using v env by (simp add: c Validate_config_ok applyDerivedDefaults_frame)
qed

theorem load_result_valid_witness:
  "\<exists>c. Load (\<lambda>_. Inr ()) (\<lambda>_ raw. DecodeEOF raw) [''LB_BACKENDS'' \<mapsto> ''a=h:1''] ''f'' = Inr c \<and> config_ok c"
proof -
  have "Load (\<lambda>_. Inr ()) (\<lambda>_ raw. DecodeEOF raw) [''LB_BACKENDS'' \<mapsto> ''a=h:1''] ''f'' = Inr one_backend"
    by code_simp
  then show ?thesis using load_result_valid by blast
qed

text \<open>
  An empty file is the same as no file: the shadow tree seeded from \<open>Default\<close>, with its
  durations printed and parsed and its bursts recomputed from the rates, is \<open>Default\<close> again.
\<close>

theorem empty_file_is_default:
  "raw_config (newRawConfig Default) =
     (Default\<lparr>c_RateLimit := (c_RateLimit Default)\<lparr>rl_Burst := 0, rl_PerClientBurst := 0\<rparr>\<rparr>, []) \<and>
   applyDerivedDefaults (fst (raw_config (newRawConfig Default))) = Default"
  by code_simp

end
