(* ===== verification/Metrics.thy ===== *)
theory Metrics
  imports Float64
begin

text \<open>
  \<^verbatim>\<open>internal/metrics/metrics.go\<close>. The collectors themselves belong to the Prometheus client library;
  what the load balancer decides is which series each method touches and how. A call of a method
  is a value of \<open>metric_call\<close>, so the other components return the calls they make, and
  \<open>metrics_call\<close> gives the effect on counters, gauges and histogram observations by series.
\<close>

definition LatencyBuckets :: "rat list" where
  "LatencyBuckets = [2 / 10000, 5 / 10000, 1 / 1000, 2 / 1000, 5 / 1000, 1 / 100, 2 / 100, 5 / 100,
     1 / 10, 15 / 100, 2 / 10, 3 / 10, 5 / 10, 1, 25 / 10, 5]"

type_synonym series = "string \<times> string list"

text \<open>The collectors that \<open>New\<close> declares: kind, name and label names. The runtime collectors belong to the library.\<close>

datatype collector_kind = CounterVec | GaugeVec | Gauge | HistogramVec "rat list"

type_synonym collector = "collector_kind \<times> string \<times> string list"

definition Metrics_New :: "collector list" where
  "Metrics_New =
     [(CounterVec, ''lb_requests_total'', [''method'', ''code'']),
      (HistogramVec LatencyBuckets, ''lb_request_duration_seconds'', [''method'', ''code'']),
      (GaugeVec, ''lb_requests_inflight'', [''method'']),
      (CounterVec, ''lb_upstream_requests_total'', [''backend'', ''code'']),
      (HistogramVec LatencyBuckets, ''lb_upstream_duration_seconds'', [''backend'']),
      (CounterVec, ''lb_failovers_total'', [''method'', ''reason'']),
      (CounterVec, ''lb_rate_limited_total'', [''method'']),
      (CounterVec, ''lb_rejected_total'', [''method'', ''reason'']),
      (CounterVec, ''lb_panics_total'', [''method'']),
      (GaugeVec, ''lb_backend_healthy'', [''backend'']),
      (GaugeVec, ''lb_circuit_state'', [''name'']),
      (Gauge, ''lb_ring_members'', []),
      (Gauge, ''lb_ring_virtual_nodes'', []),
      (HistogramVec LatencyBuckets, ''lb_health_check_duration_seconds'', [''backend'', ''result''])]"

record collectors =
  co_value :: "series \<Rightarrow> f64"
  co_observed :: "series \<Rightarrow> f64 list"

datatype metric_call =
    ObserveRequest string string duration
  | IncInflight string
  | DecInflight string
  | ObserveUpstream string string duration
  | IncFailover string string
  | IncRateLimited string
  | IncPanic string
  | IncRejected string string
  | SetBackendHealth string bool
  | SetCircuitState string int
  | SetRingMembers int
  | SetRingVirtualNodes int
  | ObserveHealthCheck string string duration

text \<open>\<open>Duration.Seconds\<close>.\<close>

definition Seconds :: "duration \<Rightarrow> f64" where
  "Seconds d = f64_add (f64_of_int (d sdiv second)) (f64_div (f64_of_int (d smod second)) (Fin 1000000000))"

definition add_value :: "series \<Rightarrow> f64 \<Rightarrow> collectors \<Rightarrow> collectors" where
  "add_value s x m = m\<lparr>co_value := (co_value m)(s := f64_add (co_value m s) x)\<rparr>"

definition set_value :: "series \<Rightarrow> f64 \<Rightarrow> collectors \<Rightarrow> collectors" where
  "set_value s x m = m\<lparr>co_value := (co_value m)(s := x)\<rparr>"

definition observe_value :: "series \<Rightarrow> f64 \<Rightarrow> collectors \<Rightarrow> collectors" where
  "observe_value s x m = m\<lparr>co_observed := (co_observed m)(s := co_observed m s @ [x])\<rparr>"

fun metrics_call :: "metric_call \<Rightarrow> collectors \<Rightarrow> collectors" where
  "metrics_call (ObserveRequest method code d) m =
     observe_value (''lb_request_duration_seconds'', [method, code]) (Seconds d)
       (add_value (''lb_requests_total'', [method, code]) (Fin 1) m)"
| "metrics_call (IncInflight method) m = add_value (''lb_requests_inflight'', [method]) (Fin 1) m"
| "metrics_call (DecInflight method) m = add_value (''lb_requests_inflight'', [method]) (Fin (- 1)) m"
| "metrics_call (ObserveUpstream b code d) m =
     observe_value (''lb_upstream_duration_seconds'', [b]) (Seconds d)
       (add_value (''lb_upstream_requests_total'', [b, code]) (Fin 1) m)"
| "metrics_call (IncFailover method reason) m = add_value (''lb_failovers_total'', [method, reason]) (Fin 1) m"
| "metrics_call (IncRateLimited method) m = add_value (''lb_rate_limited_total'', [method]) (Fin 1) m"
| "metrics_call (IncPanic method) m = add_value (''lb_panics_total'', [method]) (Fin 1) m"
| "metrics_call (IncRejected method reason) m = add_value (''lb_rejected_total'', [method, reason]) (Fin 1) m"
| "metrics_call (SetBackendHealth b healthy) m =
     set_value (''lb_backend_healthy'', [b]) (if healthy then Fin 1 else Fin 0) m"
| "metrics_call (SetCircuitState name st) m = set_value (''lb_circuit_state'', [name]) (f64_of_int st) m"
| "metrics_call (SetRingMembers n) m = set_value (''lb_ring_members'', []) (f64_of_int n) m"
| "metrics_call (SetRingVirtualNodes n) m = set_value (''lb_ring_virtual_nodes'', []) (f64_of_int n) m"
| "metrics_call (ObserveHealthCheck b result d) m =
     observe_value (''lb_health_check_duration_seconds'', [b, result]) (Seconds d) m"

definition metrics_calls :: "metric_call list \<Rightarrow> collectors \<Rightarrow> collectors" where
  "metrics_calls cs m = fold metrics_call cs m"

text \<open>The series a call touches, by metric name and labels.\<close>

fun touched :: "metric_call \<Rightarrow> series list" where
  "touched (ObserveRequest method code d) = [(''lb_requests_total'', [method, code]), (''lb_request_duration_seconds'', [method, code])]"
| "touched (IncInflight method) = [(''lb_requests_inflight'', [method])]"
| "touched (DecInflight method) = [(''lb_requests_inflight'', [method])]"
| "touched (ObserveUpstream b code d) = [(''lb_upstream_requests_total'', [b, code]), (''lb_upstream_duration_seconds'', [b])]"
| "touched (IncFailover method reason) = [(''lb_failovers_total'', [method, reason])]"
| "touched (IncRateLimited method) = [(''lb_rate_limited_total'', [method])]"
| "touched (IncPanic method) = [(''lb_panics_total'', [method])]"
| "touched (IncRejected method reason) = [(''lb_rejected_total'', [method, reason])]"
| "touched (SetBackendHealth b healthy) = [(''lb_backend_healthy'', [b])]"
| "touched (SetCircuitState name st) = [(''lb_circuit_state'', [name])]"
| "touched (SetRingMembers n) = [(''lb_ring_members'', [])]"
| "touched (SetRingVirtualNodes n) = [(''lb_ring_virtual_nodes'', [])]"
| "touched (ObserveHealthCheck b result d) = [(''lb_health_check_duration_seconds'', [b, result])]"

lemma metrics_call_frame:
  "s \<notin> set (touched c) \<Longrightarrow> co_value (metrics_call c m) s = co_value m s \<and> co_observed (metrics_call c m) s = co_observed m s"
  by (cases c) (simp_all add: add_value_def set_value_def observe_value_def)

text \<open>
  The library panics on a name registered twice, on buckets that do not increase and on a wrong number of label
  values. None of this can happen: the declarations are consistent and every call fits the collector it touches.
\<close>

lemma Metrics_New_consistent:
  "distinct (map (fst \<circ> snd) Metrics_New)" "sorted_wrt (<) LatencyBuckets"
  by code_simp+

lemma metrics_call_fits:
  "list_all (\<lambda>s. list_ex (\<lambda>d. fst (snd d) = fst s \<and> length (snd (snd d)) = length (snd s)) Metrics_New) (touched c)"
  by (cases c) (simp_all add: Metrics_New_def)

text \<open>A counter only ever grows, by one.\<close>

lemma counters_grow:
  assumes "(CounterVec, name, ls) \<in> set Metrics_New"
  shows "co_value (metrics_call c m) (name, vs) \<in> {co_value m (name, vs), f64_add (co_value m (name, vs)) (Fin 1)}"
  using assms by (cases c) (auto simp: Metrics_New_def add_value_def set_value_def observe_value_def)

end
