(* ===== verification/Pool.thy ===== *)
theory Pool
  imports Config Metrics Circuit_Registry Circuit_Episodes
begin

text \<open>
  \<^verbatim>\<open>internal/pool/pool.go\<close>: the configured backends with their connections, health and breakers. A
  \<open>*Backend\<close> is its position in \<open>pl_backends\<close>, which never changes after construction; its breaker
  is a reference into the pool's registry, which is part of the pool's state. Dialling and closing
  a connection (gRPC) are parameters. A nil \<open>*Metrics\<close> is the flag \<open>m = False\<close>.
\<close>

subsection \<open>Data\<close>

datatype hstate = StateUnknown | StateHealthy | StateUnhealthy

fun hstate_String :: "hstate \<Rightarrow> string" where
  "hstate_String StateUnknown = ''unknown''"
| "hstate_String StateHealthy = ''healthy''"
| "hstate_String StateUnhealthy = ''unhealthy''"

record 'c backend =
  bk_id :: string
  bk_addr :: string
  bk_weight :: int
  bk_conn :: 'c
  bk_breaker :: bref
  bk_breakerEnabled :: bool
  bk_state :: hstate

datatype pool_error =
    Pool_Empty_ID nat
  | Pool_Empty_Addr string
  | Pool_Duplicate string
  | Pool_Dial string string string
  | Pool_Close_Error string string string

record 'c pool =
  pl_backends :: "'c backend list"
  pl_byID :: "string \<rightharpoonup> nat"
  pl_breakers :: registry
  pl_callbacks :: "nat list" \<comment> \<open>the registered callbacks, by name\<close>
  pl_closed :: "pool_error list option" \<comment> \<open>what \<open>closeOnce\<close> stored, once it ran\<close>

subsection \<open>Construction\<close>

definition breakerSettings :: "cfg_circuit \<Rightarrow> bool \<Rightarrow> settings" where
  "breakerSettings cb m = \<lparr>s_Window = cc_Window cb, s_Buckets = cc_Buckets cb, s_MinRequests = cc_MinRequests cb,
     s_FailureRatio = cc_FailureRatio cb, s_OpenTimeout = cc_OpenTimeout cb, s_HalfOpenMax = cc_HalfOpenMax cb,
     s_MaxEntries = 0, s_OnStateChange = m\<rparr>"

text \<open>The callback of \<open>breakerSettings\<close>.\<close>

definition fired_calls :: "fired \<Rightarrow> metric_call list" where
  "fired_calls evs = map (\<lambda>(name, _, to). SetCircuitState name (State_int to)) evs"

definition newBackend ::
  "'c pool \<Rightarrow> nat \<Rightarrow> cfg_backend \<Rightarrow> bool \<Rightarrow> (nat \<Rightarrow> string \<Rightarrow> string + 'c) \<Rightarrow> bool \<Rightarrow> (nat \<Rightarrow> go_time) \<Rightarrow>
   pool_error + 'c pool \<times> 'c backend \<times> metric_call list" where
  "newBackend p i bc breakerEnabled dial m clock =
     (if cb_ID bc = [] then Inl (Pool_Empty_ID i)
      else if cb_Addr bc = [] then Inl (Pool_Empty_Addr (cb_ID bc))
      else if pl_byID p (cb_ID bc) \<noteq> None then Inl (Pool_Duplicate (cb_ID bc))
      else case dial i (cb_Addr bc) of
             Inl msg \<Rightarrow> Inl (Pool_Dial (cb_ID bc) (cb_Addr bc) msg)
           | Inr conn \<Rightarrow>
               (let weight = (if cb_Weight bc \<le> 0 then DefaultWeight else cb_Weight bc);
                    (reg, ref) = Registry_Get (pl_breakers p) (cb_ID bc) (clock i);
                    b = \<lparr>bk_id = cb_ID bc, bk_addr = cb_Addr bc, bk_weight = weight, bk_conn = conn,
                         bk_breaker = ref, bk_breakerEnabled = breakerEnabled, bk_state = StateUnknown\<rparr>;
                    (reg, calls) =
                      (if m
                       then case breaker_at reg ref of
                              None \<Rightarrow> (reg, [])
                            | Some br \<Rightarrow>
                                (let (br, ev, st) = Breaker_State br (clock i)
                                 in (breaker_put reg ref br,
                                     fired_calls ev @ [SetCircuitState (bk_id b) (State_int st), SetBackendHealth (bk_id b) False]))
                       else (reg, []))
                in Inr (p\<lparr>pl_breakers := reg\<rparr>, b, calls)))"

definition closeConns :: "('c \<Rightarrow> string option) \<Rightarrow> 'c pool \<Rightarrow> pool_error list" where
  "closeConns closec p =
     concat (map (\<lambda>b. case closec (bk_conn b) of
                        None \<Rightarrow> []
                      | Some msg \<Rightarrow> [Pool_Close_Error (bk_id b) (bk_addr b) msg]) (pl_backends p))"

text \<open>
  The loop of \<open>newPool\<close>. A failure reports the connections that \<open>closeConns\<close> closed, a success the
  pool and the metrics calls.
\<close>

fun newPool_loop ::
  "nat \<Rightarrow> cfg_backend list \<Rightarrow> bool \<Rightarrow> (nat \<Rightarrow> string \<Rightarrow> string + 'c) \<Rightarrow> bool \<Rightarrow> (nat \<Rightarrow> go_time) \<Rightarrow>
   'c pool \<Rightarrow> metric_call list \<Rightarrow> (pool_error \<times> 'c list) + 'c pool \<times> metric_call list" where
  "newPool_loop i [] en dial m clock p calls = Inr (p, calls)"
| "newPool_loop i (bc # bcs) en dial m clock p calls =
     (case newBackend p i bc en dial m clock of
        Inl err \<Rightarrow> Inl (err, map bk_conn (pl_backends p))
      | Inr (p, b, calls') \<Rightarrow>
          newPool_loop (i + 1) bcs en dial m clock
            (p\<lparr>pl_backends := pl_backends p @ [b], pl_byID := (pl_byID p)(bk_id b \<mapsto> i)\<rparr>) (calls @ calls'))"

definition newPool ::
  "config \<Rightarrow> bool \<Rightarrow> (nat \<Rightarrow> string \<Rightarrow> string + 'c) \<Rightarrow> (nat \<Rightarrow> go_time) \<Rightarrow> go_time \<Rightarrow>
   (pool_error \<times> 'c list) + 'c pool \<times> metric_call list" where
  "newPool cfg m dial clock now =
     newPool_loop 0 (c_Backends cfg) (cc_Enabled (c_CircuitBreaker cfg)) dial m clock
       \<lparr>pl_backends = [], pl_byID = Map.empty,
        pl_breakers = NewRegistry (breakerSettings (c_CircuitBreaker cfg) m) now,
        pl_callbacks = [], pl_closed = None\<rparr> []"

text \<open>The limits that \<open>dialOptions\<close> passes to gRPC; the caller's options follow them.\<close>

definition dialOptions :: "cfg_proxy \<Rightarrow> int \<times> int" where
  "dialOptions px =
     (let recv = (if px_MaxRecvMsgSize px \<le> 0 then px_MaxRecvMsgSize (c_Proxy Default) else px_MaxRecvMsgSize px);
          send = (if px_MaxSendMsgSize px \<le> 0 then px_MaxSendMsgSize (c_Proxy Default) else px_MaxSendMsgSize px)
      in (recv, send))"

subsection \<open>Operations on a backend\<close>

abbreviation backend_at :: "'c pool \<Rightarrow> nat \<Rightarrow> 'c backend" where
  "backend_at p i \<equiv> pl_backends p ! i"

definition Backend_SetState :: "'c pool \<Rightarrow> nat \<Rightarrow> hstate \<Rightarrow> 'c pool \<times> bool" where
  "Backend_SetState p i s =
     (p\<lparr>pl_backends := (pl_backends p)[i := (backend_at p i)\<lparr>bk_state := s\<rparr>]\<rparr>, bk_state (backend_at p i) \<noteq> s)"

definition Backend_Healthy :: "'c pool \<Rightarrow> nat \<Rightarrow> bool" where
  "Backend_Healthy p i = (bk_state (backend_at p i) = StateHealthy)"

text \<open>A call on the breaker behind the backend, with the breaker's new state written back.\<close>

definition on_breaker :: "'c pool \<Rightarrow> nat \<Rightarrow> (breaker \<Rightarrow> breaker \<times> 'r) \<Rightarrow> 'r \<Rightarrow> 'c pool \<times> 'r" where
  "on_breaker p i f dflt =
     (let ref = bk_breaker (backend_at p i)
      in case breaker_at (pl_breakers p) ref of
           None \<Rightarrow> (p, dflt)
         | Some b \<Rightarrow> (let (b', r) = f b in (p\<lparr>pl_breakers := breaker_put (pl_breakers p) ref b'\<rparr>, r)))"

definition Backend_Available :: "'c pool \<Rightarrow> nat \<Rightarrow> go_time \<Rightarrow> 'c pool \<times> fired \<times> bool" where
  "Backend_Available p i now =
     (if \<not> Backend_Healthy p i then (p, [], False)
      else if \<not> bk_breakerEnabled (backend_at p i) then (p, [], True)
      else on_breaker p i (\<lambda>b. Ready b now) ([], False))"

definition Backend_Reserve :: "'c pool \<Rightarrow> nat \<Rightarrow> go_time \<Rightarrow> 'c pool \<times> fired \<times> probe \<times> bool" where
  "Backend_Reserve p i now =
     (let unattributed = (case breaker_at (pl_breakers p) (bk_breaker (backend_at p i)) of
                            Some b \<Rightarrow> Unattributed b | None \<Rightarrow> zero_probe)
      in if \<not> Backend_Healthy p i then (p, [], unattributed, False)
         else if \<not> bk_breakerEnabled (backend_at p i) then (p, [], unattributed, True)
         else on_breaker p i (\<lambda>b. Admit b now) ([], zero_probe, False))"

text \<open>Resolving the probe that \<open>Reserve\<close> returned.\<close>

definition Backend_Resolve :: "'c pool \<Rightarrow> nat \<Rightarrow> probe \<Rightarrow> resolution \<Rightarrow> go_time \<Rightarrow> 'c pool" where
  "Backend_Resolve p i pr r now = fst (on_breaker p i (\<lambda>b. (breaker_resolve b pr r now, ())) ())"

definition Pool_Backends :: "'c pool \<Rightarrow> nat list" where
  "Pool_Backends p = [0..<length (pl_backends p)]"

definition Pool_Get :: "'c pool \<Rightarrow> string \<Rightarrow> nat option" where
  "Pool_Get p ident = pl_byID p ident"

definition Pool_Healthy :: "'c pool \<Rightarrow> nat list" where
  "Pool_Healthy p = filter (Backend_Healthy p) [0..<length (pl_backends p)]"

definition Pool_OnChange :: "'c pool \<Rightarrow> nat option \<Rightarrow> 'c pool" where
  "Pool_OnChange p f = (case f of None \<Rightarrow> p | Some f \<Rightarrow> p\<lparr>pl_callbacks := pl_callbacks p @ [f]\<rparr>)"

text \<open>The callbacks \<open>NotifyChange\<close> runs, in order, on a copy of the list taken under the mutex.\<close>

definition Pool_NotifyChange :: "'c pool \<Rightarrow> nat list" where
  "Pool_NotifyChange p = pl_callbacks p"

definition Pool_Close :: "('c \<Rightarrow> string option) \<Rightarrow> 'c pool \<Rightarrow> 'c pool \<times> pool_error list" where
  "Pool_Close closec p =
     (case pl_closed p of
        Some errs \<Rightarrow> (p, errs)
      | None \<Rightarrow> (let errs = closeConns closec p in (p\<lparr>pl_closed := Some errs\<rparr>, errs)))"

subsection \<open>The pool invariant\<close>

definition pool_inv :: "'c pool \<Rightarrow> bool" where
  "pool_inv p =
     (registry_inv (pl_breakers p) \<and> distinct (map bk_id (pl_backends p)) \<and>
      (\<forall>b \<in> set (pl_backends p). breaker_at (pl_breakers p) (bk_breaker b) \<noteq> None \<and> bk_id b \<noteq> [] \<and> 0 < bk_weight b) \<and>
      (\<forall>x k. pl_byID p x = Some k \<longleftrightarrow> k < length (pl_backends p) \<and> bk_id (backend_at p k) = x))"

text \<open>What construction establishes: the registry gives the first 1024 backends a breaker each.\<close>

definition built :: "'c pool \<Rightarrow> bool" where
  "built p =
     (registry_counted (pl_breakers p) \<and> registry_cap (pl_breakers p) = 1024 \<and>
      registry_keys (pl_breakers p) = set (take 1024 (map bk_id (pl_backends p))) \<and>
      distinct (map bk_id (pl_backends p)) \<and>
      (\<forall>k < length (pl_backends p).
         bk_breaker (backend_at p k) = (if k < 1024 then Named (bk_id (backend_at p k)) else Overflow) \<and>
         bk_id (backend_at p k) \<noteq> [] \<and> 0 < bk_weight (backend_at p k) \<and>
         pl_byID p (bk_id (backend_at p k)) = Some k) \<and>
      dom (pl_byID p) = bk_id ` set (pl_backends p))"

lemma byID_nth: "built p \<Longrightarrow> pl_byID p x = Some k \<longleftrightarrow> k < length (pl_backends p) \<and> bk_id (backend_at p k) = x"
proof
  assume b: "built p" and s: "pl_byID p x = Some k"
  then have "x \<in> bk_id ` set (pl_backends p)" by (auto simp: built_def)
  then obtain j where j: "j < length (pl_backends p)" "bk_id (backend_at p j) = x" by (auto simp: in_set_conv_nth)
  then have "pl_byID p x = Some j" using b by (auto simp: built_def)
  then show "k < length (pl_backends p) \<and> bk_id (backend_at p k) = x" using s j by simp
next
  assume "built p" "k < length (pl_backends p) \<and> bk_id (backend_at p k) = x"
  then show "pl_byID p x = Some k" by (auto simp: built_def)
qed

lemma breaker_put_counted:
  "registry_counted r \<Longrightarrow> breaker_at r ref = Some b \<Longrightarrow> breaker_inv b' \<Longrightarrow> br_name b' = br_name b \<Longrightarrow>
   registry_counted (breaker_put r ref b')"
  by (simp add: registry_counted_def breaker_put_inv breaker_put_dom)

lemma breaker_put_keys:
  "breaker_at r ref = Some b \<Longrightarrow> registry_keys (breaker_put r ref b') = registry_keys r"
  "registry_cap (breaker_put r ref b') = registry_cap r"
  by (simp_all add: registry_keys_def registry_cap_def breaker_put_dom)

text \<open>The registry after \<open>newBackend\<close> and the reference it chose.\<close>

lemma newBackend_result:
  assumes "newBackend p i bc en dial m clock = Inr (p', b, calls)" "registry_counted (pl_breakers p)"
  obtains conn where
    "dial i (cb_Addr bc) = Inr conn" "cb_ID bc \<noteq> []" "cb_Addr bc \<noteq> []" "pl_byID p (cb_ID bc) = None"
    "b = \<lparr>bk_id = cb_ID bc, bk_addr = cb_Addr bc, bk_weight = (if cb_Weight bc \<le> 0 then DefaultWeight else cb_Weight bc),
       bk_conn = conn, bk_breaker = snd (Registry_Get (pl_breakers p) (cb_ID bc) (clock i)),
       bk_breakerEnabled = en, bk_state = StateUnknown\<rparr>"
    "p' = p\<lparr>pl_breakers := pl_breakers p'\<rparr>" "registry_counted (pl_breakers p')"
    "registry_cap (pl_breakers p') = registry_cap (pl_breakers p)"
    "registry_keys (pl_breakers p') = registry_keys (fst (Registry_Get (pl_breakers p) (cb_ID bc) (clock i)))"
proof -
  obtain conn where d: "dial i (cb_Addr bc) = Inr conn" and g: "cb_ID bc \<noteq> []" "cb_Addr bc \<noteq> []" "pl_byID p (cb_ID bc) = None"
    using assms(1) by (auto simp: newBackend_def split: if_splits sum.splits)
  obtain reg ref where r: "Registry_Get (pl_breakers p) (cb_ID bc) (clock i) = (reg, ref)" by fastforce
  have reg: "registry_counted reg" "registry_cap reg = registry_cap (pl_breakers p)"
    using Registry_Get_counted [OF assms(2), of "cb_ID bc" "clock i"] Registry_Get_set [of "pl_breakers p" "cb_ID bc" "clock i"]
    by (simp_all add: r registry_cap_def)
  have b: "b = \<lparr>bk_id = cb_ID bc, bk_addr = cb_Addr bc, bk_weight = (if cb_Weight bc \<le> 0 then DefaultWeight else cb_Weight bc),
       bk_conn = conn, bk_breaker = ref, bk_breakerEnabled = en, bk_state = StateUnknown\<rparr>"
    and p': "p' = p\<lparr>pl_breakers := pl_breakers p'\<rparr>"
    and eq: "pl_breakers p' = reg \<or> (\<exists>br. breaker_at reg ref = Some br \<and>
      pl_breakers p' = breaker_put reg ref (fst (Breaker_State br (clock i))))"
    using assms(1) d g by (auto simp: newBackend_def r Let_def split_beta split: if_splits option.splits)
  have "registry_counted (pl_breakers p') \<and> registry_cap (pl_breakers p') = registry_cap reg \<and>
      registry_keys (pl_breakers p') = registry_keys reg"
    using eq
  proof
    assume "\<exists>br. breaker_at reg ref = Some br \<and> pl_breakers p' = breaker_put reg ref (fst (Breaker_State br (clock i)))"
    then obtain br where br: "breaker_at reg ref = Some br"
      "pl_breakers p' = breaker_put reg ref (fst (Breaker_State br (clock i)))" by blast
    have "breaker_inv br" using reg(1) br(1) breaker_at_inv by (auto simp: registry_counted_def)
    then have "breaker_inv (fst (Breaker_State br (clock i)))"
      using breaker_call_inv [of br CallState "clock i"] by (simp add: split_beta Let_def)
    moreover have "br_name (fst (Breaker_State br (clock i))) = br_name br"
      using breaker_call_frame(1) [of CallState "clock i" br] by (simp add: split_beta Let_def)
    ultimately show ?thesis using reg br by (simp add: breaker_put_counted breaker_put_keys)
  qed (use reg in simp)
  then show ?thesis using that d g b p' reg r by simp
qed

definition extend :: "'c pool \<Rightarrow> nat \<Rightarrow> 'c backend \<Rightarrow> 'c pool" where
  "extend p i b = p\<lparr>pl_backends := pl_backends p @ [b], pl_byID := (pl_byID p)(bk_id b \<mapsto> i)\<rparr>"

lemma built_extend:
  assumes "built p" "length (pl_backends p) = i" "newBackend p i bc en dial m clock = Inr (p', b, calls)"
  shows "built (extend p' i b)"
proof -
  have cnt: "registry_counted (pl_breakers p)" using assms(1) by (simp add: built_def)
  obtain conn where *: "dial i (cb_Addr bc) = Inr conn" "cb_ID bc \<noteq> []" "pl_byID p (cb_ID bc) = None"
    "b = \<lparr>bk_id = cb_ID bc, bk_addr = cb_Addr bc, bk_weight = (if cb_Weight bc \<le> 0 then DefaultWeight else cb_Weight bc),
       bk_conn = conn, bk_breaker = snd (Registry_Get (pl_breakers p) (cb_ID bc) (clock i)),
       bk_breakerEnabled = en, bk_state = StateUnknown\<rparr>"
    "p' = p\<lparr>pl_breakers := pl_breakers p'\<rparr>" "registry_counted (pl_breakers p')"
    "registry_cap (pl_breakers p') = registry_cap (pl_breakers p)"
    "registry_keys (pl_breakers p') = registry_keys (fst (Registry_Get (pl_breakers p) (cb_ID bc) (clock i)))"
    using newBackend_result [OF assms(3) cnt] by metis
  have "dom (pl_byID p) = bk_id ` set (pl_backends p)" using assms(1) by (simp add: built_def)
  then have new: "cb_ID bc \<notin> bk_id ` set (pl_backends p)" using *(3) by blast
  let ?ids = "map bk_id (pl_backends p)"
  have keys: "registry_keys (pl_breakers p) = set (take 1024 ?ids)" "registry_cap (pl_breakers p) = 1024"
    using assms(1) by (simp_all add: built_def)
  have nk: "cb_ID bc \<notin> registry_keys (pl_breakers p)" using new keys(1) by (auto dest: in_set_takeD)
  have card: "card (registry_keys (pl_breakers p)) = min 1024 i"
    using assms(1,2) by (simp add: keys(1) distinct_card built_def min.commute)
  have get: "registry_keys (fst (Registry_Get (pl_breakers p) (cb_ID bc) (clock i))) = set (take 1024 (?ids @ [cb_ID bc])) \<and>
    snd (Registry_Get (pl_breakers p) (cb_ID bc) (clock i)) = (if i < 1024 then Named (cb_ID bc) else Overflow)"
  proof (cases "i < 1024")
    case True
    then show ?thesis using reg.room [OF cnt nk] card keys assms(2) by (simp add: take_Cons')
  next
    case False
    then show ?thesis using reg.full [OF cnt nk] card keys assms(2) by simp
  qed
  have pf: "pl_backends p' = pl_backends p" "pl_byID p' = pl_byID p" by (subst *(5), simp)+
  have "registry_keys (pl_breakers p') = set (take 1024 (map bk_id (pl_backends p @ [b])))"
    using get *(8) by (simp add: *(4))
  moreover have "bk_id (backend_at p k) \<noteq> cb_ID bc" if "k < length (pl_backends p)" for k
    using new that by (metis image_eqI nth_mem)
  ultimately show ?thesis
    using assms(1,2) * new get unfolding built_def extend_def
    by (auto simp: pf nth_append less_Suc_eq DefaultWeight_def)
qed

lemma built_pool_inv: "built p \<Longrightarrow> pool_inv p"
proof -
  assume b: "built p"
  have "breaker_at (pl_breakers p) (bk_breaker (backend_at p k)) \<noteq> None" if "k < length (pl_backends p)" for k
  proof (cases "k < 1024")
    case True
    then have "bk_id (backend_at p k) \<in> set (take 1024 (map bk_id (pl_backends p)))"
      using that by (metis (no_types, lifting) length_map length_take min_less_iff_conj nth_map nth_mem nth_take)
    then have "bk_id (backend_at p k) \<in> dom (rg_breakers (pl_breakers p))"
      using b by (simp add: built_def registry_keys_def)
    then show ?thesis using b True that by (auto simp: built_def)
  next
    case False
    then show ?thesis using b that by (simp add: built_def)
  qed
  then have "\<forall>x \<in> set (pl_backends p). breaker_at (pl_breakers p) (bk_breaker x) \<noteq> None \<and> bk_id x \<noteq> [] \<and> 0 < bk_weight x"
    using b by (fastforce simp: built_def in_set_conv_nth)
  then show ?thesis using b byID_nth [OF b] by (simp add: pool_inv_def) (simp add: built_def registry_counted_def)
qed

lemma newPool_loop_built:
  "built p \<Longrightarrow> length (pl_backends p) = i \<Longrightarrow> newPool_loop i bcs en dial m clock p calls = Inr (q, calls') \<Longrightarrow>
   built q \<and> length (pl_backends q) = i + length bcs \<and> take i (pl_backends q) = pl_backends p \<and>
   map bk_id (drop i (pl_backends q)) = map cb_ID bcs \<and> map bk_addr (drop i (pl_backends q)) = map cb_Addr bcs \<and>
   list_all (\<lambda>b. bk_state b = StateUnknown \<and> bk_breakerEnabled b = en) (drop i (pl_backends q)) \<and>
   pl_callbacks q = pl_callbacks p \<and> pl_closed q = pl_closed p"
proof (induction bcs arbitrary: i p calls)
  case (Cons bc bcs)
  obtain p' b c' where nb: "newBackend p i bc en dial m clock = Inr (p', b, c')"
    using Cons.prems(3) by (cases "newBackend p i bc en dial m clock") auto
  have cnt: "registry_counted (pl_breakers p)" using Cons.prems(1) by (simp add: built_def)
  obtain conn where b: "b = \<lparr>bk_id = cb_ID bc, bk_addr = cb_Addr bc, bk_weight = (if cb_Weight bc \<le> 0 then DefaultWeight else cb_Weight bc),
       bk_conn = conn, bk_breaker = snd (Registry_Get (pl_breakers p) (cb_ID bc) (clock i)),
       bk_breakerEnabled = en, bk_state = StateUnknown\<rparr>"
    and p': "p' = p\<lparr>pl_breakers := pl_breakers p'\<rparr>"
    using newBackend_result [OF nb cnt] by metis
  have pf: "pl_backends p' = pl_backends p" "pl_callbacks p' = pl_callbacks p" "pl_closed p' = pl_closed p"
    by (subst p', simp)+
  have e: "newPool_loop (i + 1) bcs en dial m clock (extend p' i b) (calls @ c') = Inr (q, calls')"
    using Cons.prems(3) by (simp add: nb extend_def)
  have "length (pl_backends (extend p' i b)) = i + 1" using Cons.prems(2) by (simp add: extend_def pf)
  note ih = Cons.IH [OF built_extend [OF Cons.prems(1,2) nb] this e]
  then have t: "take (i + 1) (pl_backends q) = pl_backends p @ [b]" by (simp add: extend_def pf)
  have "pl_backends q = (pl_backends p @ [b]) @ drop (i + 1) (pl_backends q)"
    by (metis append_take_drop_id t)
  then have d: "drop i (pl_backends q) = b # drop (i + 1) (pl_backends q)"
    using Cons.prems(2) by (metis append.assoc append_Cons append_Nil append_eq_conv_conj)
  have "take i (pl_backends q) = pl_backends p"
    using arg_cong [OF t, of "take i"] Cons.prems(2) by (simp add: min_def)
  then show ?case using ih d b by (simp add: extend_def pf)
qed simp

lemma newPool_loop_fail:
  "built p \<Longrightarrow> length (pl_backends p) = i \<Longrightarrow> newPool_loop i bcs en dial m clock p calls = Inl (err, cl) \<Longrightarrow>
   \<exists>k conns. k < length bcs \<and> cl = map bk_conn (pl_backends p) @ conns \<and> length conns = k \<and>
     (\<forall>j < k. dial (i + j) (cb_Addr (bcs ! j)) = Inr (conns ! j)) \<and>
     (cb_ID (bcs ! k) = [] \<or> cb_Addr (bcs ! k) = [] \<or>
      cb_ID (bcs ! k) \<in> bk_id ` set (pl_backends p) \<union> cb_ID ` set (take k bcs) \<or>
      (\<exists>msg. dial (i + k) (cb_Addr (bcs ! k)) = Inl msg))"
proof (induction bcs arbitrary: i p calls)
  case (Cons bc bcs)
  show ?case
  proof (cases "newBackend p i bc en dial m clock")
    case (Inl e)
    then have c: "cl = map bk_conn (pl_backends p)" using Cons.prems(3) by simp
    have "cb_ID bc = [] \<or> cb_Addr bc = [] \<or> pl_byID p (cb_ID bc) \<noteq> None \<or> (\<exists>msg. dial i (cb_Addr bc) = Inl msg)"
      using Inl by (auto simp: newBackend_def Let_def split_beta split: if_splits sum.splits)
    moreover have "pl_byID p (cb_ID bc) \<noteq> None \<Longrightarrow> cb_ID bc \<in> bk_id ` set (pl_backends p)"
      using Cons.prems(1) by (auto simp: built_def)
    ultimately show ?thesis using c by (intro exI [of _ 0] exI [of _ "[]"]) auto
  next
    case (Inr x)
    then obtain p' b c' where nb: "newBackend p i bc en dial m clock = Inr (p', b, c')" by (cases x) auto
    have cnt: "registry_counted (pl_breakers p)" using Cons.prems(1) by (simp add: built_def)
    obtain conn where b: "bk_id b = cb_ID bc" "bk_conn b = conn" and dl: "dial i (cb_Addr bc) = Inr conn"
      and p': "p' = p\<lparr>pl_breakers := pl_breakers p'\<rparr>"
      using newBackend_result [OF nb cnt] by (metis backend.select_convs(1,4))
    have pf: "pl_backends p' = pl_backends p" by (subst p', simp)
    have e: "newPool_loop (i + 1) bcs en dial m clock (extend p' i b) (calls @ c') = Inl (err, cl)"
      using Cons.prems(3) by (simp add: nb extend_def)
    have l: "length (pl_backends (extend p' i b)) = i + 1" using Cons.prems(2) by (simp add: extend_def pf)
    obtain k conns where k: "k < length bcs" "cl = map bk_conn (pl_backends p) @ conn # conns" "length conns = k"
      "\<forall>j < k. dial (i + 1 + j) (cb_Addr (bcs ! j)) = Inr (conns ! j)"
      "cb_ID (bcs ! k) = [] \<or> cb_Addr (bcs ! k) = [] \<or>
       cb_ID (bcs ! k) \<in> insert (cb_ID bc) (bk_id ` set (pl_backends p)) \<union> cb_ID ` set (take k bcs) \<or>
       (\<exists>msg. dial (i + 1 + k) (cb_Addr (bcs ! k)) = Inl msg)"
      using Cons.IH [OF built_extend [OF Cons.prems(1,2) nb] l e] by (auto simp: extend_def pf b)
    have "\<forall>j < Suc k. dial (i + j) (cb_Addr ((bc # bcs) ! j)) = Inr ((conn # conns) ! j)"
      using k(4) dl by (auto simp: less_Suc_eq_0_disj)
    then show ?thesis using k by (intro exI [of _ "Suc k"] exI [of _ "conn # conns"]) auto
  qed
qed simp

definition empty_pool :: "config \<Rightarrow> bool \<Rightarrow> go_time \<Rightarrow> 'c pool" where
  "empty_pool cfg m now = \<lparr>pl_backends = [], pl_byID = Map.empty,
     pl_breakers = NewRegistry (breakerSettings (c_CircuitBreaker cfg) m) now, pl_callbacks = [], pl_closed = None\<rparr>"

lemma empty_pool_built: "built (empty_pool cfg m now)"
  using NewRegistry_counted NewRegistry_cap [of "breakerSettings (c_CircuitBreaker cfg) m" now]
  by (simp add: built_def empty_pool_def breakerSettings_def)

lemma newPool_loop_eq: "newPool cfg m dial clock now =
    newPool_loop 0 (c_Backends cfg) (cc_Enabled (c_CircuitBreaker cfg)) dial m clock (empty_pool cfg m now) []"
  by (simp add: newPool_def empty_pool_def)

subsection \<open>Requests through a backend\<close>

definition pool_ok :: "nat \<Rightarrow> 'c pool \<Rightarrow> bool" where
  "pool_ok i p = (pool_inv p \<and> i < length (pl_backends p))"

definition pool_held :: "nat \<Rightarrow> 'c pool \<Rightarrow> int" where
  "pool_held i p = (case breaker_at (pl_breakers p) (bk_breaker (backend_at p i)) of Some b \<Rightarrow> br_probes b | None \<Rightarrow> 0)"

lemma breaker_at_put: "breaker_at r ref = Some b \<Longrightarrow> breaker_at (breaker_put r ref b') ref' = (if ref' = ref then Some b' else breaker_at r ref')"
  by (cases ref; cases ref') auto

lemma pool_ok_breaker:
  assumes "pool_ok i p"
  obtains b where "breaker_at (pl_breakers p) (bk_breaker (backend_at p i)) = Some b" "breaker_inv b"
proof -
  have "backend_at p i \<in> set (pl_backends p)" using assms by (simp add: pool_ok_def)
  then have "breaker_at (pl_breakers p) (bk_breaker (backend_at p i)) \<noteq> None"
    using assms unfolding pool_ok_def pool_inv_def by blast
  then show ?thesis using that assms breaker_at_inv by (fastforce simp: pool_ok_def pool_inv_def)
qed

lemma on_breaker_ok:
  assumes "pool_ok i p" "\<And>b. breaker_inv b \<Longrightarrow> breaker_inv (fst (f b)) \<and> br_name (fst (f b)) = br_name b"
  shows "pool_ok i (fst (on_breaker p i f d))"
proof -
  obtain b where b: "breaker_at (pl_breakers p) (bk_breaker (backend_at p i)) = Some b" "breaker_inv b"
    using pool_ok_breaker [OF assms(1)] .
  have "registry_inv (breaker_put (pl_breakers p) (bk_breaker (backend_at p i)) (fst (f b)))"
    using assms(1) assms(2) [OF b(2)] b(1) by (intro breaker_put_inv) (simp_all add: pool_ok_def pool_inv_def)
  then show ?thesis using assms(1) b(1)
    by (auto simp: on_breaker_def b Let_def split_beta pool_ok_def pool_inv_def breaker_at_put)
qed

lemma Ready_frame: "breaker_inv b \<Longrightarrow> breaker_inv (fst (Ready b t)) \<and> br_name (fst (Ready b t)) = br_name b"
  using breaker_call_inv [of b CallReady t] breaker_call_frame(1) [of CallReady t b] by (simp add: split_beta Let_def)

lemma Admit_frame: "breaker_inv b \<Longrightarrow> breaker_inv (fst (Admit b t)) \<and> br_name (fst (Admit b t)) = br_name b"
  using breaker_call_inv [of b CallAdmit t] breaker_call_frame(1) [of CallAdmit t b] by (simp add: split_beta Let_def)

lemma resolve_frame: "breaker_inv b \<Longrightarrow> breaker_inv (breaker_resolve b pr r t) \<and> br_name (breaker_resolve b pr r t) = br_name b"
  using breaker_resolve_inv [of b pr r t] breaker_call_frame(1) [of "CallProbeSuccess pr" t b]
    breaker_call_frame(1) [of "CallProbeFailure pr" t b] breaker_call_frame(1) [of "CallRelease pr" t b]
  by (cases r) simp_all

lemma Available_ok: "pool_ok i p \<Longrightarrow> pool_ok i (fst (Backend_Available p i t))"
  by (simp add: Backend_Available_def on_breaker_ok Ready_frame)

lemma Reserve_ok: "pool_ok i p \<Longrightarrow> pool_ok i (fst (Backend_Reserve p i t))"
  by (simp add: Backend_Reserve_def on_breaker_ok Admit_frame Let_def)

lemma Resolve_ok: "pool_ok i p \<Longrightarrow> pool_ok i (Backend_Resolve p i pr r t)"
  by (simp add: Backend_Resolve_def on_breaker_ok resolve_frame)

lemma SetState_ok: "pool_ok i p \<Longrightarrow> pool_ok i (fst (Backend_SetState p i s))"
proof -
  assume p: "pool_ok i p"
  let ?b = "(backend_at p i)\<lparr>bk_state := s\<rparr>"
  let ?Q = "\<lambda>b. breaker_at (pl_breakers p) (bk_breaker b) \<noteq> None \<and> bk_id b \<noteq> [] \<and> 0 < bk_weight b"
  have id: "bk_id ((pl_backends p)[i := ?b] ! k) = bk_id (backend_at p k)" if "k < length (pl_backends p)" for k
    using that by (cases "k = i") simp_all
  have ids: "map bk_id ((pl_backends p)[i := ?b]) = map bk_id (pl_backends p)"
    by (rule nth_equalityI) (simp_all add: id)
  have q: "list_all ?Q (pl_backends p)" "i < length (pl_backends p)" using p by (simp_all add: pool_ok_def pool_inv_def list_all_iff)
  then have "?Q (backend_at p i)" by (simp add: list_all_length)
  then have "list_all ?Q ((pl_backends p)[i := ?b])" by (intro list_all_update q(1)) simp
  then show ?thesis using p ids id
    by (auto simp: Backend_SetState_def pool_ok_def pool_inv_def list_all_iff)
qed

definition backend_ready :: "nat \<Rightarrow> 'c pool \<Rightarrow> go_time \<Rightarrow> bool" where
  "backend_ready i p t = snd (snd (Backend_Available p i t))"

definition backend_admit :: "nat \<Rightarrow> 'c pool \<Rightarrow> go_time \<Rightarrow> 'c pool \<times> probe \<times> bool" where
  "backend_admit i p t = (let (p', _, pr, ok) = Backend_Reserve p i t in (p', pr, ok))"

definition backend_resolve :: "nat \<Rightarrow> 'c pool \<Rightarrow> probe \<Rightarrow> resolution \<Rightarrow> go_time \<Rightarrow> 'c pool" where
  "backend_resolve i p pr r t = Backend_Resolve p i pr r t"

lemma on_breaker_held:
  assumes "pool_ok i p" "breaker_at (pl_breakers p) (bk_breaker (backend_at p i)) = Some b"
  shows "on_breaker p i f d = (p\<lparr>pl_breakers := breaker_put (pl_breakers p) (bk_breaker (backend_at p i)) (fst (f b))\<rparr>, snd (f b))"
    and "breaker_at (pl_breakers (fst (on_breaker p i f d))) (bk_breaker (backend_at (fst (on_breaker p i f d)) i)) = Some (fst (f b))"
  using assms by (simp_all add: on_breaker_def Let_def split_beta breaker_at_put)

lemma Resolve_held:
  assumes "pool_ok i p" "breaker_at (pl_breakers p) (bk_breaker (backend_at p i)) = Some b"
  shows "pool_held i (Backend_Resolve p i pr r t) = br_probes (breaker_resolve b pr r t)"
  using on_breaker_held(2) [OF assms, of "\<lambda>b. (breaker_resolve b pr r t, ())" "()"]
  by (simp add: Backend_Resolve_def pool_held_def)

interpretation backend_gate: admission_gate "pool_ok i" "pool_held i" "backend_ready i" "backend_admit i" "backend_resolve i" for i
proof
  fix p :: "'a pool" and t assume p: "pool_ok i p"
  obtain b where b: "breaker_at (pl_breakers p) (bk_breaker (backend_at p i)) = Some b" "breaker_inv b"
    using pool_ok_breaker [OF p] .
  show "pool_ok i (fst (backend_admit i p t))"
    using Reserve_ok [OF p, of t] by (simp add: backend_admit_def split_beta Let_def)
  show "pool_ok i (backend_resolve i p pr r t)" for pr r t
    using Resolve_ok [OF p] by (simp add: backend_resolve_def)
  show "0 \<le> pool_held i p" using b by (simp add: pool_held_def breaker_inv_def)
  show "backend_ready i p t = snd (snd (backend_admit i p t))"
    using breaker_gate.ready_admit [OF b(2), of t] b(1)
    by (simp add: backend_ready_def backend_admit_def Backend_Available_def Backend_Reserve_def
        on_breaker_held(1) [OF p b(1)] Let_def split_beta breaker_ready_def breaker_admit_def)
  fix r u
  show "pool_held i (backend_resolve i (fst (backend_admit i p t)) (fst (snd (backend_admit i p t))) r u) \<le> pool_held i p"
  proof (cases "Backend_Healthy p i \<and> bk_breakerEnabled (backend_at p i)")
    case True
    let ?q = "fst (on_breaker p i (\<lambda>b. Admit b t) ([], zero_probe, False))"
    have "pool_ok i ?q" using p by (simp add: on_breaker_ok Admit_frame)
    from Resolve_held [OF this on_breaker_held(2) [OF p b(1)]]
    show ?thesis using True breaker_gate.resolve_returns [OF b(2), of t r u]
      by (simp add: backend_admit_def backend_resolve_def Backend_Reserve_def Let_def split_beta
          on_breaker_held(1) [OF p b(1)] breaker_admit_def pool_held_def [of i p] b(1))
  next
    case False
    then have "backend_admit i p t = (p, Unattributed b, Backend_Healthy p i)"
      using b(1) by (auto simp: backend_admit_def Backend_Reserve_def Let_def)
    then show ?thesis
      using Resolve_held [OF p b(1)] resolve_probes [OF b(2), of "Unattributed b" r u] b(1)
      by (simp add: backend_resolve_def pool_held_def [of i p] Unattributed_def)
  qed
qed

definition sample_pool :: "nat pool" where
  "sample_pool = \<lparr>pl_backends = [\<lparr>bk_id = ''b'', bk_addr = ''h:1'', bk_weight = 100, bk_conn = 0,
       bk_breaker = Named ''b'', bk_breakerEnabled = True, bk_state = StateHealthy\<rparr>],
     pl_byID = [''b'' \<mapsto> 0],
     pl_breakers = (NewRegistry sample_settings 0)\<lparr>rg_breakers := [''b'' \<mapsto> sample_half_open], rg_n := 1\<rparr>,
     pl_callbacks = [], pl_closed = None\<rparr>"

lemma sample_pool_ok: "pool_ok 0 sample_pool"
proof -
  have n: "br_name sample_half_open = ''b''" by code_simp
  have "registry_inv (pl_breakers sample_pool)"
    using NewRegistry_inv [of sample_settings 0] sample_half_open_inv n
    by (simp add: sample_pool_def registry_inv_def)
  then show ?thesis by (simp add: pool_ok_def pool_inv_def) (auto simp: sample_pool_def)
qed

subsection \<open>Claims\<close>

text \<open>
  Construction. If \<open>newPool\<close> succeeds, the backends are the configured ones in order, with
  state unknown, positive weights and a correct index by id, and each of the first 1024 has a
  breaker of its own. If it fails at some backend, exactly the connections dialled before it are
  closed. A valid configuration fails only when a dial fails.
\<close>

theorem newPool_outcomes:
  "(newPool cfg m dial clock now = Inr (p, calls) \<longrightarrow>
      pool_inv p \<and> map bk_id (pl_backends p) = map cb_ID (c_Backends cfg) \<and>
      map bk_addr (pl_backends p) = map cb_Addr (c_Backends cfg) \<and>
      list_all (\<lambda>b. bk_state b = StateUnknown) (pl_backends p) \<and>
      (\<forall>k < length (pl_backends p). k < 1024 \<longrightarrow> bk_breaker (backend_at p k) = Named (bk_id (backend_at p k)))) \<and>
   (newPool cfg m dial clock now = Inl (err, cl) \<longrightarrow>
      (\<exists>k < length (c_Backends cfg). length cl = k \<and>
         (\<forall>j < k. dial j (cb_Addr (c_Backends cfg ! j)) = Inr (cl ! j)) \<and>
         (Validate cfg = [] \<longrightarrow> (\<exists>msg. dial k (cb_Addr (c_Backends cfg ! k)) = Inl msg))))"
proof (intro conjI impI)
  assume "newPool cfg m dial clock now = Inr (p, calls)"
  note l = newPool_loop_built [OF empty_pool_built _ this [unfolded newPool_loop_eq], simplified empty_pool_def, simplified]
  then have b: "built p" by blast
  then show "pool_inv p" by (rule built_pool_inv)
  show "map bk_id (pl_backends p) = map cb_ID (c_Backends cfg)" "map bk_addr (pl_backends p) = map cb_Addr (c_Backends cfg)"
    using l by simp_all
  show "list_all (\<lambda>b. bk_state b = StateUnknown) (pl_backends p)" using l by (simp add: list_all_iff)
  show "\<forall>k < length (pl_backends p). k < 1024 \<longrightarrow> bk_breaker (backend_at p k) = Named (bk_id (backend_at p k))"
    using b by (simp add: built_def)
next
  assume fail: "newPool cfg m dial clock now = Inl (err, cl)"
  obtain k where k: "k < length (c_Backends cfg)" "length cl = k"
    "\<forall>j < k. dial j (cb_Addr (c_Backends cfg ! j)) = Inr (cl ! j)"
    "cb_ID (c_Backends cfg ! k) = [] \<or> cb_Addr (c_Backends cfg ! k) = [] \<or>
     cb_ID (c_Backends cfg ! k) \<in> cb_ID ` set (take k (c_Backends cfg)) \<or>
     (\<exists>msg. dial k (cb_Addr (c_Backends cfg ! k)) = Inl msg)"
    using newPool_loop_fail [OF empty_pool_built _ fail [unfolded newPool_loop_eq], simplified empty_pool_def, simplified]
    by blast
  have "\<exists>msg. dial k (cb_Addr (c_Backends cfg ! k)) = Inl msg" if "Validate cfg = []"
  proof -
    have ok: "backends_ok (c_Backends cfg)" using that by (simp add: Validate_config_ok config_ok_def)
    then have "distinct (take (Suc k) (map cb_ID (c_Backends cfg)))" by (intro distinct_take) (simp add: backends_ok_def)
    then have "cb_ID (c_Backends cfg ! k) \<notin> cb_ID ` set (take k (c_Backends cfg))"
      using k(1) by (simp add: take_Suc_conv_app_nth take_map [symmetric] del: take_map)
        (simp add: take_map)
    then show ?thesis using k(1,4) ok by (auto simp: backends_ok_def list_all_length)
  qed
  then show "\<exists>k < length (c_Backends cfg). length cl = k \<and>
         (\<forall>j < k. dial j (cb_Addr (c_Backends cfg ! j)) = Inr (cl ! j)) \<and>
         (Validate cfg = [] \<longrightarrow> (\<exists>msg. dial k (cb_Addr (c_Backends cfg ! k)) = Inl msg))"
    using k by blast
qed

lemma one_backend_pool: "\<exists>p calls. newPool one_backend m (\<lambda>i a. Inr i) (\<lambda>_. 0) 0 = Inr (p :: nat pool, calls)"
  by (cases "newPool one_backend m (\<lambda>i a. Inr i) (\<lambda>_. 0) 0")
     (auto simp: newPool_def one_backend_def newBackend_def Let_def split_beta split: option.splits)

theorem newPool_outcomes_witness:
  "map bk_id (pl_backends (fst (projr (newPool one_backend False (\<lambda>i a. Inr i) (\<lambda>_. 0) 0)))) = [''a'']"
proof -
  obtain p calls where "newPool one_backend False (\<lambda>i a. Inr i) (\<lambda>_. 0) 0 = Inr (p :: nat pool, calls)"
    using one_backend_pool [of False] by blast
  then show ?thesis using newPool_outcomes [of one_backend False "\<lambda>i a. Inr i" "\<lambda>_. 0" 0 p calls]
    by (simp add: one_backend_def)
qed

text \<open>
  \<open>Available\<close> predicts \<open>Reserve\<close> and reserves nothing, and a caller that resolves what it reserved
  leaves the backend's breaker with no more outstanding probes than before, whatever the
  outcome, the health of the backend and the breaker's state.
\<close>

theorem reserve_is_available_and_returned:
  assumes "pool_ok i p"
  shows "snd (snd (Backend_Available p i t)) = snd (snd (snd (Backend_Reserve p i t))) \<and>
    pool_held i (fst (Backend_Available p i t)) \<le> pool_held i p \<and>
    (let (p', _, pr, _) = Backend_Reserve p i t in pool_held i (Backend_Resolve p' i pr r u) \<le> pool_held i p)"
proof -
  obtain b where b: "breaker_at (pl_breakers p) (bk_breaker (backend_at p i)) = Some b" "breaker_inv b"
    using pool_ok_breaker [OF assms] .
  have "br_probes (fst (Ready b t)) \<le> br_probes b"
    using b(2) by (auto simp: Ready_def Ready_locked_def refreshLocked_def setStateLocked_probes Let_def split_beta breaker_inv_def)
  then have "pool_held i (fst (Backend_Available p i t)) \<le> pool_held i p"
    using b(1) on_breaker_held(2) [OF assms b(1), of "\<lambda>b. Ready b t" "([], False)"]
    by (auto simp: Backend_Available_def pool_held_def)
  then show ?thesis
    using backend_gate.ready_admit [OF assms, of t] backend_gate.resolve_returns [OF assms, of t r u]
    by (simp add: backend_ready_def backend_admit_def backend_resolve_def split_beta Let_def)
qed

theorem reserve_is_available_and_returned_witness:
  "snd (snd (Backend_Available sample_pool 0 7)) = snd (snd (snd (Backend_Reserve sample_pool 0 7)))"
  using reserve_is_available_and_returned [OF sample_pool_ok, of 7] by blast

end
