(* ===== verification/Circuit_Callbacks.thy ===== *)
theory Circuit_Callbacks
  imports Pool "HOL-Library.Multiset"
begin

text \<open>
  The callbacks of \<^verbatim>\<open>internal/circuit/circuit.go\<close> under concurrent callers. A call decides its transitions inside the
  mutex and runs \<open>fire\<close> after releasing it, so that other goroutines get in between. Here a goroutine's call is two
  kinds of steps: the critical section, which changes the breaker and leaves the goroutine with the callbacks it has to
  make, and the callbacks, one by one. \<open>cl_log\<close> lists the transitions in the order in which they happened under the
  mutex, \<open>cl_fired\<close> the callbacks in the order in which they ran.
\<close>

record callers =
  cl_breaker :: breaker
  cl_firing :: "fired list" \<comment> \<open>by goroutine, the rest of its \<open>fire\<close> loop\<close>
  cl_fired :: fired
  cl_log :: fired
  cl_reset :: bool \<comment> \<open>\<open>Reset\<close> has been called\<close>

definition locked_call :: "nat \<Rightarrow> breaker_op \<Rightarrow> go_time \<Rightarrow> callers \<Rightarrow> callers" where
  "locked_call g c now s =
     (let (b, evs) = breaker_call c now (cl_breaker s)
      in s\<lparr>cl_breaker := b, cl_firing := (cl_firing s)[g := evs], cl_log := cl_log s @ evs, cl_reset := cl_reset s \<or> c = CallReset\<rparr>)"

definition run_callback :: "nat \<Rightarrow> callers \<Rightarrow> callers" where
  "run_callback g s = s\<lparr>cl_firing := (cl_firing s)[g := tl (cl_firing s ! g)], cl_fired := cl_fired s @ [hd (cl_firing s ! g)]\<rparr>"

inductive callers_step :: "callers \<Rightarrow> callers \<Rightarrow> bool" where
  locked: "g < length (cl_firing s) \<Longrightarrow> cl_firing s ! g = [] \<Longrightarrow> callers_step s (locked_call g c now s)"
| callback: "g < length (cl_firing s) \<Longrightarrow> cl_firing s ! g \<noteq> [] \<Longrightarrow> callers_step s (run_callback g s)"

definition callers_start :: "nat \<Rightarrow> breaker \<Rightarrow> callers" where
  "callers_start k b = \<lparr>cl_breaker = b, cl_firing = replicate k [], cl_fired = [], cl_log = [], cl_reset = False\<rparr>"

subsection \<open>Invariant\<close>

lemma mset_firing_update:
  "g < length xs \<Longrightarrow> mset (concat (xs[g := ys])) + mset (xs ! g) = mset (concat xs) + mset ys"
proof (induction xs arbitrary: g)
  case (Cons x xs)
  then show ?case
  proof (cases g)
    case (Suc j)
    then have "mset (concat (xs[j := ys])) + mset (xs ! j) = mset (concat xs) + mset ys" using Cons by simp
    then show ?thesis by (simp add: Suc add.assoc)
  qed (simp add: add.commute)
qed simp

definition callers_inv :: "string \<Rightarrow> nat \<Rightarrow> callers \<Rightarrow> bool" where
  "callers_inv name k s =
     (breaker_inv (cl_breaker s) \<and> br_onChange (cl_breaker s) \<and> br_name (cl_breaker s) = name \<and> length (cl_firing s) = k \<and>
      fired_chain (cl_reset s) name StateClosed (cl_log s) (br_state (cl_breaker s)) \<and>
      mset (cl_log s) = mset (cl_fired s) + mset (concat (cl_firing s)) \<and>
      (k = 1 \<longrightarrow> cl_log s = cl_fired s @ concat (cl_firing s)))"

lemma fired_chain_reset: "fired_chain r nm s evs t \<Longrightarrow> fired_chain (r \<or> r') nm s evs t"
  by (induction r nm s evs t rule: fired_chain.induct) (auto simp: edge_ok_def)

lemma locked_call_inv:
  assumes "callers_inv name k s" "g < k" "cl_firing s ! g = []"
  shows "callers_inv name k (locked_call g c now s)"
proof -
  obtain b evs where b: "breaker_call c now (cl_breaker s) = (b, evs)" by fastforce
  let ?r = "cl_reset s \<or> c = CallReset"
  have s: "breaker_inv (cl_breaker s)" "br_onChange (cl_breaker s)" "br_name (cl_breaker s) = name" "length (cl_firing s) = k"
    "fired_chain (cl_reset s) name StateClosed (cl_log s) (br_state (cl_breaker s))"
    "mset (cl_log s) = mset (cl_fired s) + mset (concat (cl_firing s))" "k = 1 \<longrightarrow> cl_log s = cl_fired s @ concat (cl_firing s)"
    using assms(1) by (simp_all add: callers_inv_def)
  have keep: "breaker_inv b" "br_onChange b" "br_name b = name"
    using breaker_call_inv [OF s(1), of c now] breaker_call_frame [of c now "cl_breaker s"] s(2,3) by (simp_all add: b)
  have "fired_chain ?r name (br_state (cl_breaker s)) evs (br_state b)"
    using breaker_call_chain [OF s(1,2), of c ?r now] by (simp add: b s(3))
  then have chain: "fired_chain ?r name StateClosed (cl_log s @ evs) (br_state b)" using fired_chain_reset [OF s(5)] by auto
  have pend: "mset (concat ((cl_firing s)[g := evs])) = mset (concat (cl_firing s)) + mset evs"
    using mset_firing_update [of g "cl_firing s" evs] assms(2,3) s(4) by simp
  have one: "concat ((cl_firing s)[g := evs]) = evs \<and> concat (cl_firing s) = []" if "k = 1"
    using that assms(2,3) s(4) by (cases "cl_firing s") simp_all
  show ?thesis using keep chain pend one s(4,6,7) by (auto simp: callers_inv_def locked_call_def b)
qed

lemma run_callback_inv:
  assumes "callers_inv name k s" "g < k" "cl_firing s ! g \<noteq> []"
  shows "callers_inv name k (run_callback g s)"
proof -
  obtain ev evs where f: "cl_firing s ! g = ev # evs" using assms(3) by (cases "cl_firing s ! g") simp_all
  have len: "length (cl_firing s) = k" using assms(1) by (simp add: callers_inv_def)
  have "mset (concat ((cl_firing s)[g := evs])) + mset (ev # evs) = mset (concat (cl_firing s)) + mset evs"
    using mset_firing_update [of g "cl_firing s" evs] assms(2) len f by simp
  then have pend: "mset (concat (cl_firing s)) = add_mset ev (mset (concat ((cl_firing s)[g := evs])))" by simp
  have one: "concat (cl_firing s) = ev # concat ((cl_firing s)[g := evs])" if "k = 1"
    using that assms(2) f len by (cases "cl_firing s") simp_all
  show ?thesis using assms(1) pend one by (auto simp: callers_inv_def run_callback_def f)
qed

lemma callers_inv_step:
  assumes "callers_step s s'" "callers_inv name k s"
  shows "callers_inv name k s'"
proof -
  have len: "length (cl_firing s) = k" using assms(2) by (simp add: callers_inv_def)
  from assms(1) show ?thesis by cases (use assms(2) len in \<open>auto intro: locked_call_inv run_callback_inv\<close>)
qed

lemma callers_reach_inv:
  assumes "callers_step\<^sup>*\<^sup>* (callers_start k b) s" "breaker_inv b" "br_onChange b" "br_name b = name" "br_state b = StateClosed"
  shows "callers_inv name k s"
  using assms(1)
proof (induction rule: rtranclp_induct)
  case base
  have "concat (replicate k []) = ([] :: fired)" by (induction k) simp_all
  then show ?case using assms(2-5) by (simp add: callers_inv_def callers_start_def)
next
  case (step s s')
  then show ?case using callers_inv_step by blast
qed

subsection \<open>Claims\<close>

text \<open>
  C29: the state changes of a breaker and the \<open>OnStateChange\<close> callbacks they lead to, for any number of goroutines that
  call it. The transitions, in the order in which the mutex admits them, form one chain from closed to the current
  state along legal edges, and open to closed occurs only if \<open>Reset\<close> was called. Every transition gives exactly one
  callback: the callbacks that have run and those still owed are a rearrangement of the transitions. With a single
  goroutine they also run in that order; with several they need not, since \<open>fire\<close> runs outside the mutex.
\<close>

theorem breaker_callbacks_chain:
  assumes "callers_step\<^sup>*\<^sup>* (callers_start k (NewBreaker name (s\<lparr>s_OnStateChange := True\<rparr>) t0)) x"
  shows "fired_chain (cl_reset x) name StateClosed (cl_log x) (br_state (cl_breaker x)) \<and>
    mset (cl_log x) = mset (cl_fired x) + mset (concat (cl_firing x)) \<and>
    (k = 1 \<longrightarrow> cl_log x = cl_fired x @ concat (cl_firing x))"
proof -
  let ?b = "NewBreaker name (s\<lparr>s_OnStateChange := True\<rparr>) t0"
  have "br_onChange ?b" "br_name ?b = name" "br_state ?b = StateClosed" by (simp_all add: NewBreaker_def normalize_def Let_def)
  then show ?thesis using callers_reach_inv [OF assms NewBreaker_inv] by (simp add: callers_inv_def)
qed

text \<open>
  Two goroutines: the first trips the breaker and is held up before its callback, the second finds the timeout passed,
  makes the breaker half-open and runs its callback, then the first one's callback runs.
\<close>

definition late_callback :: callers where
  "late_callback =
     run_callback 0 (run_callback 1 (locked_call 1 CallState (6 * second) (locked_call 0 CallFailure 0 (locked_call 0 CallFailure 0
       (callers_start 2 (NewBreaker ''b'' sample_settings 0))))))"

lemma locked_callI: "g < length (cl_firing s) \<Longrightarrow> cl_firing s ! g = [] \<Longrightarrow> callers_step\<^sup>*\<^sup>* x s \<Longrightarrow> callers_step\<^sup>*\<^sup>* x (locked_call g c now s)"
  by (metis callers_step.locked rtranclp.rtrancl_into_rtrancl)

lemma run_callbackI: "g < length (cl_firing s) \<Longrightarrow> cl_firing s ! g \<noteq> [] \<Longrightarrow> callers_step\<^sup>*\<^sup>* x s \<Longrightarrow> callers_step\<^sup>*\<^sup>* x (run_callback g s)"
  by (metis callers_step.callback rtranclp.rtrancl_into_rtrancl)

lemma late_callback_reach: "callers_step\<^sup>*\<^sup>* (callers_start 2 (NewBreaker ''b'' sample_settings 0)) late_callback"
  unfolding late_callback_def
  by (intro run_callbackI locked_callI rtranclp.rtrancl_refl; code_simp)

lemma late_callback_result:
  "cl_fired late_callback = [(''b'', StateOpen, StateHalfOpen), (''b'', StateClosed, StateOpen)]"
  "cl_log late_callback = [(''b'', StateClosed, StateOpen), (''b'', StateOpen, StateHalfOpen)]"
  "br_state (cl_breaker late_callback) = StateHalfOpen" "concat (cl_firing late_callback) = []"
  by code_simp+

theorem breaker_callbacks_chain_witness:
  "mset (cl_fired late_callback) = mset [(''b'', StateClosed, StateOpen), (''b'', StateOpen, StateHalfOpen)]"
proof -
  have s: "sample_settings\<lparr>s_OnStateChange := True\<rparr> = sample_settings" by (simp add: sample_settings_def)
  show ?thesis using breaker_callbacks_chain [of 2 "''b''" sample_settings 0, unfolded s, OF late_callback_reach]
    by (simp add: late_callback_result)
qed

text \<open>
  The gauge \<open>lb_circuit_state\<close> can be left at a state the breaker is no longer in. The callback of the pool sets it to the
  state its transition led to; when two callbacks run in the other order than their transitions, the gauge says open
  although the breaker is half-open, and no callback is left to correct it.
\<close>

theorem circuit_gauge_goes_stale:
  "\<exists>x. callers_step\<^sup>*\<^sup>* (callers_start 2 (NewBreaker ''b'' sample_settings 0)) x \<and> concat (cl_firing x) = [] \<and>
     br_state (cl_breaker x) = StateHalfOpen \<and>
     co_value (metrics_calls (fired_calls (cl_fired x)) m) (''lb_circuit_state'', [''b'']) = f64_of_int (State_int StateOpen)"
  by (rule exI [of _ late_callback])
     (simp add: late_callback_reach late_callback_result fired_calls_def metrics_calls_def set_value_def)

end
