(* ===== verification/Preference.thy ===== *)
theory Preference
  imports Prelude
begin

text \<open>
  What \<^verbatim>\<open>internal/balancer\<close> relies on of a ring: for every key an order of preference over the
  current members, without repetition, of which \<open>getn\<close> returns a prefix and \<open>get\<close> the head.
  \<^verbatim>\<open>internal/hashring\<close> provides it.
\<close>

locale preference_ring =
  fixes ok :: "'r \<Rightarrow> bool"
    and ids :: "'r \<Rightarrow> string set"
    and prefs :: "'r \<Rightarrow> string \<Rightarrow> string list"
    and get :: "'r \<Rightarrow> string \<Rightarrow> string option"
    and getn :: "'r \<Rightarrow> string \<Rightarrow> int \<Rightarrow> string list"
  assumes set_prefs: "ok r \<Longrightarrow> set (prefs r key) = ids r"
    and distinct_prefs: "ok r \<Longrightarrow> distinct (prefs r key)"
    and getn_prefix: "ok r \<Longrightarrow> getn r key n = take (nat n) (prefs r key)"
    and get_head: "ok r \<Longrightarrow> get r key = (case prefs r key of [] \<Rightarrow> None | i # _ \<Rightarrow> Some i)"
begin

lemma distinct_getn: "ok r \<Longrightarrow> distinct (getn r key n)"
  by (simp add: getn_prefix distinct_prefs)

lemma finite_ids: "ok r \<Longrightarrow> finite (ids r)"
  using set_prefs [of r "[]"] by (metis List.finite_set)

lemma length_prefs: "ok r \<Longrightarrow> length (prefs r key) = card (ids r)"
  using distinct_card [OF distinct_prefs] set_prefs by metis

lemma length_getn: "ok r \<Longrightarrow> length (getn r key n) = min (nat n) (card (ids r))"
  by (simp add: getn_prefix length_prefs min.commute)

lemma getn_all: "ok r \<Longrightarrow> int (card (ids r)) \<le> n \<Longrightarrow> getn r key n = prefs r key"
  by (simp add: getn_prefix length_prefs)

lemma getn_extends: "ok r \<Longrightarrow> n \<le> m \<Longrightarrow> getn r key n = take (nat n) (getn r key m)"
  by (simp add: getn_prefix min_def)

lemma get_hd_getn: "ok r \<Longrightarrow> 0 < n \<Longrightarrow> get r key = (case getn r key n of [] \<Rightarrow> None | i # _ \<Rightarrow> Some i)"
  by (cases "prefs r key"; cases "nat n") (simp_all add: getn_prefix get_head)

lemma get_member: "ok r \<Longrightarrow> (get r key = None \<longleftrightarrow> ids r = {}) \<and> (\<forall>i. get r key = Some i \<longrightarrow> i \<in> ids r)"
  using set_prefs [of r key] by (cases "prefs r key") (auto simp: get_head)

end

end
