(* ===== verification/Hashring.thy ===== *)
theory Hashring
  imports Prelude Preference
begin

text \<open>
  \<^verbatim>\<open>internal/hashring/hashring.go\<close>: the weighted consistent hash ring. The hash function
  (\<^verbatim>\<open>xxhash.Sum64String\<close>, a third-party package) is the parameter \<open>h\<close> of every definition that
  hashes. A \<open>snapshot\<close> is immutable; a \<open>ring\<close> is the configured density and the published
  snapshot, so every write is one replacement of \<open>rn_snap\<close>.
\<close>

subsection \<open>Data\<close>

record member =
  m_ID :: string
  m_Weight :: int

datatype point = Point (p_hash: "64 word") (p_owner: string)

text \<open>Points are compared by hash, then by owner.\<close>

instantiation point :: linorder
begin

definition less_eq_point :: "point \<Rightarrow> point \<Rightarrow> bool" where
  "less_eq_point a b = (p_hash a < p_hash b \<or> (p_hash a = p_hash b \<and> p_owner a \<le> p_owner b))"

definition less_point :: "point \<Rightarrow> point \<Rightarrow> bool" where
  "less_point a b = (p_hash a < p_hash b \<or> (p_hash a = p_hash b \<and> p_owner a < p_owner b))"

instance
  by standard (auto simp: less_eq_point_def less_point_def intro: point.expand)

end

record snapshot =
  sn_hashes :: "64 word list"
  sn_owners :: "string list"
  sn_members :: "member list"

record ring =
  rn_virtualNodes :: int
  rn_snap :: snapshot

subsection \<open>Building a snapshot\<close>

definition vnodeCount :: "int \<Rightarrow> int \<Rightarrow> int" where
  "vnodeCount virtualNodes weight =
     (let weight = (if weight \<le> 0 then 100 else weight);
          n = i64 (virtualNodes * weight) sdiv 100
      in if n < 1 then 1 else n)"

text \<open>The map \<open>uniq\<close> and the order in which \<open>range uniq\<close> visits its keys.\<close>

definition uniq_map :: "member list \<Rightarrow> string \<rightharpoonup> member" where
  "uniq_map members = foldl (\<lambda>u m. u(m_ID m \<mapsto> m)) Map.empty members"

definition range_uniq :: "(string list \<Rightarrow> string list) \<Rightarrow> member list \<Rightarrow> member list" where
  "range_uniq ord members = map (\<lambda>i. the (uniq_map members i)) (ord (remdups (map m_ID members)))"

definition point_name :: "string \<Rightarrow> nat \<Rightarrow> string" where
  "point_name i k = i @ ''#'' @ itoa (int k)"

definition member_points :: "(string \<Rightarrow> 64 word) \<Rightarrow> int \<Rightarrow> member \<Rightarrow> point list" where
  "member_points h vn m =
     map (\<lambda>k. Point (h (point_name (m_ID m) k)) (m_ID m)) [0..<nat (vnodeCount vn (m_Weight m))]"

definition all_points :: "(string \<Rightarrow> 64 word) \<Rightarrow> int \<Rightarrow> member list \<Rightarrow> point list" where
  "all_points h vn ms = concat (map (member_points h vn) ms)"

definition build_in ::
  "(string list \<Rightarrow> string list) \<Rightarrow> (string \<Rightarrow> 64 word) \<Rightarrow> int \<Rightarrow> member list \<Rightarrow> snapshot" where
  "build_in ord h vn members =
     (if members = [] then \<lparr>sn_hashes = [], sn_owners = [], sn_members = []\<rparr>
      else let sorted = sort_key m_ID (range_uniq ord members);
               points = sort (all_points h vn sorted)
           in \<lparr>sn_hashes = map p_hash points, sn_owners = map p_owner points, sn_members = sorted\<rparr>)"

abbreviation build :: "(string \<Rightarrow> 64 word) \<Rightarrow> int \<Rightarrow> member list \<Rightarrow> snapshot" where
  "build \<equiv> build_in (\<lambda>ids. ids)"

subsection \<open>Operations\<close>

definition Ring_New :: "(string \<Rightarrow> 64 word) \<Rightarrow> int \<Rightarrow> member list \<Rightarrow> ring" where
  "Ring_New h vn members = \<lparr>rn_virtualNodes = vn, rn_snap = build h vn members\<rparr>"

definition Ring_Set :: "(string \<Rightarrow> 64 word) \<Rightarrow> ring \<Rightarrow> member list \<Rightarrow> ring" where
  "Ring_Set h r members = r\<lparr>rn_snap := build h (rn_virtualNodes r) members\<rparr>"

definition Ring_Add :: "(string \<Rightarrow> 64 word) \<Rightarrow> ring \<Rightarrow> member \<Rightarrow> ring" where
  "Ring_Add h r m = r\<lparr>rn_snap := build h (rn_virtualNodes r) (sn_members (rn_snap r) @ [m])\<rparr>"

definition Ring_Remove :: "(string \<Rightarrow> 64 word) \<Rightarrow> ring \<Rightarrow> string \<Rightarrow> ring" where
  "Ring_Remove h r i =
     (let cur = sn_members (rn_snap r); next = filter (\<lambda>m. m_ID m \<noteq> i) cur
      in if length next = length cur then r else r\<lparr>rn_snap := build h (rn_virtualNodes r) next\<rparr>)"

definition Ring_Members :: "ring \<Rightarrow> member list" where
  "Ring_Members r = sn_members (rn_snap r)"

definition Ring_Len :: "ring \<Rightarrow> nat" where
  "Ring_Len r = length (sn_members (rn_snap r))"

definition Ring_VirtualNodes :: "ring \<Rightarrow> nat" where
  "Ring_VirtualNodes r = length (sn_hashes (rn_snap r))"

definition snap_index :: "snapshot \<Rightarrow> 64 word \<Rightarrow> nat" where
  "snap_index s x =
     (let i = sort_Search (length (sn_hashes s)) (\<lambda>i. sn_hashes s ! i \<ge> x)
      in if i = length (sn_hashes s) then 0 else i)"

definition Ring_Get :: "(string \<Rightarrow> 64 word) \<Rightarrow> ring \<Rightarrow> string \<Rightarrow> string option" where
  "Ring_Get h r key =
     (let s = rn_snap r
      in if length (sn_hashes s) = 0 then None else Some (sn_owners s ! snap_index s (h key)))"

fun getn_loop :: "snapshot \<Rightarrow> nat \<Rightarrow> nat \<Rightarrow> nat list \<Rightarrow> string list \<Rightarrow> string list" where
  "getn_loop s start n [] out = out"
| "getn_loop s start n (i # is) out =
     (let owner = sn_owners s ! ((start + i) mod length (sn_hashes s))
      in if owner \<in> set out then getn_loop s start n is out
         else let out = out @ [owner]
              in if length out = n then out else getn_loop s start n is out)"

definition Ring_GetN :: "(string \<Rightarrow> 64 word) \<Rightarrow> ring \<Rightarrow> string \<Rightarrow> int \<Rightarrow> string list" where
  "Ring_GetN h r key n =
     (if n \<le> 0 then []
      else let s = rn_snap r
           in if length (sn_hashes s) = 0 then []
              else let n = (if n > int (length (sn_members s)) then int (length (sn_members s)) else n)
                   in getn_loop s (snap_index s (h key)) (nat n) [0..<length (sn_hashes s)] [])"

subsection \<open>The snapshot invariant\<close>

definition snap_points :: "snapshot \<Rightarrow> point list" where
  "snap_points s = map2 Point (sn_hashes s) (sn_owners s)"

definition snapshot_inv :: "(string \<Rightarrow> 64 word) \<Rightarrow> int \<Rightarrow> snapshot \<Rightarrow> bool" where
  "snapshot_inv h vn s =
     (length (sn_hashes s) = length (sn_owners s) \<and>
      sorted (map m_ID (sn_members s)) \<and> distinct (map m_ID (sn_members s)) \<and>
      sorted (snap_points s) \<and> mset (snap_points s) = mset (all_points h vn (sn_members s)))"

definition ring_inv :: "(string \<Rightarrow> 64 word) \<Rightarrow> ring \<Rightarrow> bool" where
  "ring_inv h r = snapshot_inv h (rn_virtualNodes r) (rn_snap r)"

text \<open>What a snapshot stands for: the members by id.\<close>

definition membership :: "snapshot \<Rightarrow> string \<rightharpoonup> member" where
  "membership s = uniq_map (sn_members s)"

lemma vnodeCount_pos: "1 \<le> vnodeCount vn w"
  by (simp add: vnodeCount_def Let_def)

lemma member_points_owner: "p_owner ` set (member_points h vn m) = {m_ID m}"
  using vnodeCount_pos [of vn "m_Weight m"] by (simp add: member_points_def image_image image_constant_conv)

lemma all_points_owner: "p_owner ` set (all_points h vn ms) = m_ID ` set ms"
  by (induction ms) (simp_all add: all_points_def image_Un member_points_owner)

lemma uniq_map_snoc [simp]: "uniq_map (ms @ [m]) = (uniq_map ms)(m_ID m \<mapsto> m)"
  by (simp add: uniq_map_def)

lemma uniq_map_Nil [simp]: "uniq_map [] = Map.empty"
  by (simp add: uniq_map_def)

lemma uniq_map_Some: "uniq_map ms i = Some m \<Longrightarrow> m \<in> set ms \<and> m_ID m = i"
  by (induction ms rule: rev_induct) (auto split: if_splits)

lemma dom_uniq_map: "dom (uniq_map ms) = m_ID ` set ms"
  by (induction ms rule: rev_induct) (simp_all del: fun_upd_apply)

lemma uniq_map_distinct: "distinct (map m_ID ms) \<Longrightarrow> m \<in> set ms \<Longrightarrow> uniq_map ms (m_ID m) = Some m"
  by (induction ms rule: rev_induct) (auto simp: image_iff)

text \<open>The order of iteration over the map does not matter.\<close>

lemma range_uniq_ids:
  assumes "mset (ord (remdups (map m_ID ms))) = mset (remdups (map m_ID ms))"
  shows "map m_ID (range_uniq ord ms) = ord (remdups (map m_ID ms))"
proof -
  have "set (ord (remdups (map m_ID ms))) = m_ID ` set ms"
    using mset_eq_setD [OF assms] by simp
  then have "m_ID (the (uniq_map ms i)) = i" if "i \<in> set (ord (remdups (map m_ID ms)))" for i
    using that dom_uniq_map [of ms] uniq_map_Some by (metis domD option.sel)
  then show ?thesis by (simp add: range_uniq_def map_idI)
qed

lemma range_uniq_mset:
  "mset (ord (remdups (map m_ID ms))) = mset (remdups (map m_ID ms)) \<Longrightarrow>
   mset (range_uniq ord ms) = mset (range_uniq (\<lambda>ids. ids) ms)"
  by (simp add: range_uniq_def)

lemma map_sort_key: "map k (sort_key k xs) = sort (map k xs)"
  by (rule properties_for_sort [symmetric]) simp_all

lemma sort_key_unique:
  assumes "mset xs = mset ys" "distinct (map k xs)"
  shows "sort_key k xs = sort_key k ys"
proof -
  have "mset (map k xs) = mset (map k ys)" using assms(1) by simp
  then have "map k (sort_key k xs) = map k (sort_key k ys)"
    unfolding map_sort_key by (metis sorted_list_of_multiset_mset)
  moreover have "set ys = set xs" using mset_eq_setD [OF assms(1)] by simp
  ultimately show ?thesis using assms(2) by (simp add: distinct_map inj_on_map_eq_map)
qed

lemma build_in_order:
  assumes "mset (ord (remdups (map m_ID ms))) = mset (remdups (map m_ID ms))"
  shows "build_in ord h vn ms = build h vn ms"
proof -
  have "distinct (map m_ID (range_uniq ord ms))"
    unfolding range_uniq_ids [of ord ms, OF assms] using mset_eq_imp_distinct_iff [OF assms] by simp
  then have "sort_key m_ID (range_uniq ord ms) = sort_key m_ID (range_uniq (\<lambda>ids. ids) ms)"
    by (rule sort_key_unique [OF range_uniq_mset [of ord ms, OF assms]])
  then show ?thesis by (simp add: build_in_def)
qed

text \<open>The built snapshot depends on the membership only.\<close>

definition member_list :: "(string \<rightharpoonup> member) \<Rightarrow> member list" where
  "member_list u = map (\<lambda>i. the (u i)) (sorted_list_of_set (dom u))"

lemma build_members: "sn_members (build h vn ms) = member_list (uniq_map ms)"
proof -
  let ?r = "range_uniq (\<lambda>ids. ids) ms"
  let ?d = "sorted_list_of_set (dom (uniq_map ms))"
  have fin: "finite (dom (uniq_map ms))" by (simp add: dom_uniq_map)
  have ids: "map m_ID (member_list (uniq_map ms)) = ?d"
    unfolding member_list_def map_map using fin
    by (intro map_idI) (metis comp_apply domD option.sel set_sorted_list_of_set uniq_map_Some)
  have "mset ?d = mset (remdups (map m_ID ms))"
    using fin by (simp add: set_eq_iff_mset_eq_distinct [symmetric] dom_uniq_map)
  then have m: "mset (member_list (uniq_map ms)) = mset ?r"
    by (simp add: member_list_def range_uniq_def)
  have "sort_key m_ID ?r = sort_key m_ID (member_list (uniq_map ms))"
    by (rule sort_key_unique) (use m range_uniq_ids [of "\<lambda>ids. ids" ms] in simp_all)
  also have "\<dots> = member_list (uniq_map ms)"
    by (rule sort_key_id_if_sorted) (simp add: ids)
  finally show ?thesis by (simp add: build_in_def Let_def member_list_def)
qed

lemma zip_points [simp]: "map2 Point (map p_hash ps) (map p_owner ps) = ps"
  by (induction ps) simp_all

lemma build_points: "snap_points (build h vn ms) = sort (all_points h vn (sn_members (build h vn ms)))"
  by (simp add: build_in_def snap_points_def Let_def all_points_def)

lemma build_det: "uniq_map ms = uniq_map ms' \<Longrightarrow> build h vn ms = build h vn ms'"
proof -
  assume u: "uniq_map ms = uniq_map ms'"
  have "m_ID ` set ms = m_ID ` set ms'" using u dom_uniq_map [of ms] dom_uniq_map [of ms'] by simp
  then have "ms = [] \<longleftrightarrow> ms' = []" by (metis image_is_empty set_empty)
  moreover have "sn_members (build h vn ms) = sn_members (build h vn ms')" by (simp only: build_members u)
  ultimately show ?thesis by (simp add: build_in_def Let_def split: if_splits)
qed

lemma member_list_ids:
  "finite (dom u) \<Longrightarrow> (\<And>i m. u i = Some m \<Longrightarrow> m_ID m = i) \<Longrightarrow>
   map m_ID (member_list u) = sorted_list_of_set (dom u)"
  unfolding member_list_def map_map
  by (intro map_idI) (metis comp_apply domD option.sel set_sorted_list_of_set)

lemma build_inv: "snapshot_inv h vn (build h vn ms)"
proof -
  have "map m_ID (sn_members (build h vn ms)) = sorted_list_of_set (dom (uniq_map ms))"
    unfolding build_members by (rule member_list_ids) (auto simp: dom_uniq_map dest: uniq_map_Some)
  moreover have "length (sn_hashes (build h vn ms)) = length (sn_owners (build h vn ms))"
    by (simp add: build_in_def Let_def)
  ultimately show ?thesis by (simp add: snapshot_inv_def build_points)
qed

lemma set_member_list: "finite (dom u) \<Longrightarrow> set (member_list u) = ran u"
  by (force simp: member_list_def ran_def dom_def image_iff)

lemma membership_build: "membership (build h vn ms) = uniq_map ms"
proof
  fix i
  have fin: "finite (dom (uniq_map ms))" by (simp add: dom_uniq_map)
  have d: "distinct (map m_ID (sn_members (build h vn ms)))" using build_inv by (simp add: snapshot_inv_def)
  have r: "set (sn_members (build h vn ms)) = ran (uniq_map ms)"
    unfolding build_members by (rule set_member_list [OF fin])
  show "membership (build h vn ms) i = uniq_map ms i"
  proof (cases "uniq_map ms i")
    case None
    then have "i \<notin> m_ID ` ran (uniq_map ms)"
      by (auto simp: ran_def dest: uniq_map_Some) (metis None option.distinct(1) uniq_map_Some)
    then have "i \<notin> dom (membership (build h vn ms))" by (simp add: membership_def dom_uniq_map r)
    then show ?thesis using None by auto
  next
    case (Some m)
    then have "m \<in> set (sn_members (build h vn ms))" "m_ID m = i"
      using r by (auto simp: ran_def dest: uniq_map_Some)
    then show ?thesis using uniq_map_distinct [OF d, of m] Some by (simp add: membership_def)
  qed
qed

subsection \<open>Lookup\<close>

lemma sorted_points_hashes: "sorted ps \<Longrightarrow> sorted (map p_hash ps)"
  by (rule sorted_map_mono) (auto simp: mono_on_def less_eq_point_def)

lemma snap_points_hash:
  "length (sn_hashes s) = length (sn_owners s) \<Longrightarrow> map p_hash (snap_points s) = sn_hashes s"
  "length (sn_hashes s) = length (sn_owners s) \<Longrightarrow> map p_owner (snap_points s) = sn_owners s"
  by (simp_all add: snap_points_def comp_def split_def)

lemma snapshot_inv_sorted: "snapshot_inv h vn s \<Longrightarrow> sorted (sn_hashes s)"
  using sorted_points_hashes [of "snap_points s"] by (simp add: snapshot_inv_def snap_points_hash)

lemma snap_search:
  assumes "sorted (sn_hashes s)" and i: "i = sort_Search (length (sn_hashes s)) (\<lambda>i. sn_hashes s ! i \<ge> x)"
  shows "i \<le> length (sn_hashes s) \<and> (\<forall>a < i. sn_hashes s ! a < x) \<and>
    (\<forall>a. i \<le> a \<and> a < length (sn_hashes s) \<longrightarrow> x \<le> sn_hashes s ! a)"
proof -
  have "\<forall>a b. a \<le> b \<and> b < length (sn_hashes s) \<and> x \<le> sn_hashes s ! a \<longrightarrow> x \<le> sn_hashes s ! b"
    using assms(1) by (meson order.trans sorted_nth_mono)
  from sort_Search_least [OF this] show ?thesis unfolding i by (simp add: not_le)
qed

lemma snap_index_less:
  assumes "snapshot_inv h vn s" "sn_hashes s \<noteq> []"
  shows "snap_index s x < length (sn_hashes s)"
proof -
  let ?i = "sort_Search (length (sn_hashes s)) (\<lambda>i. sn_hashes s ! i \<ge> x)"
  have "?i \<le> length (sn_hashes s)" using snap_search [OF snapshot_inv_sorted [OF assms(1)] refl] by blast
  then show ?thesis using assms(2) by (auto simp: snap_index_def Let_def)
qed

text \<open>Clockwise order from a hash: the points at or after it, then the ones before it.\<close>

definition clockwise :: "64 word \<Rightarrow> point list \<Rightarrow> point list" where
  "clockwise x ps = filter (\<lambda>p. x \<le> p_hash p) ps @ filter (\<lambda>p. p_hash p < x) ps"

lemma filter_split:
  assumes "i \<le> length xs" "\<forall>a < i. \<not> P (xs ! a)" "\<forall>a. i \<le> a \<and> a < length xs \<longrightarrow> P (xs ! a)"
  shows "filter P xs = drop i xs" "filter (\<lambda>x. \<not> P x) xs = take i xs"
proof -
  have t: "\<forall>x \<in> set (take i xs). \<not> P x" using assms(1,2) by (auto simp: in_set_conv_nth)
  have d: "\<forall>x \<in> set (drop i xs). P x"
    using assms(3) by (auto simp: in_set_conv_nth)
  have "filter P (take i xs @ drop i xs) = drop i xs" using t d by (simp add: filter_empty_conv del: append_take_drop_id)
  then show "filter P xs = drop i xs" by simp
  have "filter (\<lambda>x. \<not> P x) (take i xs @ drop i xs) = take i xs"
    using t d by (simp add: filter_empty_conv del: append_take_drop_id)
  then show "filter (\<lambda>x. \<not> P x) xs = take i xs" by simp
qed

lemma rotate_clockwise:
  assumes "snapshot_inv h vn s"
  shows "rotate (snap_index s x) (snap_points s) = clockwise x (snap_points s)"
proof -
  have len: "length (sn_hashes s) = length (sn_owners s)" using assms by (simp add: snapshot_inv_def)
  have n: "length (snap_points s) = length (sn_hashes s)" using len by (simp add: snap_points_def)
  have nth: "a < length (sn_hashes s) \<Longrightarrow> p_hash (snap_points s ! a) = sn_hashes s ! a" for a
    using len by (simp add: snap_points_def)
  define i where "i = sort_Search (length (sn_hashes s)) (\<lambda>i. sn_hashes s ! i \<ge> x)"
  have i: "i \<le> length (sn_hashes s)" "\<forall>a < i. sn_hashes s ! a < x"
      "\<forall>a. i \<le> a \<and> a < length (sn_hashes s) \<longrightarrow> x \<le> sn_hashes s ! a"
    using snap_search [OF snapshot_inv_sorted [OF assms] i_def] by blast+
  have "filter (\<lambda>p. x \<le> p_hash p) (snap_points s) = drop i (snap_points s)"
    "filter (\<lambda>p. \<not> x \<le> p_hash p) (snap_points s) = take i (snap_points s)"
    by (rule filter_split; use i n nth in \<open>auto simp: not_le\<close>)+
  then have c: "clockwise x (snap_points s) = drop i (snap_points s) @ take i (snap_points s)"
    by (simp add: clockwise_def not_le)
  show ?thesis
  proof (cases "i = length (sn_hashes s)")
    case True
    then show ?thesis using c n by (simp add: snap_index_def i_def [symmetric])
  next
    case False
    then show ?thesis using c n i(1) by (simp add: snap_index_def i_def [symmetric] Let_def rotate_drop_take)
  qed
qed

subsection \<open>Preference order\<close>

text \<open>The full preference list of a key: the owners met on one clockwise lap.\<close>

definition prefs_of :: "64 word \<Rightarrow> point list \<Rightarrow> string list" where
  "prefs_of x ps = firsts (map p_owner (clockwise x ps))"

definition preference :: "(string \<Rightarrow> 64 word) \<Rightarrow> ring \<Rightarrow> string \<Rightarrow> string list" where
  "preference h r key = prefs_of (h key) (snap_points (rn_snap r))"

lemma getn_loop_firsts:
  "distinct out \<Longrightarrow> length out < n \<Longrightarrow>
   ws = map (\<lambda>i. sn_owners s ! ((start + i) mod length (sn_hashes s))) is \<Longrightarrow>
   getn_loop s start n is out = take n (out @ filter (\<lambda>w. w \<notin> set out) (firsts ws))"
proof (induction "is" arbitrary: out ws)
  case (Cons i "is")
  let ?w = "sn_owners s ! ((start + i) mod length (sn_hashes s))"
  let ?ws = "map (\<lambda>i. sn_owners s ! ((start + i) mod length (sn_hashes s))) is"
  show ?case
  proof (cases "?w \<in> set out")
    case True
    have "filter (\<lambda>w. w \<notin> set out) (filter (\<lambda>y. y \<noteq> ?w) (firsts ?ws)) = filter (\<lambda>w. w \<notin> set out) (firsts ?ws)"
      using True by (auto simp: filter_filter intro: filter_cong)
    then show ?thesis using True Cons by simp
  next
    case False
    have f: "filter (\<lambda>w. w \<notin> set out) (filter (\<lambda>y. y \<noteq> ?w) (firsts ?ws)) =
        filter (\<lambda>w. w \<notin> set (out @ [?w])) (firsts ?ws)"
      by (auto simp: filter_filter intro: filter_cong)
    show ?thesis
    proof (cases "length (out @ [?w]) = n")
      case True
      then have "n - length out = Suc 0" by simp
      then show ?thesis using True False Cons.prems by (simp add: Let_def)
    next
      case n: False
      have "getn_loop s start n is (out @ [?w]) =
          take n ((out @ [?w]) @ filter (\<lambda>w. w \<notin> set (out @ [?w])) (firsts ?ws))"
        by (rule Cons.IH) (use Cons.prems False n in auto)
      then show ?thesis using False n Cons.prems f by (simp add: Let_def)
    qed
  qed
qed simp

lemma rotate_as_map:
  "length xs = n \<Longrightarrow> 0 < n \<Longrightarrow> map (\<lambda>i. xs ! ((k + i) mod n)) [0..<n] = rotate k xs"
  by (rule nth_equalityI) (simp_all add: nth_rotate)

lemma set_clockwise [simp]: "set (clockwise x ps) = set ps"
  by (auto simp: clockwise_def)

lemma clockwise_Nil [simp]: "clockwise x ps = [] \<longleftrightarrow> ps = []"
  by (metis set_clockwise set_empty)

lemma set_preference:
  "ring_inv h r \<Longrightarrow> set (preference h r key) = m_ID ` set (Ring_Members r)"
proof -
  assume "ring_inv h r"
  then have "set (snap_points (rn_snap r)) = set (all_points h (rn_virtualNodes r) (sn_members (rn_snap r)))"
    unfolding ring_inv_def snapshot_inv_def by (blast dest: mset_eq_setD)
  then show ?thesis by (simp add: preference_def prefs_of_def Ring_Members_def all_points_owner)
qed

lemma length_preference: "ring_inv h r \<Longrightarrow> length (preference h r key) = Ring_Len r"
proof -
  assume i: "ring_inv h r"
  have "length (preference h r key) = card (set (preference h r key))"
    by (simp only: preference_def prefs_of_def distinct_card distinct_firsts)
  also have "\<dots> = card (set (map m_ID (Ring_Members r)))" by (simp add: set_preference [OF i])
  also have "\<dots> = Ring_Len r"
    using i by (subst distinct_card) (simp_all add: ring_inv_def snapshot_inv_def Ring_Members_def Ring_Len_def)
  finally show ?thesis .
qed

lemma ring_empty: "ring_inv h r \<Longrightarrow> sn_hashes (rn_snap r) = [] \<longleftrightarrow> Ring_Len r = 0"
proof -
  assume i: "ring_inv h r"
  then have "sn_hashes (rn_snap r) = [] \<longleftrightarrow> snap_points (rn_snap r) = []"
    by (auto simp: ring_inv_def snapshot_inv_def snap_points_def)
  also have "\<dots> \<longleftrightarrow> m_ID ` set (Ring_Members r) = {}"
    using set_preference [OF i, of "[]"] by (simp add: preference_def prefs_of_def) (metis image_is_empty set_empty)
  finally show ?thesis by (simp add: Ring_Members_def Ring_Len_def)
qed

lemma rotated_owners:
  assumes "ring_inv h r" "sn_hashes (rn_snap r) \<noteq> []"
  shows "map (\<lambda>i. sn_owners (rn_snap r) ! ((snap_index (rn_snap r) x + i) mod length (sn_hashes (rn_snap r))))
      [0..<length (sn_hashes (rn_snap r))] = map p_owner (clockwise x (snap_points (rn_snap r)))"
proof -
  have i: "snapshot_inv h (rn_virtualNodes r) (rn_snap r)" using assms(1) by (simp add: ring_inv_def)
  then have l: "length (sn_owners (rn_snap r)) = length (sn_hashes (rn_snap r))" by (simp add: snapshot_inv_def)
  have "map p_owner (clockwise x (snap_points (rn_snap r))) =
      rotate (snap_index (rn_snap r) x) (sn_owners (rn_snap r))"
    using snap_points_hash(2) [of "rn_snap r"] l by (simp add: rotate_clockwise [OF i, symmetric] rotate_map [symmetric])
  then show ?thesis using assms(2) rotate_as_map [OF l] by simp
qed

lemma GetN_preference:
  assumes "ring_inv h r"
  shows "Ring_GetN h r key n = take (nat n) (preference h r key)"
proof (cases "n \<le> 0 \<or> Ring_Len r = 0")
  case True
  then show ?thesis using length_preference [OF assms, of key] ring_empty [OF assms]
    by (auto simp: Ring_GetN_def)
next
  case False
  let ?s = "rn_snap r"
  let ?m = "nat (if n > int (length (sn_members ?s)) then int (length (sn_members ?s)) else n)"
  have ne: "sn_hashes ?s \<noteq> []" using False ring_empty [OF assms] by simp
  have "getn_loop ?s (snap_index ?s (h key)) ?m [0..<length (sn_hashes ?s)] [] = take ?m (preference h r key)"
    using False rotated_owners [OF assms ne, of "h key"]
    by (subst getn_loop_firsts [OF _ _ refl]) (simp_all add: Ring_Len_def preference_def prefs_of_def)
  also have "\<dots> = take (nat n) (preference h r key)"
    using length_preference [OF assms, of key] by (auto simp: Ring_Len_def)
  finally show ?thesis using False ne by (simp add: Ring_GetN_def Let_def)
qed

lemma Get_preference:
  assumes "ring_inv h r"
  shows "Ring_Get h r key = (case preference h r key of [] \<Rightarrow> None | i # _ \<Rightarrow> Some i)"
proof (cases "Ring_Len r = 0")
  case True
  then show ?thesis using length_preference [OF assms, of key] ring_empty [OF assms] by (simp add: Ring_Get_def)
next
  case False
  let ?s = "rn_snap r"
  have ne: "sn_hashes ?s \<noteq> []" using False ring_empty [OF assms] by simp
  have lt: "snap_index ?s (h key) < length (sn_hashes ?s)"
    using assms ne by (intro snap_index_less) (simp_all add: ring_inv_def)
  have "hd (preference h r key) = hd (map p_owner (clockwise (h key) (snap_points ?s)))"
    using set_preference [OF assms, of key] False
    by (auto simp: preference_def prefs_of_def Ring_Len_def Ring_Members_def intro!: hd_firsts)
  also have "\<dots> = sn_owners ?s ! snap_index ?s (h key)"
    using rotated_owners [OF assms ne, of "h key", symmetric] ne lt by (simp add: hd_map)
  finally show ?thesis using ne False length_preference [OF assms, of key]
    by (cases "preference h r key") (simp_all add: Ring_Get_def Let_def)
qed

interpretation hring: preference_ring "ring_inv h" "\<lambda>r. m_ID ` set (Ring_Members r)"
    "preference h" "Ring_Get h" "Ring_GetN h" for h
  by unfold_locales (simp_all add: set_preference GetN_preference Get_preference, simp add: preference_def prefs_of_def)

subsection \<open>Writers refine the membership map\<close>

datatype ring_op = OpSet "member list" | OpAdd member | OpRemove string

fun ring_call :: "(string \<Rightarrow> 64 word) \<Rightarrow> ring \<Rightarrow> ring_op \<Rightarrow> ring" where
  "ring_call h r (OpSet ms) = Ring_Set h r ms"
| "ring_call h r (OpAdd m) = Ring_Add h r m"
| "ring_call h r (OpRemove i) = Ring_Remove h r i"

fun membership_op :: "(string \<rightharpoonup> member) \<Rightarrow> ring_op \<Rightarrow> (string \<rightharpoonup> member)" where
  "membership_op u (OpSet ms) = uniq_map ms"
| "membership_op u (OpAdd m) = u(m_ID m \<mapsto> m)"
| "membership_op u (OpRemove i) = u(i := None)"

text \<open>Every published snapshot is the one its own members build.\<close>

definition canonical :: "(string \<Rightarrow> 64 word) \<Rightarrow> ring \<Rightarrow> bool" where
  "canonical h r = (rn_snap r = build h (rn_virtualNodes r) (sn_members (rn_snap r)))"

lemma build_canonical: "build h vn ms = build h vn (sn_members (build h vn ms))"
  by (rule build_det) (use membership_build [of h vn ms] in \<open>simp add: membership_def\<close>)

lemma canonical_inv: "canonical h r \<Longrightarrow> ring_inv h r"
  by (metis build_inv canonical_def ring_inv_def)

lemma uniq_map_filter: "uniq_map (filter (\<lambda>m. m_ID m \<noteq> i) ms) = (uniq_map ms)(i := None)"
  by (induction ms rule: rev_induct) (auto simp: fun_eq_iff)

lemma ring_call_frame [simp]: "rn_virtualNodes (ring_call h r c) = rn_virtualNodes r"
  by (cases c) (simp_all add: Ring_Set_def Ring_Add_def Ring_Remove_def Let_def)

lemma Ring_Remove_unknown:
  assumes "length (filter (\<lambda>m. m_ID m \<noteq> i) ms) = length ms"
  shows "uniq_map ms i = None"
proof -
  have "\<forall>m \<in> set ms. m_ID m \<noteq> i" using length_filter_less [of _ ms "\<lambda>m. m_ID m \<noteq> i"] assms by force
  then have "i \<notin> dom (uniq_map ms)" by (auto simp: dom_uniq_map)
  then show ?thesis by auto
qed

lemma ring_call_step:
  assumes "canonical h r"
  shows "canonical h (ring_call h r c) \<and>
    membership (rn_snap (ring_call h r c)) = membership_op (membership (rn_snap r)) c"
proof (cases c)
  case (OpSet ms)
  then show ?thesis
    using build_canonical by (simp add: canonical_def Ring_Set_def membership_build)
next
  case (OpAdd m)
  then show ?thesis
    using build_canonical by (simp add: canonical_def Ring_Add_def membership_build) (simp add: membership_def)
next
  case (OpRemove i)
  show ?thesis
  proof (cases "length (filter (\<lambda>m. m_ID m \<noteq> i) (sn_members (rn_snap r))) = length (sn_members (rn_snap r))")
    case True
    then have "membership (rn_snap r) i = None" by (simp add: membership_def Ring_Remove_unknown)
    then show ?thesis using True OpRemove assms by (auto simp: Ring_Remove_def Let_def)
  next
    case False
    then show ?thesis using OpRemove build_canonical
      by (simp add: Ring_Remove_def Let_def canonical_def membership_build uniq_map_filter)
        (simp add: membership_def)
  qed
qed

lemma ring_run_refines:
  "canonical h r \<Longrightarrow> canonical h (foldl (ring_call h) r cs) \<and>
   membership (rn_snap (foldl (ring_call h) r cs)) = foldl membership_op (membership (rn_snap r)) cs \<and>
   rn_virtualNodes (foldl (ring_call h) r cs) = rn_virtualNodes r"
  by (induction cs arbitrary: r) (simp_all add: ring_call_step)

lemma New_canonical: "canonical h (Ring_New h vn ms)"
  using build_canonical by (simp add: canonical_def Ring_New_def)

subsection \<open>Disruption\<close>

lemma all_points_filter:
  "filter (\<lambda>p. P (p_owner p)) (all_points h vn ms) = all_points h vn (filter (\<lambda>m. P (m_ID m)) ms)"
  by (induction ms) (auto simp: all_points_def member_points_def filter_empty_conv filter_id_conv)

lemma canonical_points:
  "canonical h r \<Longrightarrow> snap_points (rn_snap r) = sort (all_points h (rn_virtualNodes r) (Ring_Members r))"
  using build_points [of h "rn_virtualNodes r" "sn_members (rn_snap r)"]
  by (simp add: canonical_def Ring_Members_def)

lemma filter_prefs_of:
  "filter P (prefs_of x ps) = prefs_of x (filter (\<lambda>p. P (p_owner p)) ps)"
  by (simp add: prefs_of_def firsts_filter [symmetric] filter_map comp_def clockwise_def conj_commute)

lemma filter_sort_points: "filter P (sort (ps :: point list)) = sort (filter P ps)"
  by (rule filter_sort)

lemma members_ext:
  assumes "ring_inv h r" "ring_inv h' r'" and "\<And>i. P i \<Longrightarrow> membership (rn_snap r) i = membership (rn_snap r') i"
  shows "filter (\<lambda>m. P (m_ID m)) (Ring_Members r) = filter (\<lambda>m. P (m_ID m)) (Ring_Members r')"
proof -
  have props: "sorted (map m_ID (filter Q (Ring_Members r)))" "distinct (map m_ID (filter Q (Ring_Members r)))"
    if "ring_inv h r" for h r Q
    using that by (simp_all add: ring_inv_def snapshot_inv_def Ring_Members_def sorted_filter distinct_map_filter)
  have mem: "m \<in> set (Ring_Members r) \<longleftrightarrow> membership (rn_snap r) (m_ID m) = Some m" if "ring_inv h r" for h r m
    using that uniq_map_distinct [of "Ring_Members r" m] uniq_map_Some [of "Ring_Members r" "m_ID m" m]
    by (auto simp: ring_inv_def snapshot_inv_def Ring_Members_def membership_def)
  let ?f = "\<lambda>r. filter (\<lambda>m. P (m_ID m)) (Ring_Members r)"
  have "set (?f r) = set (?f r')" using mem [OF assms(1)] mem [OF assms(2)] assms(3) by auto
  then have "mset (?f r) = mset (?f r')"
    using props(2) [OF assms(1)] props(2) [OF assms(2)] by (metis distinct_map set_eq_iff_mset_eq_distinct)
  then have "sort_key m_ID (?f r) = sort_key m_ID (?f r')" by (rule sort_key_unique) (rule props(2) [OF assms(1)])
  then show ?thesis using props(1) [OF assms(1)] props(1) [OF assms(2)] by (metis sort_key_id_if_sorted)
qed

lemma preference_agree:
  assumes "canonical h r" "canonical h r'" "rn_virtualNodes r = rn_virtualNodes r'"
    and "\<And>i. P i \<Longrightarrow> membership (rn_snap r) i = membership (rn_snap r') i"
  shows "filter P (preference h r key) = filter P (preference h r' key)"
proof -
  have "filter (\<lambda>p. P (p_owner p)) (snap_points (rn_snap r)) = filter (\<lambda>p. P (p_owner p)) (snap_points (rn_snap r'))"
    using members_ext [OF canonical_inv [OF assms(1)] canonical_inv [OF assms(2)] assms(4)] assms(3)
    by (simp add: canonical_points [OF assms(1)] canonical_points [OF assms(2)] filter_sort_points all_points_filter)
  then show ?thesis by (simp add: preference_def filter_prefs_of)
qed

lemma set_preference_dom: "ring_inv h r \<Longrightarrow> set (preference h r key) = dom (membership (rn_snap r))"
  by (simp add: set_preference membership_def dom_uniq_map Ring_Members_def)

definition sample_hash :: "string \<Rightarrow> 64 word" where
  "sample_hash s = foldl (\<lambda>a c. 31 * a + of_nat (of_char c)) 7 s"

definition sample_ring :: ring where
  "sample_ring = Ring_New sample_hash 4 [\<lparr>m_ID = ''b'', m_Weight = 100\<rparr>, \<lparr>m_ID = ''a'', m_Weight = 50\<rparr>]"

lemma sample_ring_canonical: "canonical sample_hash sample_ring"
  unfolding sample_ring_def by (rule New_canonical)

subsection \<open>Claims\<close>

text \<open>
  \<open>build\<close> does not depend on the order in which Go iterates over the map of members, nor on the
  order of the member list: lists that agree on the last occurrence of every id give the same
  snapshot.
\<close>

theorem build_deterministic:
  assumes "mset (ord (remdups (map m_ID ms))) = mset (remdups (map m_ID ms))"
    and "uniq_map ms = uniq_map ms'"
  shows "build_in ord h vn ms = build h vn ms'"
  using build_in_order [of ord ms, OF assms(1)] build_det [OF assms(2)] by simp

theorem build_deterministic_witness:
  "build_in rev sample_hash 3 [\<lparr>m_ID = ''b'', m_Weight = 1\<rparr>, \<lparr>m_ID = ''a'', m_Weight = 50\<rparr>, \<lparr>m_ID = ''b'', m_Weight = 100\<rparr>] =
   build sample_hash 3 [\<lparr>m_ID = ''a'', m_Weight = 50\<rparr>, \<lparr>m_ID = ''b'', m_Weight = 100\<rparr>]"
  by (rule build_deterministic) (simp_all add: uniq_map_def fun_eq_iff)

text \<open>
  C18: after any sequence of \<open>Set\<close>, \<open>Add\<close> and \<open>Remove\<close> the ring is a function of the current
  membership alone, which is the map those calls describe; the points are sorted by (hash, owner),
  hold exactly the virtual nodes of every member, and the members are sorted without duplicates.
\<close>

theorem ring_refines_membership:
  "let r = foldl (ring_call h) (Ring_New h vn ms) cs
   in membership (rn_snap r) = foldl membership_op (uniq_map ms) cs \<and>
      rn_snap r = build h vn (Ring_Members r) \<and> ring_inv h r"
proof -
  let ?r = "foldl (ring_call h) (Ring_New h vn ms) cs"
  have "membership (rn_snap (Ring_New h vn ms)) = uniq_map ms"
    by (simp add: Ring_New_def membership_build)
  then have r: "canonical h ?r" "membership (rn_snap ?r) = foldl membership_op (uniq_map ms) cs" "rn_virtualNodes ?r = vn"
    using ring_run_refines [OF New_canonical, of h vn ms cs] by (simp_all add: Ring_New_def)
  have "rn_snap ?r = build h vn (Ring_Members ?r)" using r(1,3) by (simp add: canonical_def Ring_Members_def)
  then show ?thesis using r(2) canonical_inv [OF r(1)] by (simp add: Let_def)
qed

text \<open>
  \<open>index\<close> finds, by binary search, the first point at or after the hash and wraps to the first
  point of the ring when there is none.
\<close>

theorem index_is_successor:
  assumes "ring_inv h r" and "Ring_VirtualNodes r > 0"
  shows "let s = rn_snap r; i = snap_index s x
    in i < length (sn_hashes s) \<and>
       (if \<exists>y \<in> set (sn_hashes s). x \<le> y then x \<le> sn_hashes s ! i \<and> (\<forall>j < i. sn_hashes s ! j < x) else i = 0)"
proof -
  let ?s = "rn_snap r"
  have inv: "snapshot_inv h (rn_virtualNodes r) ?s" using assms(1) by (simp add: ring_inv_def)
  have ne: "sn_hashes ?s \<noteq> []" using assms(2) by (auto simp: Ring_VirtualNodes_def)
  define i where "i = sort_Search (length (sn_hashes ?s)) (\<lambda>i. sn_hashes ?s ! i \<ge> x)"
  note i = snap_search [OF snapshot_inv_sorted [OF inv] i_def]
  have idx: "snap_index ?s x = (if i = length (sn_hashes ?s) then 0 else i)"
    by (simp add: snap_index_def i_def Let_def)
  have "x \<le> sn_hashes ?s ! i \<and> i \<noteq> length (sn_hashes ?s)" if ex: "\<exists>y \<in> set (sn_hashes ?s). x \<le> y"
  proof -
    obtain j where j: "j < length (sn_hashes ?s)" "x \<le> sn_hashes ?s ! j"
      using ex by (auto simp: in_set_conv_nth)
    then have "\<not> j < i" using i by (meson not_le)
    then have "i \<noteq> length (sn_hashes ?s)" using j(1) by simp
    then show ?thesis using i by simp
  qed
  moreover have "i = length (sn_hashes ?s)" if "\<not> (\<exists>y \<in> set (sn_hashes ?s). x \<le> y)"
  proof (rule ccontr)
    assume "i \<noteq> length (sn_hashes ?s)"
    then have "i < length (sn_hashes ?s)" "x \<le> sn_hashes ?s ! i" using i by simp_all
    then show False using that nth_mem by blast
  qed
  ultimately show ?thesis using i idx snap_index_less [OF inv ne, of x] by (auto simp: Let_def)
qed

theorem index_is_successor_witness:
  "snap_index (rn_snap sample_ring) 5 < length (sn_hashes (rn_snap sample_ring))"
proof -
  have "Ring_VirtualNodes sample_ring > 0" by code_simp
  then show ?thesis
    using index_is_successor [OF canonical_inv [OF sample_ring_canonical], of 5] by (simp add: Let_def)
qed

text \<open>
  \<open>GetN\<close> returns distinct members, exactly \<open>min n (Len)\<close> of them, in an order that does not
  depend on \<open>n\<close> (asking for more only appends); its first element is \<open>Get\<close>, which fails only on an
  empty ring.
\<close>

theorem getn_preference_order:
  assumes "ring_inv h r"
  shows "distinct (Ring_GetN h r key n) \<and> set (Ring_GetN h r key n) \<subseteq> m_ID ` set (Ring_Members r) \<and>
    length (Ring_GetN h r key n) = min (nat n) (Ring_Len r) \<and>
    (n \<le> k \<longrightarrow> Ring_GetN h r key n = take (nat n) (Ring_GetN h r key k)) \<and>
    (0 < n \<longrightarrow> Ring_Get h r key = (case Ring_GetN h r key n of [] \<Rightarrow> None | i # _ \<Rightarrow> Some i)) \<and>
    (Ring_Get h r key = None \<longleftrightarrow> Ring_Len r = 0)"
proof -
  have "card (m_ID ` set (Ring_Members r)) = Ring_Len r"
    using hring.length_prefs [OF assms, of "[]"] length_preference [OF assms, of "[]"] by simp
  moreover have "set (Ring_GetN h r key n) \<subseteq> m_ID ` set (Ring_Members r)"
    using hring.getn_prefix [OF assms] hring.set_prefs [OF assms] by (metis set_take_subset)
  moreover have "Ring_Get h r key = None \<longleftrightarrow> Ring_Len r = 0"
    using hring.get_member [OF assms, of key] by (simp add: Ring_Len_def Ring_Members_def)
  ultimately show ?thesis
    using hring.distinct_getn [OF assms] hring.length_getn [OF assms, of key n]
      hring.getn_extends [OF assms, of n k key] hring.get_hd_getn [OF assms, of n key] by simp
qed

theorem getn_preference_order_witness:
  "length (Ring_GetN sample_hash sample_ring ''k'' 5) = 2"
proof -
  have "Ring_Len sample_ring = 2" by code_simp
  then show ?thesis
    using getn_preference_order [OF canonical_inv [OF sample_ring_canonical], of "''k''" 5] by simp
qed

text \<open>
  C4: consistency of the hashing. Removing a member leaves the preference order of every key as it
  was, less that member: only keys it owned get another owner, their old second choice. Adding a
  member or changing a weight leaves the relative order of all others; a key keeps its owner or
  moves to the added member.
\<close>

theorem ring_minimal_disruption:
  assumes "canonical h r"
  shows "Ring_GetN h (Ring_Remove h r i) key n = take (nat n) (filter (\<lambda>j. j \<noteq> i) (Ring_GetN h r key (int (Ring_Len r)))) \<and>
    (Ring_Get h r key \<noteq> Some i \<longrightarrow> Ring_Get h (Ring_Remove h r i) key = Ring_Get h r key) \<and>
    filter (\<lambda>j. j \<noteq> m_ID m) (Ring_GetN h (Ring_Add h r m) key (int (Ring_Len (Ring_Add h r m)))) =
      filter (\<lambda>j. j \<noteq> m_ID m) (Ring_GetN h r key (int (Ring_Len r))) \<and>
    (Ring_Get h r key \<noteq> Some (m_ID m) \<longrightarrow> Ring_Get h (Ring_Add h r m) key \<in> {Ring_Get h r key, Some (m_ID m)})"
proof -
  have all: "Ring_GetN h r' key (int (Ring_Len r')) = preference h r' key" if "canonical h r'" for r'
    using length_preference [OF canonical_inv [OF that], of key] by (simp add: GetN_preference [OF canonical_inv [OF that]])
  note rem = ring_call_step [OF assms, of "OpRemove i", simplified]
  note add = ring_call_step [OF assms, of "OpAdd m", simplified]
  have inv: "ring_inv h r" "ring_inv h (Ring_Remove h r i)" "ring_inv h (Ring_Add h r m)"
    using assms rem add by (simp_all add: canonical_inv)
  have f: "filter (\<lambda>j. j \<noteq> i) (preference h (Ring_Remove h r i) key) = filter (\<lambda>j. j \<noteq> i) (preference h r key)"
    using ring_call_frame [of h r "OpRemove i"] rem assms by (intro preference_agree) simp_all
  have "i \<notin> set (preference h (Ring_Remove h r i) key)"
    using rem by (simp add: set_preference_dom [OF inv(2)])
  then have p: "preference h (Ring_Remove h r i) key = filter (\<lambda>j. j \<noteq> i) (preference h r key)"
    using f by (metis (mono_tags, lifting) filter_id_conv)
  have a: "filter (\<lambda>j. j \<noteq> m_ID m) (preference h (Ring_Add h r m) key) = filter (\<lambda>j. j \<noteq> m_ID m) (preference h r key)"
    using ring_call_frame [of h r "OpAdd m"] add assms by (intro preference_agree) simp_all
  have "m_ID m \<in> set (preference h (Ring_Add h r m) key)"
    using add by (simp add: set_preference_dom [OF inv(3)])
  then have "Ring_Get h (Ring_Add h r m) key \<in> {Ring_Get h r key, Some (m_ID m)}" if "Ring_Get h r key \<noteq> Some (m_ID m)"
    using that a by (cases "preference h (Ring_Add h r m) key"; cases "preference h r key")
      (auto simp: Get_preference inv split: if_splits)
  moreover have "Ring_Get h (Ring_Remove h r i) key = Ring_Get h r key" if "Ring_Get h r key \<noteq> Some i"
    using that p by (cases "preference h r key") (simp_all add: Get_preference inv)
  moreover have "Ring_GetN h (Ring_Remove h r i) key n = take (nat n) (filter (\<lambda>j. j \<noteq> i) (preference h r key))"
    using p by (simp add: GetN_preference [OF inv(2)])
  moreover have "Ring_GetN h (Ring_Add h r m) key (int (Ring_Len (Ring_Add h r m))) = preference h (Ring_Add h r m) key"
    using add all by blast
  ultimately show ?thesis unfolding all [OF assms] using a by simp
qed

theorem ring_minimal_disruption_witness:
  "Ring_GetN sample_hash (Ring_Remove sample_hash sample_ring ''a'') ''k'' 1 =
     take 1 (filter (\<lambda>j. j \<noteq> ''a'') (Ring_GetN sample_hash sample_ring ''k'' (int (Ring_Len sample_ring))))"
  using ring_minimal_disruption [OF sample_ring_canonical, of "''a''" "''k''" 1 "\<lparr>m_ID = ''c'', m_Weight = 1\<rparr>"] by simp

end
