(* ===== verification/Balancer.thy ===== *)
theory Balancer
  imports Pool Hashring
begin

text \<open>
  \<^verbatim>\<open>internal/balancer/balancer.go\<close>: from an affinity key to an ordered list of backends. \<open>Pick\<close> reads the
  published snapshot and the ring, and polls health and breakers through the pool. A poll may
  move a breaker (an expired open one becomes half-open), so the pool is threaded through as part
  of a \<open>world\<close>, together with the number of clock readings made so far: the k-th reading is
  \<open>clock k\<close>. The hash function is the parameter \<open>h\<close>.
\<close>

subsection \<open>Data\<close>

record bsnapshot =
  bs_backends :: "nat list"
  bs_byID :: "string \<rightharpoonup> nat"

record balancer =
  ba_ring :: ring
  ba_m :: bool
  ba_snap :: bsnapshot
  ba_rr :: "64 word"
  ba_closed :: bool

datatype pickFilter = filterAvailable | filterHealthy | filterAny

record 'c world =
  w_pool :: "'c pool"
  w_tick :: nat
  w_fired :: fired

definition ladder :: "pickFilter list" where
  "ladder = [filterAvailable, filterHealthy, filterAny]"

subsection \<open>Picking\<close>

fun admits :: "(nat \<Rightarrow> go_time) \<Rightarrow> pickFilter \<Rightarrow> 'c world \<Rightarrow> nat \<Rightarrow> 'c world \<times> bool" where
  "admits clock filterAvailable w i =
     (let (p, ev, ok) = Backend_Available (w_pool w) i (clock (w_tick w))
      in (w\<lparr>w_pool := p, w_tick := w_tick w + 1, w_fired := w_fired w @ ev\<rparr>, ok))"
| "admits clock filterHealthy w i = (w, Backend_Healthy (w_pool w) i)"
| "admits clock filterAny w i = (w, True)"

fun collectRing ::
  "(nat \<Rightarrow> go_time) \<Rightarrow> pickFilter \<Rightarrow> nat \<Rightarrow> bsnapshot \<Rightarrow> string list \<Rightarrow> 'c world \<Rightarrow> nat list \<Rightarrow> 'c world \<times> nat list" where
  "collectRing clock f k s [] w out = (w, out)"
| "collectRing clock f k s (i # is) w out =
     (case bs_byID s i of
        None \<Rightarrow> collectRing clock f k s is w out
      | Some bk \<Rightarrow>
          (if bk \<in> set out then collectRing clock f k s is w out
           else let (w, ok) = admits clock f w bk
                in if \<not> ok then collectRing clock f k s is w out
                   else if length (out @ [bk]) = k then (w, out @ [bk])
                   else collectRing clock f k s is w (out @ [bk])))"

text \<open>\<open>collectRotation\<close> over the backends in the order in which the loop visits them.\<close>

fun collect_each ::
  "(nat \<Rightarrow> go_time) \<Rightarrow> pickFilter \<Rightarrow> nat \<Rightarrow> nat list \<Rightarrow> 'c world \<Rightarrow> nat list \<Rightarrow> 'c world \<times> nat list" where
  "collect_each clock f k [] w out = (w, out)"
| "collect_each clock f k (bk # bks) w out =
     (let (w, ok) = admits clock f w bk
      in if \<not> ok then collect_each clock f k bks w out
         else if length (out @ [bk]) = k then (w, out @ [bk])
         else collect_each clock f k bks w (out @ [bk]))"

definition collectRotation ::
  "(nat \<Rightarrow> go_time) \<Rightarrow> pickFilter \<Rightarrow> nat \<Rightarrow> nat list \<Rightarrow> nat \<Rightarrow> 'c world \<Rightarrow> nat list \<Rightarrow> 'c world \<times> nat list" where
  "collectRotation clock f k bks start w out =
     collect_each clock f k (map (\<lambda>i. bks ! ((start + i) mod length bks)) [0..<length bks]) w out"

text \<open>The first rung of a list of filters that yields a candidate.\<close>

fun walk :: "(pickFilter \<Rightarrow> 'c world \<Rightarrow> 'c world \<times> nat list) \<Rightarrow> pickFilter list \<Rightarrow> 'c world \<Rightarrow> 'c world \<times> nat list" where
  "walk g [] w = (w, [])"
| "walk g (f # fs) w = (let (w', out) = g f w in if out \<noteq> [] then (w', out) else walk g fs w')"

definition pick_keyless ::
  "(nat \<Rightarrow> go_time) \<Rightarrow> balancer \<Rightarrow> nat \<Rightarrow> 'c world \<Rightarrow> 'c world \<times> nat list" where
  "pick_keyless clock b k w =
     (let bks = bs_backends (ba_snap b); start = unat (ba_rr b) mod length bks
      in walk (\<lambda>f w. collectRotation clock f k bks start w []) ladder w)"

definition pick_keyed ::
  "(string \<Rightarrow> 64 word) \<Rightarrow> (nat \<Rightarrow> go_time) \<Rightarrow> balancer \<Rightarrow> string \<Rightarrow> nat \<Rightarrow> 'c world \<Rightarrow> 'c world \<times> nat list" where
  "pick_keyed h clock b key k w =
     (let s = ba_snap b; n = length (bs_backends s);
          ids = Ring_GetN h (ba_ring b) key (int k);
          (w, out) = collectRing clock filterAvailable k s ids w [];
          (w, out, ids) =
            (if length out < k \<and> length ids < n
             then let ids = Ring_GetN h (ba_ring b) key (int n);
                      (w, out) = collectRing clock filterAvailable k s ids w out
                  in (w, out, ids)
             else (w, out, ids))
      in if out \<noteq> [] then (w, out)
         else let (w, out) = walk (\<lambda>f w. collectRing clock f k s ids w []) (tl ladder) w
              in if out \<noteq> [] then (w, out)
                 else collectRotation clock filterAny k (bs_backends s) 0 w [])"

definition Pick ::
  "(string \<Rightarrow> 64 word) \<Rightarrow> (nat \<Rightarrow> go_time) \<Rightarrow> balancer \<Rightarrow> string \<Rightarrow> int \<Rightarrow> 'c world \<Rightarrow> 'c world \<times> balancer \<times> nat list" where
  "Pick h clock b key maxAttempts w =
     (let k = (if maxAttempts \<le> 0 then 1 else maxAttempts); n = length (bs_backends (ba_snap b))
      in if n = 0 then (w, b, [])
         else let k = nat (if k > int n then int n else k)
              in if key = [] then let (w, out) = pick_keyless clock b k w in (w, b\<lparr>ba_rr := ba_rr b + 1\<rparr>, out)
                 else let (w, out) = pick_keyed h clock b key k w in (w, b, out))"

subsection \<open>Building\<close>

definition ring_gauges :: "balancer \<Rightarrow> metric_call list" where
  "ring_gauges b =
     (if ba_m b then [SetRingMembers (int (Ring_Len (ba_ring b))), SetRingVirtualNodes (int (Ring_VirtualNodes (ba_ring b)))]
      else [])"

definition sameMembership :: "nat list \<Rightarrow> nat list \<Rightarrow> bool" where
  "sameMembership cur next = (length cur = length next \<and> list_all (\<lambda>i. cur ! i = next ! i) [0..<length next])"

definition Rebuild ::
  "(string \<Rightarrow> 64 word) \<Rightarrow> 'c pool \<Rightarrow> balancer \<Rightarrow> balancer \<times> metric_call list" where
  "Rebuild h p b =
     (if ba_closed b then (b, [])
      else let backends = Pool_Backends p;
               b = (if sameMembership (bs_backends (ba_snap b)) backends then b
                    else let members = map (\<lambda>i. \<lparr>m_ID = bk_id (backend_at p i), m_Weight = bk_weight (backend_at p i)\<rparr>) backends;
                             byID = foldl (\<lambda>u i. u(bk_id (backend_at p i) \<mapsto> i)) Map.empty backends
                         in b\<lparr>ba_ring := Ring_Set h (ba_ring b) members,
                              ba_snap := \<lparr>bs_backends = backends, bs_byID = byID\<rparr>\<rparr>)
           in (b, ring_gauges b))"

definition Balancer_New ::
  "(string \<Rightarrow> 64 word) \<Rightarrow> 'c pool \<Rightarrow> cfg_routing \<Rightarrow> bool \<Rightarrow> nat \<Rightarrow> balancer \<times> 'c pool \<times> metric_call list" where
  "Balancer_New h p cfg m callback =
     (let vnodes = (if rt_VirtualNodes cfg \<le> 0 then rt_VirtualNodes (c_Routing Default) else rt_VirtualNodes cfg);
          b = \<lparr>ba_ring = Ring_New h vnodes [], ba_m = m, ba_snap = \<lparr>bs_backends = [], bs_byID = Map.empty\<rparr>,
               ba_rr = 0, ba_closed = False\<rparr>;
          (b, calls) = Rebuild h p b
      in (b, Pool_OnChange p (Some callback), calls))"

definition Balancer_Close :: "balancer \<Rightarrow> balancer" where
  "Balancer_Close b = b\<lparr>ba_closed := True\<rparr>"

subsection \<open>Polling reserves nothing\<close>

text \<open>The backends are the same, no breaker holds more probes, and the pool invariant survives.\<close>

definition polled :: "'c pool \<Rightarrow> 'c pool \<Rightarrow> bool" where
  "polled p q =
     (pl_backends q = pl_backends p \<and> pl_byID q = pl_byID p \<and> (pool_inv p \<longrightarrow> pool_inv q) \<and>
      (pool_inv p \<longrightarrow> (\<forall>i < length (pl_backends p). pool_held i q \<le> pool_held i p)))"

lemma polled_refl [simp]: "polled p p"
  by (simp add: polled_def)

lemma polled_trans: "polled p q \<Longrightarrow> polled q r \<Longrightarrow> polled p r"
  by (fastforce simp: polled_def)

lemma Ready_probes: "breaker_inv b \<Longrightarrow> br_probes (fst (Ready b t)) \<le> br_probes b"
  by (auto simp: Ready_def Ready_locked_def refreshLocked_def setStateLocked_probes Let_def split_beta breaker_inv_def)

lemma Available_polled:
  assumes "i < length (pl_backends p)"
  shows "polled p (fst (Backend_Available p i t))"
proof (cases "pool_inv p \<and> Backend_Healthy p i \<and> bk_breakerEnabled (backend_at p i)")
  case True
  then have ok: "pool_ok i p" using assms by (simp add: pool_ok_def)
  obtain b where b: "breaker_at (pl_breakers p) (bk_breaker (backend_at p i)) = Some b" "breaker_inv b"
    using pool_ok_breaker [OF ok] .
  let ?q = "p\<lparr>pl_breakers := breaker_put (pl_breakers p) (bk_breaker (backend_at p i)) (fst (Ready b t))\<rparr>"
  have q: "fst (Backend_Available p i t) = ?q"
    using True by (simp add: Backend_Available_def on_breaker_held(1) [OF ok b(1)])
  have "pool_held j ?q \<le> pool_held j p" for j
    using Ready_probes [OF b(2), of t] b(1)
    by (cases "bk_breaker (backend_at p j) = bk_breaker (backend_at p i)") (simp_all add: pool_held_def breaker_at_put)
  moreover have "pool_inv ?q" using Available_ok [OF ok, of t] by (simp add: q pool_ok_def)
  ultimately show ?thesis by (simp add: polled_def q)
next
  case False
  then show ?thesis
    by (auto simp: Backend_Available_def polled_def on_breaker_def Let_def split_beta split: option.splits)
qed

lemma admits_polled:
  "i < length (pl_backends (w_pool w)) \<Longrightarrow> polled (w_pool w) (w_pool (fst (admits clock f w i)))"
  using Available_polled by (cases f) (simp_all add: split_beta Let_def)

text \<open>What a scan over candidates returns, whatever the filter and the clock.\<close>

definition scanned :: "nat \<Rightarrow> nat set \<Rightarrow> 'c world \<Rightarrow> nat list \<Rightarrow> 'c world \<times> nat list \<Rightarrow> bool" where
  "scanned k cand w out r =
     (polled (w_pool w) (w_pool (fst r)) \<and> distinct (snd r) \<and> set (snd r) \<subseteq> set out \<union> cand \<and>
      length (snd r) \<le> k \<and> (\<exists>new. snd r = out @ new))"

lemma collectRing_scanned:
  assumes "ran (bs_byID s) \<subseteq> {..<length (pl_backends (w_pool w))}" "distinct out" "length out < k"
  shows "scanned k (ran (bs_byID s)) w out (collectRing clock f k s is w out)"
  using assms
proof (induction "is" arbitrary: w out)
  case (Cons i "is")
  show ?case
  proof (cases "bs_byID s i")
    case None
    then show ?thesis using Cons by simp
  next
    case (Some bk)
    then have ran: "bk \<in> ran (bs_byID s)" and bk: "bk < length (pl_backends (w_pool w))"
      using Cons.prems(1) by (auto simp: ran_def)
    obtain w' ok where a: "admits clock f w bk = (w', ok)" by (cases "admits clock f w bk")
    have pol: "polled (w_pool w) (w_pool w')" using admits_polled [OF bk, of clock f] by (simp add: a)
    then have len: "length (pl_backends (w_pool w')) = length (pl_backends (w_pool w))" by (simp add: polled_def)
    consider "bk \<in> set out" | "bk \<notin> set out" "\<not> ok" | "bk \<notin> set out" "ok" "length (out @ [bk]) = k"
      | "bk \<notin> set out" "ok" "length (out @ [bk]) \<noteq> k" by blast
    then show ?thesis
    proof cases
      case 1
      then show ?thesis using Cons by (simp add: Some)
    next
      case 2
      have "scanned k (ran (bs_byID s)) w' out (collectRing clock f k s is w' out)"
        using Cons.IH [of w' out] Cons.prems by (simp add: len)
      then show ?thesis using 2 pol by (auto simp: Some a scanned_def intro: polled_trans)
    next
      case 3
      then show ?thesis using pol ran Cons.prems by (simp add: Some a scanned_def)
    next
      case 4
      have "scanned k (ran (bs_byID s)) w' (out @ [bk]) (collectRing clock f k s is w' (out @ [bk]))"
        using Cons.IH [of w' "out @ [bk]"] Cons.prems 4 by (simp add: len)
      then show ?thesis using 4 pol ran by (auto simp: Some a scanned_def intro: polled_trans)
    qed
  qed
qed (simp add: scanned_def)

lemma collect_each_scanned:
  assumes "set bks \<subseteq> {..<length (pl_backends (w_pool w))}" "distinct (out @ bks)" "length out < k"
  shows "scanned k (set bks) w out (collect_each clock f k bks w out)"
  using assms
proof (induction bks arbitrary: w out)
  case (Cons bk bks)
  obtain w' ok where a: "admits clock f w bk = (w', ok)" by (cases "admits clock f w bk")
  have pol: "polled (w_pool w) (w_pool w')" using admits_polled [of bk w clock f] Cons.prems(1) by (simp add: a)
  then have len: "length (pl_backends (w_pool w')) = length (pl_backends (w_pool w))" by (simp add: polled_def)
  consider "\<not> ok" | "ok" "length (out @ [bk]) = k" | "ok" "length (out @ [bk]) \<noteq> k" by blast
  then show ?case
  proof cases
    case 1
    have "scanned k (set bks) w' out (collect_each clock f k bks w' out)"
      using Cons.IH [of w' out] Cons.prems by (simp add: len)
    then show ?thesis using 1 pol by (auto simp: a scanned_def intro: polled_trans)
  next
    case 2
    then show ?thesis using pol Cons.prems by (auto simp: a scanned_def)
  next
    case 3
    have "scanned k (set bks) w' (out @ [bk]) (collect_each clock f k bks w' (out @ [bk]))"
      using Cons.IH [of w' "out @ [bk]"] Cons.prems 3 by (simp add: len)
    then show ?thesis using 3 pol by (auto simp: a scanned_def intro: polled_trans)
  qed
qed (simp add: scanned_def)

lemma rotation_as_rotate:
  "map (\<lambda>i. bks ! ((start + i) mod length bks)) [0..<length bks] = rotate start bks"
  by (cases "bks = []") (simp_all add: rotate_as_map)

lemma collectRotation_scanned:
  assumes "set bks \<subseteq> {..<length (pl_backends (w_pool w))}" "distinct bks" "0 < k"
  shows "scanned k (set bks) w [] (collectRotation clock f k bks start w [])"
  using collect_each_scanned [of "rotate start bks" w "[]" k clock f] assms
  by (simp add: collectRotation_def rotation_as_rotate)

lemma walk_scanned:
  assumes "\<And>f w. P w \<Longrightarrow> scanned k c w [] (g f w)" "\<And>w w'. P w \<Longrightarrow> polled (w_pool w) (w_pool w') \<Longrightarrow> P w'" "P w"
  shows "scanned k c w [] (walk g fs w)"
  using assms(3)
proof (induction fs arbitrary: w)
  case (Cons f fs)
  obtain w' out where g: "g f w = (w', out)" by (cases "g f w")
  have s: "scanned k c w [] (w', out)" using assms(1) [OF Cons.prems, of f] by (simp add: g)
  then have "P w'" using assms(2) [OF Cons.prems] by (simp add: scanned_def)
  from Cons.IH [OF this] show ?case using s by (auto simp: g scanned_def intro: polled_trans)
qed (simp add: scanned_def)

text \<open>A balancer's snapshot points into the pool; nothing is assumed of the ring here.\<close>

definition snap_ok :: "'c pool \<Rightarrow> balancer \<Rightarrow> bool" where
  "snap_ok p b =
     (set (bs_backends (ba_snap b)) \<subseteq> {..<length (pl_backends p)} \<and> distinct (bs_backends (ba_snap b)) \<and>
      ran (bs_byID (ba_snap b)) \<subseteq> set (bs_backends (ba_snap b)))"

lemma snap_ok_polled: "snap_ok p b \<Longrightarrow> polled p q \<Longrightarrow> snap_ok q b"
  by (simp add: snap_ok_def polled_def)

lemma scanned_mono: "scanned k c w out r \<Longrightarrow> c \<subseteq> d \<Longrightarrow> scanned k d w out r"
  by (auto simp: scanned_def)

lemma snap_ring_scanned:
  assumes "snap_ok (w_pool w) b" "distinct out" "length out < k"
  shows "scanned k (set (bs_backends (ba_snap b))) w out (collectRing clock f k (ba_snap b) is w out)"
  using assms by (intro scanned_mono [OF collectRing_scanned]) (auto simp: snap_ok_def)

lemma snap_rotation_scanned:
  assumes "snap_ok (w_pool w) b" "0 < k"
  shows "scanned k (set (bs_backends (ba_snap b))) w [] (collectRotation clock f k (bs_backends (ba_snap b)) start w [])"
  using assms by (intro collectRotation_scanned) (simp_all add: snap_ok_def)

lemma pick_keyless_scanned:
  assumes "snap_ok (w_pool w) b" "0 < k"
  shows "scanned k (set (bs_backends (ba_snap b))) w [] (pick_keyless clock b k w)"
  unfolding pick_keyless_def Let_def
  by (rule walk_scanned [where P = "\<lambda>w. snap_ok (w_pool w) b"])
    (use assms in \<open>auto intro: snap_rotation_scanned snap_ok_polled\<close>)

lemma pick_keyed_scanned:
  assumes "snap_ok (w_pool w) b" "0 < k"
  shows "scanned k (set (bs_backends (ba_snap b))) w [] (pick_keyed h clock b key k w)"
proof -
  let ?s = "ba_snap b" and ?c = "set (bs_backends (ba_snap b))"
  let ?ids = "Ring_GetN h (ba_ring b) key (int k)" and ?all = "Ring_GetN h (ba_ring b) key (int (length (bs_backends (ba_snap b))))"
  obtain w1 o1 where r1: "collectRing clock filterAvailable k ?s ?ids w [] = (w1, o1)" by fastforce
  have s1: "scanned k ?c w [] (w1, o1)" using snap_ring_scanned [OF assms(1), of "[]"] assms(2) by (simp flip: r1)
  then have ok1: "snap_ok (w_pool w1) b" using snap_ok_polled [OF assms(1)] by (simp add: scanned_def)
  obtain w2 o2 where r2: "collectRing clock filterAvailable k ?s ?all w1 o1 = (w2, o2)" by fastforce
  define w3 o3 i3 where "w3 = (if length o1 < k \<and> length ?ids < length (bs_backends ?s) then w2 else w1)"
    and "o3 = (if length o1 < k \<and> length ?ids < length (bs_backends ?s) then o2 else o1)"
    and "i3 = (if length o1 < k \<and> length ?ids < length (bs_backends ?s) then ?all else ?ids)"
  have s2: "scanned k ?c w1 o1 (w2, o2)" if "length o1 < k"
    using snap_ring_scanned [OF ok1 _ that, of clock filterAvailable ?all] s1 by (simp add: r2 scanned_def)
  have s3: "scanned k ?c w [] (w3, o3)"
    using s1 s2 by (auto simp: w3_def o3_def scanned_def intro: polled_trans)
  then have ok3: "snap_ok (w_pool w3) b" using snap_ok_polled [OF assms(1)] by (simp add: scanned_def)
  obtain w4 o4 where r4: "walk (\<lambda>f w. collectRing clock f k ?s i3 w []) (tl ladder) w3 = (w4, o4)" by fastforce
  have s4: "scanned k ?c w3 [] (w4, o4)"
    unfolding r4 [symmetric] by (rule walk_scanned [where P = "\<lambda>w. snap_ok (w_pool w) b"])
      (use ok3 assms(2) in \<open>auto intro: snap_ring_scanned snap_ok_polled\<close>)
  then have ok4: "snap_ok (w_pool w4) b" using snap_ok_polled [OF ok3] by (simp add: scanned_def)
  have s5: "scanned k ?c w4 [] (collectRotation clock filterAny k (bs_backends ?s) 0 w4 [])"
    by (rule snap_rotation_scanned [OF ok4 assms(2)])
  have "pick_keyed h clock b key k w = (if o3 \<noteq> [] then (w3, o3) else if o4 \<noteq> [] then (w4, o4)
      else collectRotation clock filterAny k (bs_backends ?s) 0 w4 [])"
    using r1 r2 r4 by (auto simp: pick_keyed_def Let_def w3_def o3_def i3_def)
  then show ?thesis using s3 s4 s5 by (auto simp: scanned_def intro: polled_trans)
qed

text \<open>Failing open.\<close>

lemma collect_each_any:
  "collect_each clock filterAny k bks w out = (w, out @ take (k - length out) bks)" if "length out < k"
  using that
proof (induction bks arbitrary: out)
  case (Cons bk bks)
  show ?case
  proof (cases "length (out @ [bk]) = k")
    case True
    then show ?thesis by (auto simp: take_Cons')
  next
    case False
    then show ?thesis using Cons by (simp add: take_Cons')
  qed
qed simp

lemma collectRotation_any:
  "0 < k \<Longrightarrow> collectRotation clock filterAny k bks start w [] = (w, take k (rotate start bks))"
  by (simp add: collectRotation_def rotation_as_rotate collect_each_any)

lemma pick_keyless_some:
  assumes "0 < k" "bs_backends (ba_snap b) \<noteq> []"
  shows "snd (pick_keyless clock b k w) \<noteq> []"
  using assms by (auto simp: pick_keyless_def Let_def split_beta ladder_def collectRotation_any)

lemma pick_keyed_some:
  assumes "0 < k" "bs_backends (ba_snap b) \<noteq> []"
  shows "snd (pick_keyed h clock b key k w) \<noteq> []"
  using assms by (auto simp: pick_keyed_def Let_def split_beta collectRotation_any)

subsection \<open>What is picked while the clock stands still\<close>

lemma Ready_stable:
  assumes "breaker_inv b"
  shows "snd (snd (Ready (fst (Ready b t)) t)) = snd (snd (Ready b t))"
proof -
  have fast: "br_fastState b = br_state b" "1 \<le> s_HalfOpenMax (br_set b)" using assms by (simp_all add: breaker_inv_def)
  consider "br_state b = StateClosed" | "br_state b = StateHalfOpen"
    | "br_state b = StateOpen" "s_OpenTimeout (br_set b) \<le> time_sub t (br_openedAt b)"
    | "br_state b = StateOpen" "time_sub t (br_openedAt b) < s_OpenTimeout (br_set b)"
    by (metis bstate.exhaust not_le)
  then show ?thesis
    by cases (use fast in \<open>simp_all add: Ready_def Ready_locked_def refreshLocked_not_open
        refreshLocked_open_expired refreshLocked_open_running\<close>)
qed

definition avail :: "go_time \<Rightarrow> 'c pool \<Rightarrow> nat \<Rightarrow> bool" where
  "avail now p i = snd (snd (Backend_Available p i now))"

lemma Available_stable:
  assumes "pool_inv p" "i < length (pl_backends p)" "j < length (pl_backends p)"
  shows "avail now (fst (Backend_Available p i now)) j = avail now p j \<and>
    Backend_Healthy (fst (Backend_Available p i now)) j = Backend_Healthy p j"
proof (cases "Backend_Healthy p i \<and> bk_breakerEnabled (backend_at p i)")
  case True
  have ok: "pool_ok i p" "pool_ok j p" using assms by (simp_all add: pool_ok_def)
  obtain b where b: "breaker_at (pl_breakers p) (bk_breaker (backend_at p i)) = Some b" "breaker_inv b"
    using pool_ok_breaker [OF ok(1)] .
  obtain c where c: "breaker_at (pl_breakers p) (bk_breaker (backend_at p j)) = Some c" "breaker_inv c"
    using pool_ok_breaker [OF ok(2)] .
  let ?q = "p\<lparr>pl_breakers := breaker_put (pl_breakers p) (bk_breaker (backend_at p i)) (fst (Ready b now))\<rparr>"
  have q: "fst (Backend_Available p i now) = ?q"
    using True by (simp add: Backend_Available_def on_breaker_held(1) [OF ok(1) b(1)])
  have same: "Backend_Healthy ?q j = Backend_Healthy p j" by (simp add: Backend_Healthy_def)
  show ?thesis
  proof (cases "bk_breaker (backend_at p j) = bk_breaker (backend_at p i)")
    case True
    then show ?thesis using b c same Ready_stable [OF b(2), of now]
      by (simp add: q avail_def Backend_Available_def on_breaker_def Let_def split_beta breaker_at_put)
  next
    case False
    then show ?thesis using b c same
      by (simp add: q avail_def Backend_Available_def on_breaker_def Let_def split_beta breaker_at_put)
  qed
next
  case False
  then have "fst (Backend_Available p i now) = p" by (auto simp: Backend_Available_def)
  then show ?thesis by simp
qed

text \<open>The answers of all three filters, and the worlds in which they are given by \<open>A\<close>.\<close>

fun answer :: "go_time \<Rightarrow> 'c pool \<Rightarrow> pickFilter \<Rightarrow> nat \<Rightarrow> bool" where
  "answer now p filterAvailable i = avail now p i"
| "answer now p filterHealthy i = Backend_Healthy p i"
| "answer now p filterAny i = True"

lemma answer_fun [simp]:
  "answer now p filterAvailable = avail now p" "answer now p filterHealthy = Backend_Healthy p"
  "answer now p filterAny = (\<lambda>_. True)"
  by (simp_all add: fun_eq_iff)

definition frozen :: "go_time \<Rightarrow> nat \<Rightarrow> (pickFilter \<Rightarrow> nat \<Rightarrow> bool) \<Rightarrow> 'c world \<Rightarrow> bool" where
  "frozen now n A w =
     (pool_inv (w_pool w) \<and> length (pl_backends (w_pool w)) = n \<and>
      (\<forall>f. \<forall>j < n. answer now (w_pool w) f j = A f j))"

lemma admits_frozen:
  assumes "frozen now n A w" "i < n"
  shows "snd (admits (\<lambda>_. now) f w i) = A f i \<and> frozen now n A (fst (admits (\<lambda>_. now) f w i))"
proof (cases f)
  case filterHealthy
  have "answer now (w_pool w) filterHealthy i = A filterHealthy i" using assms unfolding frozen_def by blast
  then show ?thesis using assms(1) filterHealthy by simp
next
  case filterAny
  have "answer now (w_pool w) filterAny i = A filterAny i" using assms unfolding frozen_def by blast
  then show ?thesis using assms(1) filterAny by simp
next
  case filterAvailable
  have inv: "pool_inv (w_pool w)" and n: "length (pl_backends (w_pool w)) = n" using assms(1) by (simp_all add: frozen_def)
  have i: "i < length (pl_backends (w_pool w))" using assms(2) n by simp
  have pol: "polled (w_pool w) (fst (Backend_Available (w_pool w) i now))" by (rule Available_polled [OF i])
  have all: "answer now (w_pool w) g j = A g j" if "j < n" for g j
    using assms(1) that by (simp add: frozen_def)
  have "answer now (fst (Backend_Available (w_pool w) i now)) g j = A g j" if "j < n" for g j
  proof -
    have "answer now (fst (Backend_Available (w_pool w) i now)) g j = answer now (w_pool w) g j"
      using Available_stable [OF inv i, of j now] that n by (cases g) simp_all
    then show ?thesis using all [OF that] by simp
  qed
  moreover have "snd (snd (Backend_Available (w_pool w) i now)) = A f i"
    using all [OF assms(2), of filterAvailable] filterAvailable by (simp add: avail_def)
  ultimately show ?thesis using pol inv n filterAvailable
    by (auto simp: frozen_def polled_def split_beta Let_def)
qed

lemma collectRing_frozen:
  assumes "frozen now n A w" "length out < k" "distinct is" "inj_on (bs_byID s) (set is)"
    and "\<forall>i \<in> set is. \<exists>bk < n. bs_byID s i = Some bk"
  shows "snd (collectRing (\<lambda>_. now) f k s is w out) =
      out @ take (k - length out) (filter (\<lambda>bk. A f bk \<and> bk \<notin> set out) (map (\<lambda>i. the (bs_byID s i)) is)) \<and>
    frozen now n A (fst (collectRing (\<lambda>_. now) f k s is w out))"
  using assms
proof (induction "is" arbitrary: w out)
  case (Cons i "is")
  obtain bk where bk: "bk < n" "bs_byID s i = Some bk" using Cons.prems(5) by auto
  let ?c = "map (\<lambda>i. the (bs_byID s i)) is"
  have notin: "bk \<notin> set ?c"
  proof
    assume "bk \<in> set ?c"
    then obtain j where "j \<in> set is" "bs_byID s j = Some bk" using Cons.prems(5) by fastforce
    then show False using Cons.prems(3,4) bk(2) by (metis distinct.simps(2) inj_on_contraD list.set_intros(1,2))
  qed
  obtain w' ok where a: "admits (\<lambda>_. now) f w bk = (w', ok)" by (cases "admits (\<lambda>_. now) f w bk")
  have af: "ok = A f bk" "frozen now n A w'" using admits_frozen [OF Cons.prems(1) bk(1), of f] by (simp_all add: a)
  have d: "distinct is" "inj_on (bs_byID s) (set is)" "\<forall>i \<in> set is. \<exists>bk < n. bs_byID s i = Some bk"
    using Cons.prems by (auto simp: inj_on_def)
  consider "bk \<in> set out" | "bk \<notin> set out" "\<not> ok" | "bk \<notin> set out" "ok" "length (out @ [bk]) = k"
      | "bk \<notin> set out" "ok" "length (out @ [bk]) \<noteq> k" by blast
  then show ?case
  proof cases
    case 1
    then show ?thesis using Cons.IH [OF Cons.prems(1,2) d] by (simp add: bk)
  next
    case 2
    then show ?thesis using Cons.IH [OF af(2) Cons.prems(2) d] af(1) by (simp add: bk a)
  next
    case 3
    then have "k - length out = Suc 0" by simp
    then show ?thesis using 3 af by (simp add: bk a)
  next
    case 4
    have l: "length (out @ [bk]) < k" using 4 Cons.prems(2) by simp
    have f: "filter (\<lambda>x. A f x \<and> x \<notin> set (out @ [bk])) ?c = filter (\<lambda>x. A f x \<and> x \<notin> set out) ?c"
      using notin by (intro filter_cong) auto
    have "k - length out = Suc (k - length (out @ [bk]))" using l by simp
    then show ?thesis using Cons.IH [OF af(2) l d] 4 af(1) f by (simp add: bk a)
  qed
qed simp

lemma collect_each_frozen:
  assumes "frozen now n A w" "length out < k" "set bks \<subseteq> {..<n}"
  shows "snd (collect_each (\<lambda>_. now) f k bks w out) = out @ take (k - length out) (filter (A f) bks) \<and>
    frozen now n A (fst (collect_each (\<lambda>_. now) f k bks w out))"
  using assms
proof (induction bks arbitrary: w out)
  case (Cons bk bks)
  obtain w' ok where a: "admits (\<lambda>_. now) f w bk = (w', ok)" by (cases "admits (\<lambda>_. now) f w bk")
  have af: "ok = A f bk" "frozen now n A w'" using admits_frozen [OF Cons.prems(1), of bk f] Cons.prems(3) by (simp_all add: a)
  have sub: "set bks \<subseteq> {..<n}" using Cons.prems(3) by simp
  consider "\<not> ok" | "ok" "length (out @ [bk]) = k" | "ok" "length (out @ [bk]) \<noteq> k" by blast
  then show ?case
  proof cases
    case 1
    then show ?thesis using Cons.IH [OF af(2) Cons.prems(2) sub] af(1) by (simp add: a)
  next
    case 2
    then have "k - length out = Suc 0" by simp
    then show ?thesis using 2 af by (simp add: a)
  next
    case 3
    have l: "length (out @ [bk]) < k" using 3 Cons.prems(2) by simp
    then have "k - length out = Suc (k - length (out @ [bk]))" by simp
    then show ?thesis using Cons.IH [OF af(2) l sub] 3 af(1) by (simp add: a)
  qed
qed simp

text \<open>The specification: of the first rung that admits anyone, the first \<open>k\<close> in order of preference.\<close>

definition spec_pick :: "(pickFilter \<Rightarrow> nat \<Rightarrow> bool) \<Rightarrow> nat \<Rightarrow> nat list \<Rightarrow> nat list" where
  "spec_pick A k prefs =
     take k (if filter (A filterAvailable) prefs \<noteq> [] then filter (A filterAvailable) prefs
             else if filter (A filterHealthy) prefs \<noteq> [] then filter (A filterHealthy) prefs
             else prefs)"

lemma pick_keyless_frozen:
  assumes "frozen now n A w" "0 < k" "set (bs_backends (ba_snap b)) \<subseteq> {..<n}" "\<And>i. A filterAny i"
  shows "snd (pick_keyless (\<lambda>_. now) b k w) =
    spec_pick A k (rotate (unat (ba_rr b) mod length (bs_backends (ba_snap b))) (bs_backends (ba_snap b))) \<and>
    frozen now n A (fst (pick_keyless (\<lambda>_. now) b k w))"
proof -
  let ?r = "rotate (unat (ba_rr b) mod length (bs_backends (ba_snap b))) (bs_backends (ba_snap b))"
  let ?g = "\<lambda>f w. collectRotation (\<lambda>_. now) f k (bs_backends (ba_snap b)) (unat (ba_rr b) mod length (bs_backends (ba_snap b))) w []"
  have g: "snd (?g f w) = take k (filter (A f) ?r) \<and> frozen now n A (fst (?g f w))" if "frozen now n A w" for f w
    using collect_each_frozen [OF that, of "[]" k ?r f] assms(2,3) by (simp add: collectRotation_def rotation_as_rotate)
  have t: "take k xs = [] \<longleftrightarrow> xs = []" for xs :: "nat list" using assms(2) by auto
  have fany: "filter (A filterAny) ?r = ?r" using assms(4) by (simp add: filter_id_conv)
  obtain w1 o1 where r1: "?g filterAvailable w = (w1, o1)" by fastforce
  have o1: "o1 = take k (filter (A filterAvailable) ?r)" "frozen now n A w1"
    using g [OF assms(1), of filterAvailable] by (simp_all add: r1)
  obtain w2 o2 where r2: "?g filterHealthy w1 = (w2, o2)" by fastforce
  have o2: "o2 = take k (filter (A filterHealthy) ?r)" "frozen now n A w2"
    using g [OF o1(2), of filterHealthy] by (simp_all add: r2)
  have o3: "snd (?g filterAny w2) = take k ?r" "frozen now n A (fst (?g filterAny w2))"
    using g [OF o2(2), of filterAny] fany by simp_all
  have "walk ?g ladder w = (if o1 \<noteq> [] then (w1, o1) else if o2 \<noteq> [] then (w2, o2) else ?g filterAny w2)"
    by (cases "?g filterAny w2") (simp add: ladder_def r1 r2)
  then show ?thesis using o1 o2 o3 by (auto simp: pick_keyless_def Let_def spec_pick_def t)
qed

lemma filter_take_more:
  assumes "distinct ps"
  shows "filter (\<lambda>b. A b \<and> b \<notin> set (filter A (take k ps))) ps = filter A (drop k ps)"
proof -
  have d: "distinct (take k ps @ drop k ps)" using assms by simp
  have "filter (\<lambda>b. A b \<and> b \<notin> set (filter A (take k ps))) (take k ps @ drop k ps) = filter A (drop k ps)"
    using d unfolding filter_append distinct_append by (auto simp: filter_empty_conv intro!: filter_cong)
  then show ?thesis by simp
qed

lemma pick_keyed_frozen:
  assumes "frozen now n A w" "0 < k" "k \<le> n" "\<And>i. A filterAny i" "length (bs_backends (ba_snap b)) = n"
    and ids: "\<And>j. Ring_GetN h (ba_ring b) key (int j) = take j prefs"
    and prefs: "distinct prefs" "length prefs = n" "inj_on (bs_byID (ba_snap b)) (set prefs)"
      "\<forall>i \<in> set prefs. \<exists>bk < n. bs_byID (ba_snap b) i = Some bk"
  shows "snd (pick_keyed h (\<lambda>_. now) b key k w) = spec_pick A k (map (\<lambda>i. the (bs_byID (ba_snap b) i)) prefs)"
proof -
  let ?s = "ba_snap b" and ?ps = "map (\<lambda>i. the (bs_byID (ba_snap b) i)) prefs"
  let ?c = "\<lambda>f is w out. collectRing (\<lambda>_. now) f k ?s is w out"
  have dps: "distinct ?ps"
    using prefs(1,3,4) by (auto simp: distinct_map inj_on_def) (metis option.sel)
  have t: "take k xs = [] \<longleftrightarrow> xs = []" for xs :: "nat list" using assms(2) by auto
  have scan: "snd (?c f (take j prefs) w out) = out @ take (k - length out) (filter (\<lambda>bk. A f bk \<and> bk \<notin> set out) (take j ?ps)) \<and>
      frozen now n A (fst (?c f (take j prefs) w out))" if "frozen now n A w" "length out < k" for f j w out
    using collectRing_frozen [OF that, of "take j prefs" ?s f] prefs(1,3,4)
    by (auto simp: take_map dest: in_set_takeD intro: inj_on_subset [OF _ set_take_subset])
  have full: "take n prefs = prefs" "take n ?ps = ?ps" using prefs(2) by simp_all
  obtain w1 o1 where r1: "?c filterAvailable (take k prefs) w [] = (w1, o1)" by fastforce
  have o1: "o1 = filter (A filterAvailable) (take k ?ps)" and f1: "frozen now n A w1"
    using scan [OF assms(1), of "[]" filterAvailable k] assms(2) by (simp_all add: r1)
      (simp add: order.trans [OF length_filter_le])
  obtain w2 o2 where r2: "?c filterAvailable prefs w1 o1 = (w2, o2)" by fastforce
  have o2: "o2 = take k (filter (A filterAvailable) ?ps)" "frozen now n A w2" if "length o1 < k"
  proof -
    note s2 = scan [OF f1 that, of filterAvailable n, unfolded full r2 fst_conv snd_conv]
    have "filter (\<lambda>bk. A filterAvailable bk \<and> bk \<notin> set o1) ?ps = filter (A filterAvailable) (drop k ?ps)"
      unfolding o1 by (rule filter_take_more [OF dps])
    then have "o2 = o1 @ take (k - length o1) (filter (A filterAvailable) (drop k ?ps))" "frozen now n A w2"
      using s2 by simp_all
    moreover have "filter (A filterAvailable) ?ps = o1 @ filter (A filterAvailable) (drop k ?ps)"
      unfolding o1 filter_append [symmetric] by simp
    ultimately show "o2 = take k (filter (A filterAvailable) ?ps)" "frozen now n A w2" using that by simp_all
  qed
  define more where "more = (length o1 < k \<and> length (take k prefs) < n)"
  define w3 o3 i3 where "w3 = (if more then w2 else w1)" and "o3 = (if more then o2 else o1)"
    and "i3 = (if more then prefs else take k prefs)"
  have f3: "frozen now n A w3" using f1 o2(2) by (simp add: w3_def more_def)
  have o3: "o3 = take k (filter (A filterAvailable) ?ps)"
  proof (cases more)
    case True
    then show ?thesis using o2(1) by (simp add: o3_def more_def)
  next
    case False
    then consider "length o1 = k" | "k = n"
      using assms(3) prefs(2) length_filter_le [of "A filterAvailable" "take k ?ps"]
      by (auto simp: more_def o1 min_def split: if_splits)
    then show ?thesis
    proof cases
      case 1
      have "filter (A filterAvailable) ?ps = o1 @ filter (A filterAvailable) (drop k ?ps)"
        unfolding o1 filter_append [symmetric] by simp
      then show ?thesis using False 1 by (simp add: o3_def)
    next
      case 2
      then show ?thesis using False full by (simp add: o3_def o1 order.trans [OF length_filter_le] prefs(2))
    qed
  qed
  have i3: "i3 = prefs" if "o3 = []"
  proof -
    have "o1 = []" using that o3 assms(2) by (auto simp: o1 filter_empty_conv t take_map dest!: in_set_takeD)
    then show ?thesis using assms(2,3) prefs(2) by (auto simp: i3_def more_def min_def split: if_splits)
  qed
  obtain w4 o4 where r4: "walk (\<lambda>f w. ?c f i3 w []) (tl ladder) w3 = (w4, o4)" by fastforce
  have o4: "o4 = take k (if filter (A filterHealthy) ?ps \<noteq> [] then filter (A filterHealthy) ?ps else ?ps)" if "o3 = []"
  proof -
    have h: "snd (?c filterHealthy prefs w3 []) = take k (filter (A filterHealthy) ?ps)"
      "frozen now n A (fst (?c filterHealthy prefs w3 []))"
      using scan [OF f3, of "[]" filterHealthy n] assms(2) unfolding full by simp_all
    have a: "snd (?c filterAny prefs (fst (?c filterHealthy prefs w3 [])) []) = take k ?ps"
      using scan [OF h(2), of "[]" filterAny n] assms(2,4) unfolding full by simp
    show ?thesis using r4 i3 [OF that] h a
      by (auto simp: ladder_def split_beta Let_def t split: if_splits)
  qed
  have ps: "?ps \<noteq> []" using assms(2,3) prefs(2) by auto
  have "pick_keyed h (\<lambda>_. now) b key k w = (if o3 \<noteq> [] then (w3, o3) else if o4 \<noteq> [] then (w4, o4)
      else collectRotation (\<lambda>_. now) filterAny k (bs_backends ?s) 0 w4 [])"
  proof (cases more)
    case True
    then have "length o1 < k \<and> length (take k prefs) < n" by (simp only: more_def)
    then show ?thesis using r2 r4 True unfolding pick_keyed_def Let_def assms(5) ids full r1
      by (simp add: w3_def o3_def i3_def)
  next
    case False
    then have "\<not> (length o1 < k \<and> length (take k prefs) < n)" unfolding more_def .
    then show ?thesis using r4 False unfolding pick_keyed_def Let_def assms(5) ids full r1
      by (auto simp: w3_def o3_def i3_def)
  qed
  then show ?thesis using o3 o4 ps assms(2) by (auto simp: spec_pick_def t)
qed

subsection \<open>Rebuild keeps ring, snapshot and pool in step\<close>

lemma option_ext: "(\<And>k. a = Some k \<longleftrightarrow> b = Some k) \<Longrightarrow> a = b"
  by (cases a; cases b) auto

definition synced :: "(string \<Rightarrow> 64 word) \<Rightarrow> 'c pool \<Rightarrow> balancer \<Rightarrow> bool" where
  "synced h p b =
     (canonical h (ba_ring b) \<and> bs_backends (ba_snap b) = [0..<length (pl_backends p)] \<and>
      bs_byID (ba_snap b) = pl_byID p \<and>
      m_ID ` set (Ring_Members (ba_ring b)) = bk_id ` set (pl_backends p))"

lemma foldl_byID:
  assumes "distinct (map bk_id (pl_backends p))" "n \<le> length (pl_backends p)"
  shows "foldl (\<lambda>u i. u(bk_id (backend_at p i) \<mapsto> i)) Map.empty [0..<n] x = Some k \<longleftrightarrow> k < n \<and> bk_id (backend_at p k) = x"
  using assms(2)
proof (induction n)
  case (Suc n)
  have "bk_id (backend_at p k) \<noteq> bk_id (backend_at p n)" if "k < n" for k
    using assms(1) Suc.prems that by (auto simp: distinct_conv_nth)
  then show ?case using Suc by (auto simp: less_Suc_eq)
qed simp

lemma Ring_Set_ids: "m_ID ` set (Ring_Members (Ring_Set h r ms)) = m_ID ` set ms"
  using membership_build [of h "rn_virtualNodes r" ms] dom_uniq_map [of ms]
    dom_uniq_map [of "sn_members (build h (rn_virtualNodes r) ms)"]
  by (simp add: Ring_Members_def Ring_Set_def membership_def)

lemma sameMembership_eq: "sameMembership xs ys \<longleftrightarrow> xs = ys"
  by (auto simp: sameMembership_def list_all_iff intro: nth_equalityI)

lemma Rebuild_synced:
  assumes "pool_inv p" "\<not> ba_closed b" "canonical h (ba_ring b)"
    and "bs_backends (ba_snap b) = [] \<and> bs_byID (ba_snap b) = Map.empty \<and> Ring_Members (ba_ring b) = [] \<or> synced h p b"
  shows "synced h p (fst (Rebuild h p b))"
proof (cases "bs_backends (ba_snap b) = Pool_Backends p")
  case True
  then show ?thesis using assms by (auto simp: Rebuild_def sameMembership_eq Let_def synced_def Pool_Backends_def pool_inv_def)
next
  case False
  let ?ms = "map (\<lambda>i. \<lparr>m_ID = bk_id (backend_at p i), m_Weight = bk_weight (backend_at p i)\<rparr>) (Pool_Backends p)"
  have "foldl (\<lambda>u i. u(bk_id (backend_at p i) \<mapsto> i)) Map.empty [0..<length (pl_backends p)] = pl_byID p"
  proof
    fix x show "foldl (\<lambda>u i. u(bk_id (backend_at p i) \<mapsto> i)) Map.empty [0..<length (pl_backends p)] x = pl_byID p x"
      using foldl_byID [of p "length (pl_backends p)" x] assms(1) by (intro option_ext) (simp add: pool_inv_def)
  qed
  moreover have "m_ID ` set ?ms = bk_id ` set (pl_backends p)"
  proof -
    have "map m_ID ?ms = map bk_id (pl_backends p)" by (rule nth_equalityI) (simp_all add: Pool_Backends_def)
    then show ?thesis by (metis set_map)
  qed
  moreover have "canonical h (Ring_Set h (ba_ring b) ?ms)"
    using ring_call_step [OF assms(3), of "OpSet ?ms"] by simp
  ultimately show ?thesis using False assms(2)
    by (simp add: Rebuild_def sameMembership_eq Let_def synced_def Ring_Set_ids) (simp add: Pool_Backends_def)
qed

lemma New_synced: "pool_inv p \<Longrightarrow> synced h p (fst (Balancer_New h p cfg m cb))"
proof -
  assume p: "pool_inv p"
  let ?b = "\<lparr>ba_ring = Ring_New h (if rt_VirtualNodes cfg \<le> 0 then rt_VirtualNodes (c_Routing Default) else rt_VirtualNodes cfg) [],
      ba_m = m, ba_snap = \<lparr>bs_backends = [], bs_byID = Map.empty\<rparr>, ba_rr = 0, ba_closed = False\<rparr>"
  have "synced h p (fst (Rebuild h p ?b))"
    by (rule Rebuild_synced [OF p]) (simp_all add: New_canonical, simp add: Ring_New_def Ring_Members_def build_in_def)
  then show ?thesis by (simp add: Balancer_New_def Let_def split_beta)
qed

lemma synced_snap_ok: "pool_inv p \<Longrightarrow> synced h p b \<Longrightarrow> snap_ok p b"
  by (auto simp: snap_ok_def synced_def pool_inv_def ran_def)

lemma synced_prefs:
  assumes "pool_inv p" "synced h p b" and prefs_def: "prefs = preference h (ba_ring b) key"
  shows "Ring_GetN h (ba_ring b) key (int j) = take j prefs" "distinct prefs" "length prefs = length (pl_backends p)"
    "inj_on (pl_byID p) (set prefs)" "\<forall>i \<in> set prefs. \<exists>bk < length (pl_backends p). pl_byID p i = Some bk"
proof -
  have r: "ring_inv h (ba_ring b)" using assms(2) by (simp add: synced_def canonical_inv)
  show "Ring_GetN h (ba_ring b) key (int j) = take j prefs" by (simp add: GetN_preference [OF r] prefs_def)
  show d: "distinct prefs" unfolding prefs_def by (rule hring.distinct_prefs [OF r])
  have s: "set prefs = bk_id ` set (pl_backends p)"
    using set_preference [OF r] assms(2) by (simp add: prefs_def synced_def)
  show "length prefs = length (pl_backends p)"
    using distinct_card [OF d] distinct_card [of "map bk_id (pl_backends p)"] assms(1) by (simp add: s pool_inv_def)
  have byid: "pl_byID p x = Some k \<longleftrightarrow> k < length (pl_backends p) \<and> bk_id (backend_at p k) = x" for x k
    using assms(1) by (simp add: pool_inv_def)
  show "\<forall>i \<in> set prefs. \<exists>bk < length (pl_backends p). pl_byID p i = Some bk"
    using byid by (auto simp: s in_set_conv_nth)
  then show "inj_on (pl_byID p) (set prefs)"
    using byid by (intro inj_onI) metis
qed

text \<open>The order in which a balancer prefers the backends of a pool.\<close>

definition backend_prefs :: "(string \<Rightarrow> 64 word) \<Rightarrow> 'c pool \<Rightarrow> balancer \<Rightarrow> string \<Rightarrow> nat list" where
  "backend_prefs h p b key =
     (if key = [] then rotate (unat (ba_rr b) mod length (pl_backends p)) [0..<length (pl_backends p)]
      else map (\<lambda>i. the (pl_byID p i)) (preference h (ba_ring b) key))"

lemma frozen_start: "pool_inv (w_pool w) \<Longrightarrow> frozen now (length (pl_backends (w_pool w))) (answer now (w_pool w)) w"
  by (simp add: frozen_def)

definition clamp :: "int \<Rightarrow> nat \<Rightarrow> nat" where
  "clamp k n = nat (min (max k 1) (int n))"

lemma Pick_frozen:
  assumes "frozen now n A w" "synced h (w_pool w) b" "0 < n" "\<And>i. A filterAny i"
  shows "snd (snd (Pick h (\<lambda>_. now) b key k w)) = spec_pick A (clamp k n) (backend_prefs h (w_pool w) b key)"
    and "key = [] \<Longrightarrow> frozen now n A (fst (Pick h (\<lambda>_. now) b key k w))"
proof -
  have inv: "pool_inv (w_pool w)" and n: "length (pl_backends (w_pool w)) = n" using assms(1) by (simp_all add: frozen_def)
  have bk: "bs_backends (ba_snap b) = [0..<n]" "bs_byID (ba_snap b) = pl_byID (w_pool w)"
    using assms(2) n by (simp_all add: synced_def)
  let ?k = "clamp k n"
  have k: "0 < ?k" "?k \<le> n" using assms(3) by (simp_all add: clamp_def)
  have kk: "nat (if (if k \<le> 0 then 1 else k) > int n then int n else if k \<le> 0 then 1 else k) = ?k"
    using assms(3) by (simp add: clamp_def)
  have sub: "set [0..<n] \<subseteq> {..<n}" by auto
  note less = pick_keyless_frozen [OF assms(1) k(1), of b, unfolded bk, OF sub assms(4), simplified]
  have keyed: "snd (pick_keyed h (\<lambda>_. now) b key ?k w) = spec_pick A ?k (map (\<lambda>i. the (bs_byID (ba_snap b) i)) (preference h (ba_ring b) key))"
    by (rule pick_keyed_frozen [OF assms(1) k assms(4)])
      (use synced_prefs [OF inv assms(2) refl, of key] n bk in simp_all)
  show "snd (snd (Pick h (\<lambda>_. now) b key k w)) = spec_pick A ?k (backend_prefs h (w_pool w) b key)"
    using less keyed assms(3) kk n bk by (simp add: Pick_def Let_def split_beta backend_prefs_def)
  show "key = [] \<Longrightarrow> frozen now n A (fst (Pick h (\<lambda>_. now) b key k w))"
    using less assms(3) kk bk by (simp add: Pick_def Let_def split_beta)
qed

subsection \<open>Consecutive keyless requests\<close>

fun keyless_heads ::
  "(string \<Rightarrow> 64 word) \<Rightarrow> (nat \<Rightarrow> go_time) \<Rightarrow> int \<Rightarrow> nat \<Rightarrow> balancer \<Rightarrow> 'c world \<Rightarrow> nat list" where
  "keyless_heads h clock k 0 b w = []"
| "keyless_heads h clock k (Suc m) b w =
     (let (w', b', out) = Pick h clock b [] k w in hd out # keyless_heads h clock k m b' w')"

text \<open>The elements of \<open>ps\<close> that come before \<open>y\<close>.\<close>

definition ahead_of :: "nat list \<Rightarrow> nat \<Rightarrow> nat set" where
  "ahead_of ps y = set (takeWhile (\<lambda>j. j \<noteq> y) ps)"

lemma hd_filter_flip:
  "\<forall>j \<in> set ps. j \<noteq> x \<longrightarrow> Q j = P j \<Longrightarrow> filter P ps \<noteq> [] \<Longrightarrow> hd (filter P ps) \<noteq> x \<Longrightarrow>
   filter Q ps \<noteq> [] \<and> hd (filter Q ps) = (if Q x \<and> x \<in> ahead_of ps (hd (filter P ps)) then x else hd (filter P ps))"
proof (induction ps)
  case (Cons a ps)
  have "P (hd (filter P ps))" if "filter P ps \<noteq> []" using hd_in_set [OF that] by simp
  then show ?case using Cons by (cases "P a"; cases "a = x"; cases "Q x") (auto simp: ahead_of_def)
qed simp

lemma spec_pick_all_available:
  "(\<And>i. i \<in> set ps \<Longrightarrow> A filterAvailable i) \<Longrightarrow> ps \<noteq> [] \<Longrightarrow> spec_pick A k ps = take k ps"
  by (simp add: spec_pick_def filter_id_conv)

lemma keyless_heads_frozen:
  assumes "frozen now n A w" "synced h (w_pool w) b" "0 < n" "\<And>f i. i < n \<Longrightarrow> A f i" "\<And>i. A filterAny i"
    and "unat (ba_rr b) + m \<le> 2 ^ 64"
  shows "keyless_heads h (\<lambda>_. now) k m b w = map (\<lambda>j. (unat (ba_rr b) + j) mod n) [0..<m]"
  using assms
proof (induction m arbitrary: b w)
  case (Suc m)
  obtain w' b' out where p: "Pick h (\<lambda>_. now) b [] k w = (w', b', out)" by (cases "Pick h (\<lambda>_. now) b [] k w")
  have n: "length (pl_backends (w_pool w)) = n" using Suc.prems(1) by (simp add: frozen_def)
  have bk: "bs_backends (ba_snap b) = [0..<n]" using Suc.prems(2) n by (simp add: synced_def)
  let ?r = "rotate (unat (ba_rr b) mod n) [0..<n]"
  have "out = spec_pick A (clamp k n) ?r"
    using Pick_frozen(1) [OF Suc.prems(1,2,3,5), of "[]" k] by (simp add: p backend_prefs_def n)
  also have "\<dots> = take (clamp k n) ?r"
    using Suc.prems(3,4) by (intro spec_pick_all_available) auto
  finally have "hd out = ?r ! 0" using Suc.prems(3) by (simp add: hd_conv_nth clamp_def)
  then have hd: "hd out = unat (ba_rr b) mod n" using Suc.prems(3) by (simp add: nth_rotate)
  have f: "frozen now n A w'" using Pick_frozen(2) [OF Suc.prems(1,2,3,5), of "[]" k] by (simp add: p)
  have b': "b' = b\<lparr>ba_rr := ba_rr b + 1\<rparr>"
    using p Suc.prems(3) bk by (auto simp: Pick_def Let_def split_beta)
  have "snap_ok (w_pool w) b" using synced_snap_ok [OF _ Suc.prems(2)] Suc.prems(1) by (simp add: frozen_def)
  then have "polled (w_pool w) (w_pool w')"
    using pick_keyless_scanned [of w b "clamp k n" "\<lambda>_. now"] Suc.prems(3) p bk
    by (auto simp: Pick_def Let_def split_beta scanned_def clamp_def split: if_splits)
  then have s: "synced h (w_pool w') b'"
    using Suc.prems(2) by (simp add: b' synced_def polled_def)
  show ?case
  proof (cases m)
    case 0
    then show ?thesis using hd by (simp add: p)
  next
    case (Suc m')
    have rr: "unat (ba_rr b') = unat (ba_rr b) + 1"
      using Suc.prems(6) Suc by (simp add: b' unat_word_ariths)
    have "keyless_heads h (\<lambda>_. now) k m b' w' = map (\<lambda>j. (unat (ba_rr b') + j) mod n) [0..<m]"
      by (rule Suc.IH [OF f s Suc.prems(3,4,5)]) (use Suc.prems(6) rr in simp_all)
    then show ?thesis using hd
      by (simp add: p rr map_upt_Suc del: upt_Suc)
  qed
qed simp

definition sample_balancer :: balancer where
  "sample_balancer = fst (Balancer_New sample_hash sample_pool (c_Routing Default) False 0)"

definition sample_world :: "nat world" where
  "sample_world = \<lparr>w_pool = sample_pool, w_tick = 0, w_fired = []\<rparr>"

lemma sample_pool_inv: "pool_inv sample_pool"
  using sample_pool_ok by (simp add: pool_ok_def)

lemma sample_synced: "synced sample_hash sample_pool sample_balancer"
  unfolding sample_balancer_def by (rule New_synced [OF sample_pool_inv])

text \<open>A pool of two healthy backends whose breakers are disabled.\<close>

definition two_pool :: "nat pool" where
  "two_pool = \<lparr>pl_backends =
       [\<lparr>bk_id = ''a'', bk_addr = ''h:1'', bk_weight = 100, bk_conn = 0, bk_breaker = Overflow, bk_breakerEnabled = False, bk_state = StateHealthy\<rparr>,
        \<lparr>bk_id = ''b'', bk_addr = ''h:2'', bk_weight = 100, bk_conn = 1, bk_breaker = Overflow, bk_breakerEnabled = False, bk_state = StateHealthy\<rparr>],
     pl_byID = [''a'' \<mapsto> 0, ''b'' \<mapsto> 1], pl_breakers = NewRegistry sample_settings 0, pl_callbacks = [], pl_closed = None\<rparr>"

definition two_world :: "nat world" where
  "two_world = \<lparr>w_pool = two_pool, w_tick = 0, w_fired = []\<rparr>"

definition two_balancer :: balancer where
  "two_balancer = fst (Balancer_New sample_hash two_pool (c_Routing Default) False 0)"

lemma two_len: "length (pl_backends two_pool) = 2" "pl_backends two_pool \<noteq> []" "w_pool two_world = two_pool"
  by (simp_all add: two_pool_def two_world_def)

lemma two_pool_inv: "pool_inv two_pool"
  using NewRegistry_inv [of sample_settings 0]
  by (simp add: pool_inv_def two_pool_def) (auto simp: less_Suc_eq)

lemma two_ok: "pool_inv two_pool" "synced sample_hash two_pool two_balancer"
    "\<forall>i < 2. avail now two_pool i"
  using two_pool_inv New_synced [OF two_pool_inv]
  by (auto simp: two_balancer_def avail_def Backend_Available_def Backend_Healthy_def two_pool_def less_Suc_eq numeral_2_eq_2)

lemma two_rr: "ba_rr two_balancer = 0"
  by (simp add: two_balancer_def Balancer_New_def Rebuild_def Let_def split_beta)

lemma two_pick:
  "hd (snd (snd (Pick sample_hash (\<lambda>_. 7) two_balancer ''k'' 2 two_world))) < 2 \<and>
   avail 7 two_pool (hd (snd (snd (Pick sample_hash (\<lambda>_. 7) two_balancer ''k'' 2 two_world))))"
proof -
  let ?ps = "backend_prefs sample_hash two_pool two_balancer ''k''"
  have s: "synced sample_hash (w_pool two_world) two_balancer" "pool_inv (w_pool two_world)"
    using two_ok by (simp_all add: two_world_def)
  have len: "length (pl_backends (w_pool two_world)) = 2" by (simp add: two_len)
  note pr = synced_prefs [OF s(2,1) refl, of "''k''"]
  have sub: "set ?ps \<subseteq> {..<2}" using pr(5) len by (fastforce simp: backend_prefs_def two_world_def)
  have l: "length ?ps = 2" using pr(3) len by (simp add: backend_prefs_def two_world_def)
  have "snd (snd (Pick sample_hash (\<lambda>_. 7) two_balancer ''k'' 2 two_world)) = spec_pick (answer 7 two_pool) 2 ?ps"
    using Pick_frozen(1) [OF frozen_start [OF s(2)] s(1), of 7 "''k''" 2] len by (simp add: two_len clamp_def)
  also have "\<dots> = ?ps" using sub l two_ok(3) by (subst spec_pick_all_available) auto
  finally show ?thesis using sub l two_ok(3) hd_in_set [of ?ps] by (cases ?ps) auto
qed

text \<open>What every call of \<open>Pick\<close> does.\<close>

lemma Pick_scanned:
  assumes "snap_ok (w_pool w) b" and p: "Pick h clock b key k w = (w', b', out)"
  shows "scanned (nat (max k 1)) (set (bs_backends (ba_snap b))) w [] (w', out)"
    and "bs_backends (ba_snap b) \<noteq> [] \<Longrightarrow> out \<noteq> []" and "b' = b\<lparr>ba_rr := ba_rr b'\<rparr>"
proof -
  let ?n = "length (bs_backends (ba_snap b))" and ?P = "Pick h clock b key k w"
  define j where "j = nat (if (if k \<le> 0 then 1 else k) > int ?n then int ?n else if k \<le> 0 then 1 else k)"
  define r where "r = (if key = [] then pick_keyless clock b j w else pick_keyed h clock b key j w)"
  have all: "scanned (nat (max k 1)) (set (bs_backends (ba_snap b))) w [] (fst ?P, snd (snd ?P)) \<and> snd (snd ?P) \<noteq> []"
    if ne: "bs_backends (ba_snap b) \<noteq> []"
  proof -
    have j: "0 < j" "j \<le> nat (max k 1)" using ne by (auto simp: j_def)
    have "scanned j (set (bs_backends (ba_snap b))) w [] r"
      using pick_keyless_scanned [OF assms(1) j(1)] pick_keyed_scanned [OF assms(1) j(1)] by (simp add: r_def)
    moreover have "snd r \<noteq> []"
      using pick_keyless_some [OF j(1) ne] pick_keyed_some [OF j(1) ne] unfolding r_def by (cases "key = []") simp_all
    moreover have "(fst ?P, snd (snd ?P)) = r" using ne by (simp add: Pick_def Let_def split_beta r_def j_def)
    ultimately show ?thesis using j(2) by (auto simp: scanned_def)
  qed
  show "scanned (nat (max k 1)) (set (bs_backends (ba_snap b))) w [] (w', out)"
    using all p by (cases "bs_backends (ba_snap b) = []") (auto simp: Pick_def scanned_def)
  show "out \<noteq> []" if "bs_backends (ba_snap b) \<noteq> []" using all [OF that] p by simp
  show "b' = b\<lparr>ba_rr := ba_rr b'\<rparr>" using p by (auto simp: Pick_def Let_def split_beta split: if_splits)
qed

subsection \<open>Claims\<close>

text \<open>
  C20: \<open>Pick\<close>, at any clock readings and even when the ring lags the snapshot: the result holds no
  duplicate, only backends of the snapshot and at most \<open>maxAttempts\<close> (at least one) of them; it is
  never empty while there is a backend; and picking reserves no half-open probe of any backend.
\<close>

theorem pick_contract:
  assumes "pool_inv (w_pool w)" and "snap_ok (w_pool w) b"
  shows "let (w', b', out) = Pick h clock b key k w
    in distinct out \<and> set out \<subseteq> set (bs_backends (ba_snap b)) \<and> int (length out) \<le> max k 1 \<and>
       (bs_backends (ba_snap b) \<noteq> [] \<longrightarrow> out \<noteq> []) \<and>
       (\<forall>i < length (pl_backends (w_pool w)). pool_held i (w_pool w') \<le> pool_held i (w_pool w)) \<and>
       pool_inv (w_pool w') \<and> b' = b\<lparr>ba_rr := ba_rr b'\<rparr>"
proof -
  obtain w' b' out where p: "Pick h clock b key k w = (w', b', out)" by (cases "Pick h clock b key k w")
  show ?thesis
    using Pick_scanned [OF assms(2) p] assms(1) by (auto simp: p scanned_def polled_def)
qed

theorem pick_contract_witness:
  "snd (snd (Pick sample_hash (\<lambda>t. int t) sample_balancer ''k'' 3 sample_world)) \<noteq> []"
proof -
  have s: "synced sample_hash (w_pool sample_world) sample_balancer"
    using sample_synced by (simp add: sample_world_def)
  then have "bs_backends (ba_snap sample_balancer) \<noteq> []"
    by (simp add: synced_def sample_world_def sample_pool_def)
  then show ?thesis
    using pick_contract [of sample_world sample_balancer sample_hash "\<lambda>t. int t" "''k''" 3] sample_pool_inv
      synced_snap_ok [OF _ s] by (simp add: sample_world_def split_beta Let_def)
qed

text \<open>
  C13: which backends \<open>Pick\<close> returns, while the clock stands still and ring and snapshot agree: the
  first \<open>maxAttempts\<close>, in order of preference, of the first rung that admits anyone (available, then
  healthy, then all). The order is the ring's for a key, so the first choice is the consistent-hash
  owner; for an empty key it is the rotation at the round-robin counter. The two-step scan of the
  keyed path is equivalent to one scan of the whole preference order.
\<close>

theorem pick_refines_spec:
  assumes "pool_inv (w_pool w)" and "synced h (w_pool w) b" and "pl_backends (w_pool w) \<noteq> []"
  shows "snd (snd (Pick h (\<lambda>_. now) b key k w)) =
    spec_pick (answer now (w_pool w)) (clamp k (length (pl_backends (w_pool w)))) (backend_prefs h (w_pool w) b key)"
  by (rule Pick_frozen(1) [OF frozen_start [OF assms(1)] assms(2)]) (use assms(3) in simp_all)

theorem pick_refines_spec_witness:
  "snd (snd (Pick sample_hash (\<lambda>_. 7) sample_balancer ''k'' 3 sample_world)) =
    spec_pick (answer 7 sample_pool) 1 (backend_prefs sample_hash sample_pool sample_balancer ''k'')"
proof -
  have "length (pl_backends sample_pool) = 1" "pl_backends sample_pool \<noteq> []" by (simp_all add: sample_pool_def)
  then show ?thesis
    using pick_refines_spec [of sample_world sample_hash sample_balancer 7 "''k''" 3] sample_pool_inv sample_synced
    by (auto simp: sample_world_def clamp_def)
qed

text \<open>What a change of the health of backend \<open>x\<close> leaves alone.\<close>

lemma SetState_flap:
  assumes "pool_inv p" "synced h p b" "x < length (pl_backends p)" "q = fst (Backend_SetState p x s)"
  shows "length (pl_backends q) = length (pl_backends p)" "pool_inv q" "synced h q b" "backend_prefs h q b key = backend_prefs h p b key"
    "j \<noteq> x \<Longrightarrow> avail now q j = avail now p j" "s \<noteq> StateHealthy \<Longrightarrow> \<not> avail now q x"
proof -
  have qf: "length (pl_backends q) = length (pl_backends p)" "pl_byID q = pl_byID p" "pl_breakers q = pl_breakers p"
    "\<And>j. j \<noteq> x \<Longrightarrow> backend_at q j = backend_at p j" "bk_state (backend_at q x) = s"
    using assms(3) by (simp_all add: assms(4) Backend_SetState_def)
  have "map bk_id (pl_backends q) = map bk_id (pl_backends p)"
    using assms(3) by (intro nth_equalityI) (auto simp: assms(4) Backend_SetState_def nth_list_update)
  then have "bk_id ` set (pl_backends q) = bk_id ` set (pl_backends p)" by (metis set_map)
  then show "synced h q b" using assms(2) by (simp add: synced_def qf)
  show "pool_inv q" using SetState_ok [of x p s] assms(1,3) by (simp add: assms(4) pool_ok_def)
  show "backend_prefs h q b key = backend_prefs h p b key" by (simp add: backend_prefs_def qf)
  show "j \<noteq> x \<Longrightarrow> avail now q j = avail now p j"
    using qf by (simp add: avail_def Backend_Available_def Backend_Healthy_def on_breaker_def Let_def split_beta split: option.split)
  show "s \<noteq> StateHealthy \<Longrightarrow> \<not> avail now q x"
    using qf(5) by (simp add: avail_def Backend_Available_def Backend_Healthy_def)
qed (use assms(3) in \<open>simp add: assms(4) Backend_SetState_def\<close>)

text \<open>The first choice of the specification, when it is available, heads the available backends in preference order.\<close>

lemma spec_pick_hd_available:
  assumes "0 < n" "ps \<noteq> []" "A filterAvailable (hd (spec_pick A n ps))"
  shows "filter (A filterAvailable) ps \<noteq> []" "hd (spec_pick A n ps) = hd (filter (A filterAvailable) ps)"
proof -
  have hd_spec: "hd (spec_pick A n ps) = hd (if filter (A filterAvailable) ps \<noteq> [] then filter (A filterAvailable) ps
      else if filter (A filterHealthy) ps \<noteq> [] then filter (A filterHealthy) ps else ps)"
    using assms(1) by (simp add: spec_pick_def)
  show "filter (A filterAvailable) ps \<noteq> []"
  proof
    assume e: "filter (A filterAvailable) ps = []"
    then have "hd (spec_pick A n ps) \<in> set (if filter (A filterHealthy) ps \<noteq> [] then filter (A filterHealthy) ps else ps)"
      unfolding hd_spec using assms(2) by (simp add: hd_in_set del: set_filter)
    then have "hd (spec_pick A n ps) \<in> set ps" by (auto split: if_splits)
    then show False using e assms(3) by (auto simp: filter_empty_conv)
  qed
  then show "hd (spec_pick A n ps) = hd (filter (A filterAvailable) ps)" unfolding hd_spec by simp
qed

text \<open>
  C14: a health flap moves only the keys of the flapping backend. With ring and snapshot in agreement and the clock standing still,
  let the first choice of a key be an available backend other than \<open>x\<close>. After \<open>x\<close> changed its health the first choice
  is \<open>x\<close> exactly if \<open>x\<close> is now available and precedes the old choice in the preference order of the key, that is, if
  it is one of the keys that belong to \<open>x\<close> rather than to the old choice; otherwise it is unchanged, and it is always
  unchanged when \<open>x\<close> went down.
\<close>

theorem flap_moves_only_its_keys:
  assumes "pool_inv (w_pool w)" and "synced h (w_pool w) b" and "x < length (pl_backends (w_pool w))"
    and "o1 = snd (snd (Pick h (\<lambda>_. now) b key k w))" and "hd o1 \<noteq> x" and "avail now (w_pool w) (hd o1)"
    and "w' = w\<lparr>w_pool := fst (Backend_SetState (w_pool w) x s)\<rparr>"
    and "o2 = snd (snd (Pick h (\<lambda>_. now) b key k w'))"
  shows "hd o2 = (if avail now (w_pool w') x \<and> x \<in> ahead_of (backend_prefs h (w_pool w) b key) (hd o1) then x else hd o1) \<and>
    (s \<noteq> StateHealthy \<longrightarrow> hd o2 = hd o1)"
proof -
  let ?p = "w_pool w" and ?q = "w_pool w'" and ?ps = "backend_prefs h (w_pool w) b key"
  let ?n = "length (pl_backends (w_pool w))"
  have q: "?q = fst (Backend_SetState ?p x s)" by (simp add: assms(7))
  note flap = SetState_flap [OF assms(1-3) q]
  have ne: "pl_backends ?p \<noteq> []" "pl_backends ?q \<noteq> []" using assms(3) flap(1) by auto
  have k: "0 < clamp k ?n" using assms(3) by (auto simp: clamp_def)
  have o1: "o1 = spec_pick (answer now ?p) (clamp k ?n) ?ps"
    unfolding assms(4) by (rule Pick_frozen(1) [OF frozen_start [OF assms(1)] assms(2)]) (use ne in simp_all)
  have o2: "o2 = spec_pick (answer now ?q) (clamp k ?n) ?ps"
    unfolding assms(8) flap(4) [symmetric]
    by (rule Pick_frozen(1) [OF frozen_start [OF flap(2), unfolded flap(1)] flap(3)]) (use ne in simp_all)
  have ps: "?ps \<noteq> []"
    using synced_prefs(3) [OF assms(1,2) refl, of key] ne(1) by (auto simp: backend_prefs_def)
  have some: "filter (avail now ?p) ?ps \<noteq> []" and h1: "hd o1 = hd (filter (avail now ?p) ?ps)"
    using spec_pick_hd_available [OF k ps, of "answer now ?p"] assms(6) unfolding o1 by simp_all
  have "\<forall>j \<in> set ?ps. j \<noteq> x \<longrightarrow> avail now ?q j = avail now ?p j" using flap(5) by blast
  from hd_filter_flip [OF this some] have f: "filter (avail now ?q) ?ps \<noteq> []"
    "hd (filter (avail now ?q) ?ps) = (if avail now ?q x \<and> x \<in> ahead_of ?ps (hd o1) then x else hd o1)"
    using assms(5) h1 by simp_all
  then have "hd o2 = hd (filter (avail now ?q) ?ps)" unfolding o2 using k by (simp add: spec_pick_def)
  then show ?thesis using f flap(6) by auto
qed

theorem flap_moves_only_its_keys_witness:
  "\<exists>x < 2. \<exists>o2. snd (snd (Pick sample_hash (\<lambda>_. 7) two_balancer ''k'' 2
      (two_world\<lparr>w_pool := fst (Backend_SetState two_pool x StateUnhealthy)\<rparr>))) = o2 \<and> hd o2 = 1 - x"
proof -
  let ?o = "snd (snd (Pick sample_hash (\<lambda>_. 7) two_balancer ''k'' 2 two_world))"
  have o: "hd ?o < 2 \<and> avail 7 two_pool (hd ?o)" by (rule two_pick)
  have lt: "hd ?o = 0 \<or> hd ?o = 1" using o by linarith
  let ?x = "1 - hd ?o"
  have "hd ?o \<noteq> ?x" "?x < length (pl_backends (w_pool two_world))" unfolding two_len using lt by fastforce+
  then have "hd (snd (snd (Pick sample_hash (\<lambda>_. 7) two_balancer ''k'' 2
      (two_world\<lparr>w_pool := fst (Backend_SetState two_pool ?x StateUnhealthy)\<rparr>)))) = hd ?o"
    using flap_moves_only_its_keys [of two_world sample_hash two_balancer ?x _ 7 "''k''" 2, OF _ _ _ refl _ _ refl refl, of StateUnhealthy]
      two_ok o by (simp add: two_len)
  moreover have "?x < 2" "hd ?o = 1 - ?x" using lt by fastforce+
  ultimately show ?thesis by metis
qed

text \<open>
  Requests without a key spread evenly. While all \<open>n\<close> backends are available, \<open>n\<close> consecutive
  keyless picks start at \<open>n\<close> different backends (as long as the 64-bit counter does not wrap).
\<close>

theorem keyless_requests_spread_evenly:
  assumes "pool_inv (w_pool w)" and "synced h (w_pool w) b" and "n = length (pl_backends (w_pool w))" and "0 < n"
    and "\<forall>i < n. avail now (w_pool w) i" and "unat (ba_rr b) + n \<le> 2 ^ 64"
  shows "mset (keyless_heads h (\<lambda>_. now) k n b w) = mset [0..<n]"
proof -
  let ?A = "\<lambda>f i. f = filterAny \<or> answer now (w_pool w) f i"
  have "answer now (w_pool w) f i" if "i < n" for f i
    using assms(5) that by (cases f) (auto simp: avail_def Backend_Available_def split: if_splits)
  then have "keyless_heads h (\<lambda>_. now) k n b w = map (\<lambda>j. (unat (ba_rr b) + j) mod n) [0..<n]"
    using frozen_start [OF assms(1), of now] assms
    by (intro keyless_heads_frozen [where A = ?A]) (auto simp: frozen_def)
  also have "\<dots> = rotate (unat (ba_rr b)) [0..<n]"
    using rotation_as_rotate [of "[0..<n]" "unat (ba_rr b)"] assms(4) by (simp cong: map_cong)
  finally show ?thesis
    by (metis distinct_rotate distinct_upt set_eq_iff_mset_eq_distinct set_rotate)
qed

theorem keyless_requests_spread_evenly_witness:
  "mset (keyless_heads sample_hash (\<lambda>_. 7) 1 2 two_balancer two_world) = mset [0..<2]"
  using keyless_requests_spread_evenly [of two_world sample_hash two_balancer 2 7 1] two_ok two_rr
  by (simp add: two_len)

end
