(* ===== verification/Ratelimit.thy ===== *)
theory Ratelimit
  imports Float64
begin

text \<open>
  \<^verbatim>\<open>internal/ratelimit/ratelimit.go\<close>: a global token bucket and per-client buckets in a sharded map.
  The buckets are \<^verbatim>\<open>golang.org/x/time/rate\<close> limiters, which are parameters: \<open>newl\<close> is
  \<open>rate.NewLimiter\<close> and \<open>allow\<close> is \<open>Limiter.Allow\<close> at a reading of the clock. The hash \<open>h\<close> is
  \<open>xxhash.Sum64String\<close>. An \<open>*entry\<close> is an index into \<open>li_heap\<close>, so that goroutines can hold on
  to an entry that the janitor has evicted; \<open>client\<close> is split at its locks.
\<close>

subsection \<open>Data\<close>

definition shardCount :: nat where "shardCount = 32"

definition defaultTTL :: duration where "defaultTTL = 5 * 60 * second"

record rate_config =
  rc_Enabled :: bool
  rc_RPS :: f64
  rc_Burst :: int
  rc_PerClient :: bool
  rc_PerClientRPS :: f64
  rc_PerClientBurst :: int
  rc_TTL :: duration

text \<open>\<open>rate.Limit\<close>, with its constant \<open>rate.Inf\<close>.\<close>

datatype rate_limit = Rate_Inf | Rate f64

record 'l entry =
  en_lim :: 'l
  en_last :: int

type_synonym shard = "(string \<times> nat) list"

record 'l limiter =
  li_enabled :: bool
  li_perClient :: bool
  li_ttl :: duration
  li_global :: 'l
  li_clientRate :: rate_limit
  li_clientBurst :: int
  li_shards :: "shard list"
  li_heap :: "'l entry list"
  li_stop :: bool \<comment> \<open>whether \<open>stop\<close> is closed\<close>
  li_janitor :: bool \<comment> \<open>whether the janitor goroutine exists\<close>

subsection \<open>Construction\<close>

definition bucketParams :: "(f64 \<Rightarrow> int) \<Rightarrow> f64 \<Rightarrow> int \<Rightarrow> rate_limit \<times> int" where
  "bucketParams oob rps burst =
     (if f64_le rps (Fin 0) \<or> f64_isNaN rps then (Rate_Inf, 0)
      else let burst = (if burst \<le> 0
                        then let b = f64_toInt oob (f64_ceil rps) in if b < 1 then 1 else b
                        else burst)
           in (Rate rps, burst))"

definition newWithClock :: "(rate_limit \<Rightarrow> int \<Rightarrow> 'l) \<Rightarrow> (f64 \<Rightarrow> int) \<Rightarrow> rate_config \<Rightarrow> 'l limiter" where
  "newWithClock newl oob c =
     (let ttl = (if rc_TTL c \<le> 0 then defaultTTL else rc_TTL c);
          (globalRate, globalBurst) = bucketParams oob (rc_RPS c) (rc_Burst c);
          (clientRate, clientBurst) = bucketParams oob (rc_PerClientRPS c) (rc_PerClientBurst c)
      in \<lparr>li_enabled = rc_Enabled c, li_perClient = rc_PerClient c, li_ttl = ttl,
          li_global = newl globalRate globalBurst, li_clientRate = clientRate, li_clientBurst = clientBurst,
          li_shards = replicate shardCount [], li_heap = [], li_stop = False,
          li_janitor = (rc_Enabled c \<and> rc_PerClient c)\<rparr>)"

subsection \<open>Requests\<close>

definition shard_index :: "(string \<Rightarrow> 64 word) \<Rightarrow> string \<Rightarrow> nat" where
  "shard_index h key = unat (h key) mod shardCount"

text \<open>The lookup under the read lock.\<close>

definition client_read :: "(string \<Rightarrow> 64 word) \<Rightarrow> 'l limiter \<Rightarrow> string \<Rightarrow> nat option" where
  "client_read h l key = map_of (li_shards l ! shard_index h key) key"

text \<open>The section under the write lock.\<close>

definition client_create ::
  "(rate_limit \<Rightarrow> int \<Rightarrow> 'l) \<Rightarrow> (string \<Rightarrow> 64 word) \<Rightarrow> 'l limiter \<Rightarrow> string \<Rightarrow> 'l limiter \<times> nat" where
  "client_create newl h l key =
     (case client_read h l key of
        Some e \<Rightarrow> (l, e)
      | None \<Rightarrow>
          (let e = length (li_heap l); i = shard_index h key
           in (l\<lparr>li_heap := li_heap l @ [\<lparr>en_lim = newl (li_clientRate l) (li_clientBurst l), en_last = 0\<rparr>],
                 li_shards := (li_shards l)[i := (key, e) # li_shards l ! i]\<rparr>, e)))"

definition entry_touch :: "'l limiter \<Rightarrow> nat \<Rightarrow> go_time \<Rightarrow> 'l limiter" where
  "entry_touch l e now = l\<lparr>li_heap := (li_heap l)[e := (li_heap l ! e)\<lparr>en_last := i64 now\<rparr>]\<rparr>"

definition entry_allow :: "('l \<Rightarrow> go_time \<Rightarrow> 'l \<times> bool) \<Rightarrow> 'l limiter \<Rightarrow> nat \<Rightarrow> go_time \<Rightarrow> 'l limiter \<times> bool" where
  "entry_allow allow l e now =
     (let (b, ok) = allow (en_lim (li_heap l ! e)) now
      in (l\<lparr>li_heap := (li_heap l)[e := (li_heap l ! e)\<lparr>en_lim := b\<rparr>]\<rparr>, ok))"

definition client ::
  "(rate_limit \<Rightarrow> int \<Rightarrow> 'l) \<Rightarrow> (string \<Rightarrow> 64 word) \<Rightarrow> 'l limiter \<Rightarrow> string \<Rightarrow> go_time \<Rightarrow> 'l limiter \<times> nat" where
  "client newl h l key now =
     (let (l, e) = (case client_read h l key of Some e \<Rightarrow> (l, e) | None \<Rightarrow> client_create newl h l key)
      in (entry_touch l e now, e))"

text \<open>\<open>Allow\<close> reads the clock for the global bucket, for the entry and for the client's bucket.\<close>

definition Limiter_Allow ::
  "(rate_limit \<Rightarrow> int \<Rightarrow> 'l) \<Rightarrow> ('l \<Rightarrow> go_time \<Rightarrow> 'l \<times> bool) \<Rightarrow> (string \<Rightarrow> 64 word) \<Rightarrow>
   'l limiter \<Rightarrow> string \<Rightarrow> go_time \<times> go_time \<times> go_time \<Rightarrow> 'l limiter \<times> bool" where
  "Limiter_Allow newl allow h l clientKey ts =
     (case ts of (tg, te, tc) \<Rightarrow>
        if \<not> li_enabled l then (l, True)
        else let (g, ok) = allow (li_global l) tg; l = l\<lparr>li_global := g\<rparr>
             in if \<not> ok then (l, False)
                else if \<not> li_perClient l then (l, True)
                else let (l, e) = client newl h l clientKey te in entry_allow allow l e tc)"

definition PerClient :: "'l limiter \<Rightarrow> bool" where
  "PerClient l = (li_enabled l \<and> li_perClient l)"

definition Clients :: "'l limiter \<Rightarrow> int" where
  "Clients l = foldl (\<lambda>n i. n + int (length (li_shards l ! i))) 0 [0..<length (li_shards l)]"

subsection \<open>The janitor\<close>

definition sweep_shard :: "int \<Rightarrow> 'l limiter \<Rightarrow> nat \<Rightarrow> 'l limiter" where
  "sweep_shard cutoff l i =
     l\<lparr>li_shards := (li_shards l)[i := filter (\<lambda>(k, e). \<not> en_last (li_heap l ! e) < cutoff) (li_shards l ! i)]\<rparr>"

definition sweep :: "'l limiter \<Rightarrow> int \<Rightarrow> 'l limiter" where
  "sweep l cutoff = foldl (sweep_shard cutoff) l [0..<length (li_shards l)]"

text \<open>
  The janitor on the events its \<open>select\<close> receives: ticks at clock readings, until \<open>stop\<close> is closed
  (\<open>None\<close>). \<open>time.NewTicker\<close> panics on a period that is not positive.
\<close>

fun janitor_loop :: "'l limiter \<Rightarrow> go_time option list \<Rightarrow> 'l limiter" where
  "janitor_loop l [] = l"
| "janitor_loop l (None # evs) = l"
| "janitor_loop l (Some now # evs) = janitor_loop (sweep l (i64 (now - li_ttl l))) evs"

definition janitor :: "'l limiter \<Rightarrow> go_time option list \<Rightarrow> 'l limiter option" where
  "janitor l evs = (if li_ttl l sdiv 2 \<le> 0 then None else Some (janitor_loop l evs))"

definition Limiter_Close :: "'l limiter \<Rightarrow> 'l limiter" where
  "Limiter_Close l = (if li_stop l then l else l\<lparr>li_stop := True, li_janitor := False\<rparr>)"

subsection \<open>One flat map of buckets\<close>

text \<open>
  What the limiter promises: a bucket for everybody and a bucket per client, with the instant of the
  client's last request. Sharding and pointers do not appear.
\<close>

record 'l flat =
  fl_global :: 'l
  fl_clients :: "string \<rightharpoonup> 'l \<times> int"

definition spec_Allow ::
  "(rate_limit \<Rightarrow> int \<Rightarrow> 'l) \<Rightarrow> ('l \<Rightarrow> go_time \<Rightarrow> 'l \<times> bool) \<Rightarrow> 'l limiter \<Rightarrow> 'l flat \<Rightarrow> string \<Rightarrow>
   go_time \<times> go_time \<times> go_time \<Rightarrow> 'l flat \<times> bool" where
  "spec_Allow newl allow l f key ts =
     (case ts of (tg, te, tc) \<Rightarrow>
        if \<not> li_enabled l then (f, True)
        else let (g, ok) = allow (fl_global f) tg
             in if \<not> ok \<or> \<not> li_perClient l then (f\<lparr>fl_global := g\<rparr>, ok)
                else let b = (case fl_clients f key of Some (b, _) \<Rightarrow> b | None \<Rightarrow> newl (li_clientRate l) (li_clientBurst l));
                         (b, ok) = allow b tc
                     in (f\<lparr>fl_global := g, fl_clients := (fl_clients f)(key \<mapsto> (b, i64 te))\<rparr>, ok))"

definition spec_sweep :: "'l flat \<Rightarrow> int \<Rightarrow> 'l flat" where
  "spec_sweep f cutoff =
     f\<lparr>fl_clients := (\<lambda>k. case fl_clients f k of
         Some (b, t) \<Rightarrow> if t < cutoff then None else Some (b, t) | None \<Rightarrow> None)\<rparr>"

definition flat_of :: "(string \<Rightarrow> 64 word) \<Rightarrow> 'l limiter \<Rightarrow> 'l flat" where
  "flat_of h l = \<lparr>fl_global = li_global l,
     fl_clients = (\<lambda>k. map_option (\<lambda>e. (en_lim (li_heap l ! e), en_last (li_heap l ! e))) (client_read h l k))\<rparr>"

datatype limiter_op = OpAllow string "go_time \<times> go_time \<times> go_time" | OpSweep int

fun limiter_run ::
  "(rate_limit \<Rightarrow> int \<Rightarrow> 'l) \<Rightarrow> ('l \<Rightarrow> go_time \<Rightarrow> 'l \<times> bool) \<Rightarrow> (string \<Rightarrow> 64 word) \<Rightarrow>
   'l limiter \<Rightarrow> limiter_op list \<Rightarrow> 'l limiter \<times> bool list" where
  "limiter_run newl allow h l [] = (l, [])"
| "limiter_run newl allow h l (OpAllow key ts # ops) =
     (let (l, ok) = Limiter_Allow newl allow h l key ts; (l, oks) = limiter_run newl allow h l ops in (l, ok # oks))"
| "limiter_run newl allow h l (OpSweep cutoff # ops) = limiter_run newl allow h (sweep l cutoff) ops"

fun spec_limiter_run ::
  "(rate_limit \<Rightarrow> int \<Rightarrow> 'l) \<Rightarrow> ('l \<Rightarrow> go_time \<Rightarrow> 'l \<times> bool) \<Rightarrow> 'l limiter \<Rightarrow> 'l flat \<Rightarrow>
   limiter_op list \<Rightarrow> 'l flat \<times> bool list" where
  "spec_limiter_run newl allow l f [] = (f, [])"
| "spec_limiter_run newl allow l f (OpAllow key ts # ops) =
     (let (f, ok) = spec_Allow newl allow l f key ts; (f, oks) = spec_limiter_run newl allow l f ops in (f, ok # oks))"
| "spec_limiter_run newl allow l f (OpSweep cutoff # ops) = spec_limiter_run newl allow l (spec_sweep f cutoff) ops"

definition limiter_inv :: "(string \<Rightarrow> 64 word) \<Rightarrow> 'l limiter \<Rightarrow> bool" where
  "limiter_inv h l =
     (length (li_shards l) = shardCount \<and>
      (\<forall>i < shardCount. distinct (map fst (li_shards l ! i)) \<and>
         (\<forall>(k, e) \<in> set (li_shards l ! i). shard_index h k = i \<and> e < length (li_heap l))) \<and>
      (\<forall>k k' e. client_read h l k = Some e \<longrightarrow> client_read h l k' = Some e \<longrightarrow> k = k'))"

subsection \<open>Lookups and the invariant\<close>

lemma shard_index_less [simp]: "shard_index h k < shardCount"
  by (simp add: shard_index_def shardCount_def)

lemma client_read_update [simp]:
  "client_read h (l\<lparr>li_heap := es\<rparr>) = client_read h l" "client_read h (l\<lparr>li_global := g\<rparr>) = client_read h l"
  "client_read h (entry_touch l e t) = client_read h l"
  "client_read h (fst (entry_allow allow l e t)) = client_read h l"
  by (simp_all add: fun_eq_iff client_read_def entry_touch_def entry_allow_def split_beta)

lemma limiter_shape [simp]:
  "length (li_heap (entry_touch l e t)) = length (li_heap l)"
  "length (li_heap (fst (entry_allow allow l e t))) = length (li_heap l)"
  "li_shards (entry_touch l e t) = li_shards l" "li_shards (fst (entry_allow allow l e t)) = li_shards l"
  by (simp_all add: entry_touch_def entry_allow_def split_beta)

lemma limiter_inv_heap:
  "limiter_inv h l \<Longrightarrow> li_shards l' = li_shards l \<Longrightarrow> length (li_heap l') = length (li_heap l) \<Longrightarrow> limiter_inv h l'"
  by (simp add: limiter_inv_def client_read_def)

lemma read_bound: "limiter_inv h l \<Longrightarrow> client_read h l k = Some e \<Longrightarrow> e < length (li_heap l)"
  unfolding limiter_inv_def client_read_def by (metis (no_types, lifting) case_prodD map_of_SomeD shard_index_less)

lemma read_inj: "limiter_inv h l \<Longrightarrow> client_read h l k = Some e \<Longrightarrow> client_read h l k' = Some e \<Longrightarrow> k = k'"
  unfolding limiter_inv_def by blast

lemma create_hit: "client_read h l key = Some e \<Longrightarrow> client_create newl h l key = (l, e)"
  by (simp add: client_create_def)

lemma create_read:
  assumes "limiter_inv h l"
  shows "client_read h (fst (client_create newl h l key)) k =
    (if k = key then Some (snd (client_create newl h l key)) else client_read h l k)"
proof (cases "client_read h l key")
  case None
  have "shard_index h key < length (li_shards l)" using assms by (simp add: limiter_inv_def)
  then show ?thesis using None by (auto simp: client_create_def Let_def client_read_def nth_list_update)
qed (simp add: create_hit)

lemma create_heap:
  assumes "client_read h l key = None"
  shows "snd (client_create newl h l key) = length (li_heap l)"
    and "li_heap (fst (client_create newl h l key)) =
      li_heap l @ [\<lparr>en_lim = newl (li_clientRate l) (li_clientBurst l), en_last = 0\<rparr>]"
  using assms by (simp_all add: client_create_def Let_def)

lemma create_inv:
  assumes inv: "limiter_inv h l"
  shows "limiter_inv h (fst (client_create newl h l key))"
proof (cases "client_read h l key")
  case None
  let ?l = "fst (client_create newl h l key)"
  let ?i = "shard_index h key"
  have sh: "li_shards ?l = (li_shards l)[?i := (key, length (li_heap l)) # li_shards l ! ?i]"
    using None by (simp add: client_create_def Let_def)
  have new: "key \<notin> fst ` set (li_shards l ! ?i)" using None by (simp add: client_read_def map_of_eq_None_iff)
  have len: "length (li_shards l) = shardCount" using inv by (simp add: limiter_inv_def)
  have "\<forall>i < shardCount. distinct (map fst (li_shards ?l ! i)) \<and>
      (\<forall>(k, e) \<in> set (li_shards ?l ! i). shard_index h k = i \<and> e < length (li_heap ?l))"
    using inv new len None unfolding sh limiter_inv_def
    by (auto simp: nth_list_update create_heap less_Suc_eq)
  moreover have "k = k'" if "client_read h ?l k = Some e" "client_read h ?l k' = Some e" for k k' e
    using that read_inj [OF inv, of k e k'] read_bound [OF inv, of _ e] create_heap(1) [OF None, of newl]
    by (auto simp: create_read [OF inv] split: if_splits)
  ultimately show ?thesis using sh len unfolding limiter_inv_def by simp
qed (simp add: create_hit inv)

lemma distinct_map_of_filter:
  "distinct (map fst xs) \<Longrightarrow> map_of (filter P xs) k = (case map_of xs k of Some v \<Rightarrow> if P (k, v) then Some v else None | None \<Rightarrow> None)"
  by (induction xs) (auto simp: map_of_eq_None_iff image_iff split: option.split)

lemma sweep_shard_fixed [simp]:
  "li_heap (sweep_shard cutoff l i) = li_heap l" "li_global (sweep_shard cutoff l i) = li_global l"
  "li_enabled (sweep_shard cutoff l i) = li_enabled l" "li_perClient (sweep_shard cutoff l i) = li_perClient l"
  "li_clientRate (sweep_shard cutoff l i) = li_clientRate l" "li_clientBurst (sweep_shard cutoff l i) = li_clientBurst l"
  "length (li_shards (sweep_shard cutoff l i)) = length (li_shards l)"
  by (simp_all add: sweep_shard_def)

lemma sweep_shard_read:
  assumes "limiter_inv h l" "i < shardCount"
  shows "client_read h (sweep_shard cutoff l i) k =
    (case client_read h l k of
       Some e \<Rightarrow> if shard_index h k = i \<and> en_last (li_heap l ! e) < cutoff then None else Some e
     | None \<Rightarrow> None)"
proof -
  have "distinct (map fst (li_shards l ! i))" "length (li_shards l) = shardCount"
    using assms by (auto simp: limiter_inv_def)
  then show ?thesis using assms(2)
    by (auto simp: client_read_def sweep_shard_def nth_list_update distinct_map_of_filter split: option.split)
qed

lemma sweep_shard_inv:
  assumes inv: "limiter_inv h l" and i: "i < shardCount"
  shows "limiter_inv h (sweep_shard cutoff l i)"
proof -
  have "k = k'" if "client_read h (sweep_shard cutoff l i) k = Some e" "client_read h (sweep_shard cutoff l i) k' = Some e"
    for k k' e
    using that read_inj [OF inv, of k e k'] by (auto simp: sweep_shard_read [OF assms] split: option.splits if_splits)
  moreover have "\<forall>j < shardCount. distinct (map fst (li_shards (sweep_shard cutoff l i) ! j)) \<and>
      (\<forall>(k, e) \<in> set (li_shards (sweep_shard cutoff l i) ! j). shard_index h k = j \<and> e < length (li_heap l))"
    using inv i unfolding limiter_inv_def
    by (auto simp: sweep_shard_def nth_list_update distinct_map_filter)
  ultimately show ?thesis using inv by (simp add: limiter_inv_def sweep_shard_def)
qed

lemma sweep_prefix:
  assumes "limiter_inv h l" "n \<le> shardCount"
  shows "let m = foldl (sweep_shard cutoff) l [0..<n] in limiter_inv h m \<and> li_heap m = li_heap l \<and> li_global m = li_global l \<and>
    (\<forall>k. client_read h m k = (case client_read h l k of
       Some e \<Rightarrow> if shard_index h k < n \<and> en_last (li_heap l ! e) < cutoff then None else Some e
     | None \<Rightarrow> None))"
  unfolding Let_def using assms(2)
proof (induction n)
  case 0
  then show ?case using assms(1) by (simp split: option.split)
next
  case (Suc n)
  let ?m = "foldl (sweep_shard cutoff) l [0..<n]"
  have IH: "limiter_inv h ?m" "li_heap ?m = li_heap l" "li_global ?m = li_global l" using Suc by auto
  show ?case using Suc IH sweep_shard_inv [OF IH(1), of n cutoff]
    by (auto simp: sweep_shard_read [OF IH(1)] less_Suc_eq split: option.split)
qed

subsection \<open>The simulation\<close>

lemma settings_fixed:
  "li_enabled (fst (Limiter_Allow newl allow h l key ts)) = li_enabled l"
  "li_perClient (fst (Limiter_Allow newl allow h l key ts)) = li_perClient l"
  "li_clientRate (fst (Limiter_Allow newl allow h l key ts)) = li_clientRate l"
  "li_clientBurst (fst (Limiter_Allow newl allow h l key ts)) = li_clientBurst l"
  by (auto simp: Limiter_Allow_def client_def client_create_def entry_touch_def entry_allow_def Let_def split_beta
      split: option.split)

lemma sweep_fixed [simp]:
  "li_enabled (sweep l cutoff) = li_enabled l" "li_perClient (sweep l cutoff) = li_perClient l"
  "li_clientRate (sweep l cutoff) = li_clientRate l" "li_clientBurst (sweep l cutoff) = li_clientBurst l"
proof -
  have "li_enabled (foldl (sweep_shard cutoff) l xs) = li_enabled l \<and>
      li_perClient (foldl (sweep_shard cutoff) l xs) = li_perClient l \<and>
      li_clientRate (foldl (sweep_shard cutoff) l xs) = li_clientRate l \<and>
      li_clientBurst (foldl (sweep_shard cutoff) l xs) = li_clientBurst l" for xs
    by (induction xs arbitrary: l) simp_all
  then show "li_enabled (sweep l cutoff) = li_enabled l" "li_perClient (sweep l cutoff) = li_perClient l"
    "li_clientRate (sweep l cutoff) = li_clientRate l" "li_clientBurst (sweep l cutoff) = li_clientBurst l"
    by (simp_all add: sweep_def)
qed

lemma spec_sweep_sim:
  assumes "limiter_inv h l"
  shows "limiter_inv h (sweep l cutoff)" and "flat_of h (sweep l cutoff) = spec_sweep (flat_of h l) cutoff"
proof -
  have "length (li_shards l) = shardCount" using assms by (simp add: limiter_inv_def)
  then have *: "limiter_inv h (sweep l cutoff) \<and> li_heap (sweep l cutoff) = li_heap l \<and>
    li_global (sweep l cutoff) = li_global l \<and>
    (\<forall>k. client_read h (sweep l cutoff) k = (case client_read h l k of
       Some e \<Rightarrow> if shard_index h k < shardCount \<and> en_last (li_heap l ! e) < cutoff then None else Some e
     | None \<Rightarrow> None))"
    using sweep_prefix [OF assms order_refl, of cutoff] by (simp add: Let_def sweep_def)
  then show "limiter_inv h (sweep l cutoff)" by simp
  show "flat_of h (sweep l cutoff) = spec_sweep (flat_of h l) cutoff"
    using * by (auto simp: flat_of_def spec_sweep_def fun_eq_iff split: option.split)
qed

text \<open>The three steps of \<open>client(key).Allow()\<close> together.\<close>

lemma client_sim:
  assumes inv: "limiter_inv h l" and c: "client newl h l key te = (l', e)"
    and a: "entry_allow allow l' e tc = (l'', ok)"
  shows "limiter_inv h l''"
    and "ok = snd (allow (case fl_clients (flat_of h l) key of Some (b, _) \<Rightarrow> b
            | None \<Rightarrow> newl (li_clientRate l) (li_clientBurst l)) tc)"
    and "flat_of h l'' = (flat_of h l)\<lparr>fl_clients := (fl_clients (flat_of h l))(key \<mapsto>
          (fst (allow (case fl_clients (flat_of h l) key of Some (b, _) \<Rightarrow> b
            | None \<Rightarrow> newl (li_clientRate l) (li_clientBurst l)) tc), i64 te))\<rparr>"
proof -
  obtain m where m: "client_create newl h l key = (m, e)" and l': "l' = entry_touch m e te"
    using c by (auto simp: client_def create_hit split: option.splits prod.splits)
  have minv: "limiter_inv h m" using create_inv [OF inv, of newl key] m by simp
  have l'': "l'' = fst (entry_allow allow l' e tc)" using a by simp
  show "limiter_inv h l''"
    by (rule limiter_inv_heap [OF minv]) (simp_all add: l'' l')
  have rd: "client_read h m k = (if k = key then Some e else client_read h l k)" for k
    using create_read [OF inv, of newl key k] m by simp
  have eb: "e < length (li_heap m)" using read_bound [OF minv, of key e] rd by simp
  have g: "li_global m = li_global l"
    using m by (auto simp: client_create_def Let_def split: option.splits)
  have lim: "en_lim (li_heap m ! e) = (case fl_clients (flat_of h l) key of Some (b, _) \<Rightarrow> b
      | None \<Rightarrow> newl (li_clientRate l) (li_clientBurst l))"
  proof (cases "client_read h l key")
    case None
    then show ?thesis using create_heap [OF None, of newl] m by (simp add: flat_of_def)
  next
    case (Some x)
    then show ?thesis using m by (auto simp: create_hit flat_of_def)
  qed
  have other: "li_heap l'' ! x = li_heap l ! x" if "client_read h l k = Some x" "k \<noteq> key" for k x
  proof -
    have "x < length (li_heap l)" by (rule read_bound [OF inv that(1)])
    moreover have "x \<noteq> e" using read_inj [OF minv, of k x key] rd that by auto
    moreover have "li_heap m ! x = li_heap l ! x" if "x < length (li_heap l)"
      using m that create_heap(2) [of h l key newl] by (cases "client_read h l key") (auto simp: create_hit nth_append)
    ultimately show ?thesis by (simp add: l'' l' entry_allow_def entry_touch_def split_beta)
  qed
  have self: "li_heap l'' ! e = \<lparr>en_lim = fst (allow (en_lim (li_heap m ! e)) tc), en_last = i64 te\<rparr>"
    using eb by (simp add: l'' l' entry_allow_def entry_touch_def split_beta)
  show "ok = snd (allow (case fl_clients (flat_of h l) key of Some (b, _) \<Rightarrow> b
      | None \<Rightarrow> newl (li_clientRate l) (li_clientBurst l)) tc)"
    using a eb unfolding lim [symmetric] by (auto simp: entry_allow_def l' entry_touch_def split: prod.splits)
  have "client_read h l'' k = client_read h m k" for k by (simp add: l'' l')
  moreover have "li_global l'' = li_global l"
    using g by (simp add: l'' l' entry_allow_def entry_touch_def split_beta)
  ultimately show "flat_of h l'' = (flat_of h l)\<lparr>fl_clients := (fl_clients (flat_of h l))(key \<mapsto>
      (fst (allow (case fl_clients (flat_of h l) key of Some (b, _) \<Rightarrow> b
        | None \<Rightarrow> newl (li_clientRate l) (li_clientBurst l)) tc), i64 te))\<rparr>"
    unfolding lim [symmetric] using self other
    by (auto simp: flat_of_def fun_eq_iff rd intro!: map_option_cong)
qed

lemma Allow_sim:
  assumes inv: "limiter_inv h l"
  shows "limiter_inv h (fst (Limiter_Allow newl allow h l key ts))"
    and "spec_Allow newl allow l (flat_of h l) key ts =
      (flat_of h (fst (Limiter_Allow newl allow h l key ts)), snd (Limiter_Allow newl allow h l key ts))"
proof -
  obtain tg te tc where ts: "ts = (tg, te, tc)" by (cases ts)
  obtain g ok where g: "allow (li_global l) tg = (g, ok)" by (cases "allow (li_global l) tg")
  let ?l = "l\<lparr>li_global := g\<rparr>"
  have linv: "limiter_inv h ?l" by (rule limiter_inv_heap [OF inv]) simp_all
  obtain l' e where c: "client newl h ?l key te = (l', e)" by (cases "client newl h ?l key te")
  obtain l'' ok' where a: "entry_allow allow l' e tc = (l'', ok')" by (cases "entry_allow allow l' e tc")
  have fl: "flat_of h ?l = (flat_of h l)\<lparr>fl_global := g\<rparr>" by (simp add: flat_of_def)
  have gl: "fl_global (flat_of h l) = li_global l" by (simp add: flat_of_def)
  note sim = client_sim [OF linv c a]
  let ?b = "case fl_clients (flat_of h l) key of Some (b, _) \<Rightarrow> b | None \<Rightarrow> newl (li_clientRate l) (li_clientBurst l)"
  have ok': "ok' = snd (allow ?b tc)" using sim(2) unfolding fl by (simp cong: option.case_cong)
  have fl'': "flat_of h l'' = (flat_of h l)\<lparr>fl_global := g,
      fl_clients := (fl_clients (flat_of h l))(key \<mapsto> (fst (allow ?b tc), i64 te))\<rparr>"
    using sim(3) unfolding fl by (simp cong: option.case_cong)
  show "limiter_inv h (fst (Limiter_Allow newl allow h l key ts))"
    using inv linv sim(1) c a g by (simp add: Limiter_Allow_def ts Let_def)
  show "spec_Allow newl allow l (flat_of h l) key ts =
      (flat_of h (fst (Limiter_Allow newl allow h l key ts)), snd (Limiter_Allow newl allow h l key ts))"
    using ok' fl'' fl c a g by (auto simp: Limiter_Allow_def spec_Allow_def ts Let_def split_beta gl)
qed

lemma spec_run_settings:
  assumes "li_enabled l' = li_enabled l" "li_perClient l' = li_perClient l"
    "li_clientRate l' = li_clientRate l" "li_clientBurst l' = li_clientBurst l"
  shows "spec_limiter_run newl allow l' f ops = spec_limiter_run newl allow l f ops"
proof -
  have "spec_Allow newl allow l' = spec_Allow newl allow l" unfolding spec_Allow_def assms by (rule refl)
  moreover have "spec_limiter_run newl allow l' f (op # ops) = spec_limiter_run newl allow l f (op # ops)"
    if "spec_Allow newl allow l' = spec_Allow newl allow l"
      "\<And>f. spec_limiter_run newl allow l' f ops = spec_limiter_run newl allow l f ops" for op ops f
    using that by (cases op) simp_all
  ultimately show ?thesis by (induction ops arbitrary: f) simp_all
qed

lemma run_sim:
  assumes "limiter_inv h l"
  shows "limiter_inv h (fst (limiter_run newl allow h l ops)) \<and>
    spec_limiter_run newl allow l (flat_of h l) ops =
      (flat_of h (fst (limiter_run newl allow h l ops)), snd (limiter_run newl allow h l ops))"
  using assms
proof (induction newl allow h l ops rule: limiter_run.induct)
  case (2 newl allow h l key ts ops)
  obtain l' ok where l': "Limiter_Allow newl allow h l key ts = (l', ok)" by (cases "Limiter_Allow newl allow h l key ts")
  note sim = Allow_sim [OF "2.prems", of newl allow key ts, unfolded l', simplified]
  have "spec_limiter_run newl allow l' f ops = spec_limiter_run newl allow l f ops" for f
    using settings_fixed [of newl allow h l key ts] l' by (intro spec_run_settings) simp_all
  then show ?case using "2.IH" [OF l' [symmetric] refl] sim l' by (simp add: split_beta)
next
  case (3 newl allow h l cutoff ops)
  have "spec_limiter_run newl allow (sweep l cutoff) f ops = spec_limiter_run newl allow l f ops" for f
    by (intro spec_run_settings) simp_all
  then show ?case using 3 spec_sweep_sim [OF "3.prems", of cutoff] by simp
qed simp

lemma Clients_sum: "Clients l = (\<Sum>i<length (li_shards l). int (length (li_shards l ! i)))"
proof -
  have "foldl (\<lambda>n i. n + f i) a xs = a + sum_list (map f xs)" for f :: "nat \<Rightarrow> int" and a xs
    by (induction xs arbitrary: a) simp_all
  then show ?thesis by (simp add: Clients_def sum_list_distinct_conv_sum_set atLeast0LessThan)
qed

lemma Clients_card:
  assumes inv: "limiter_inv h l"
  shows "finite (dom (fl_clients (flat_of h l)))" and "Clients l = int (card (dom (fl_clients (flat_of h l))))"
proof -
  let ?K = "\<lambda>i. fst ` set (li_shards l ! i)"
  have len: "length (li_shards l) = shardCount" using inv by (simp add: limiter_inv_def)
  have idx: "shard_index h k = i" if "k \<in> ?K i" "i < shardCount" for k i
  proof -
    from that(1) obtain e where "(k, e) \<in> set (li_shards l ! i)" by auto
    then show ?thesis using inv that(2) unfolding limiter_inv_def by blast
  qed
  have "dom (fl_clients (flat_of h l)) = (\<Union>i\<in>{..<shardCount}. ?K i)"
  proof (intro set_eqI iffI)
    fix k
    assume "k \<in> dom (fl_clients (flat_of h l))"
    then have "k \<in> ?K (shard_index h k)"
      by (auto simp: flat_of_def client_read_def dom_map_of_conv_image_fst [symmetric])
    then show "k \<in> (\<Union>i\<in>{..<shardCount}. ?K i)" using shard_index_less lessThan_iff by blast
  next
    fix k
    assume "k \<in> (\<Union>i\<in>{..<shardCount}. ?K i)"
    then have "k \<in> ?K (shard_index h k)" using idx by auto
    then have "client_read h l k \<noteq> None" by (simp add: client_read_def map_of_eq_None_iff)
    then show "k \<in> dom (fl_clients (flat_of h l))" by (auto simp: flat_of_def dom_def)
  qed
  note dom = this
  show "finite (dom (fl_clients (flat_of h l)))" unfolding dom by simp
  have "card (dom (fl_clients (flat_of h l))) = (\<Sum>i\<in>{..<shardCount}. card (?K i))"
    unfolding dom
  proof (rule card_UN_disjoint)
    show "\<forall>i\<in>{..<shardCount}. \<forall>j\<in>{..<shardCount}. i \<noteq> j \<longrightarrow> ?K i \<inter> ?K j = {}"
      using idx lessThan_iff by (metis (no_types, lifting) disjoint_iff)
  qed simp_all
  also have "\<dots> = (\<Sum>i\<in>{..<shardCount}. length (li_shards l ! i))"
    using inv by (intro sum.cong) (auto simp: limiter_inv_def dest!: distinct_card)
  finally show "Clients l = int (card (dom (fl_clients (flat_of h l))))"
    by (simp add: Clients_sum len)
qed

lemma new_inv: "limiter_inv h (newWithClock newl oob c)"
  by (simp add: newWithClock_def split_beta Let_def limiter_inv_def client_read_def)

subsection \<open>Goroutines inside Allow\<close>

text \<open>
  Any number of goroutines between the locks of \<open>client\<close>, interleaved with the janitor, which
  holds one shard's lock at a time. \<open>ls_evicted\<close> records the keys that a sweep has removed.
\<close>

datatype client_pc =
    CIdle
  | CRead string
  | CCreate string
  | CTouch string nat
  | CAllow string nat

record 'l limiter_system =
  ls_lim :: "'l limiter"
  ls_threads :: "client_pc list"
  ls_evicted :: "string set"

definition swept_keys :: "int \<Rightarrow> 'l limiter \<Rightarrow> nat \<Rightarrow> string set" where
  "swept_keys cutoff l i = fst ` {(k, e) \<in> set (li_shards l ! i). en_last (li_heap l ! e) < cutoff}"

abbreviation client_at :: "'l limiter_system \<Rightarrow> nat \<Rightarrow> client_pc \<Rightarrow> bool" where
  "client_at g i pc \<equiv> i < length (ls_threads g) \<and> ls_threads g ! i = pc"

abbreviation client_goto :: "'l limiter_system \<Rightarrow> 'l limiter \<Rightarrow> nat \<Rightarrow> client_pc \<Rightarrow> 'l limiter_system" where
  "client_goto g l i pc \<equiv> g\<lparr>ls_lim := l, ls_threads := (ls_threads g)[i := pc]\<rparr>"

inductive client_step ::
  "(rate_limit \<Rightarrow> int \<Rightarrow> 'l) \<Rightarrow> ('l \<Rightarrow> go_time \<Rightarrow> 'l \<times> bool) \<Rightarrow> (string \<Rightarrow> 64 word) \<Rightarrow>
   'l limiter_system \<Rightarrow> 'l limiter_system \<Rightarrow> bool" for newl allow h where
  call: "client_at g i CIdle \<Longrightarrow> client_step newl allow h g (client_goto g (ls_lim g) i (CRead key))"
| read_hit: "client_at g i (CRead key) \<Longrightarrow> client_read h (ls_lim g) key = Some e \<Longrightarrow>
    client_step newl allow h g (client_goto g (ls_lim g) i (CTouch key e))"
| read_miss: "client_at g i (CRead key) \<Longrightarrow> client_read h (ls_lim g) key = None \<Longrightarrow>
    client_step newl allow h g (client_goto g (ls_lim g) i (CCreate key))"
| create: "client_at g i (CCreate key) \<Longrightarrow> client_create newl h (ls_lim g) key = (l, e) \<Longrightarrow>
    client_step newl allow h g (client_goto g l i (CTouch key e))"
| touch: "client_at g i (CTouch key e) \<Longrightarrow>
    client_step newl allow h g (client_goto g (entry_touch (ls_lim g) e now) i (CAllow key e))"
| allow: "client_at g i (CAllow key e) \<Longrightarrow> entry_allow allow (ls_lim g) e now = (l, ok) \<Longrightarrow>
    client_step newl allow h g (client_goto g l i CIdle)"
| sweep: "i < shardCount \<Longrightarrow>
    client_step newl allow h g (g\<lparr>ls_lim := sweep_shard cutoff (ls_lim g) i,
      ls_evicted := ls_evicted g \<union> swept_keys cutoff (ls_lim g) i\<rparr>)"

inductive client_reach ::
  "(rate_limit \<Rightarrow> int \<Rightarrow> 'l) \<Rightarrow> ('l \<Rightarrow> go_time \<Rightarrow> 'l \<times> bool) \<Rightarrow> (string \<Rightarrow> 64 word) \<Rightarrow>
   'l limiter \<Rightarrow> nat \<Rightarrow> 'l limiter_system \<Rightarrow> bool" for newl allow h l n where
  start: "client_reach newl allow h l n \<lparr>ls_lim = l, ls_threads = replicate n CIdle, ls_evicted = {}\<rparr>"
| step: "client_reach newl allow h l n g \<Longrightarrow> client_step newl allow h g g' \<Longrightarrow> client_reach newl allow h l n g'"

fun holds :: "client_pc \<Rightarrow> (string \<times> nat) option" where
  "holds (CTouch key e) = Some (key, e)"
| "holds (CAllow key e) = Some (key, e)"
| "holds _ = None"

text \<open>What a goroutine's hold on entry \<open>e\<close> for \<open>key\<close> means in a state of the map.\<close>

definition hold_ok :: "(string \<Rightarrow> 64 word) \<Rightarrow> 'l limiter \<Rightarrow> string set \<Rightarrow> string \<Rightarrow> nat \<Rightarrow> bool" where
  "hold_ok h l ev key e =
     (e < length (li_heap l) \<and> (\<forall>k. k \<noteq> key \<longrightarrow> client_read h l k \<noteq> Some e) \<and>
      (key \<notin> ev \<longrightarrow> client_read h l key = Some e))"

definition client_inv :: "(string \<Rightarrow> 64 word) \<Rightarrow> 'l limiter_system \<Rightarrow> bool" where
  "client_inv h g =
     (limiter_inv h (ls_lim g) \<and>
      (\<forall>i < length (ls_threads g). \<forall>k e. holds (ls_threads g ! i) = Some (k, e) \<longrightarrow>
         hold_ok h (ls_lim g) (ls_evicted g) k e) \<and>
      (\<forall>i < length (ls_threads g). \<forall>j < length (ls_threads g). \<forall>k k' e.
         holds (ls_threads g ! i) = Some (k, e) \<longrightarrow> holds (ls_threads g ! j) = Some (k', e) \<longrightarrow> k = k'))"

text \<open>
  A goroutine moves to \<open>pc\<close> while the map moves to \<open>l\<close>: the invariant survives when holds stay good
  and the new hold agrees with the map.
\<close>

lemma client_inv_goto:
  assumes inv: "client_inv h g" and i: "i < length (ls_threads g)" and l: "limiter_inv h l"
    and keep: "\<forall>k e. hold_ok h (ls_lim g) (ls_evicted g) k e \<longrightarrow> hold_ok h l (ls_evicted g) k e"
    and new: "\<forall>k e. holds pc = Some (k, e) \<longrightarrow>
      holds (ls_threads g ! i) = Some (k, e) \<or> client_read h l k = Some e"
  shows "client_inv h (client_goto g l i pc)"
proof -
  let ?ts = "(ls_threads g)[i := pc]"
  have old: "holds (ls_threads g ! j) = Some (k, e) \<or> client_read h l k = Some e"
    if "j < length (ls_threads g)" "holds (?ts ! j) = Some (k, e)" for j k e
    using that new i by (cases "j = i") auto
  have rd: "hold_ok h l (ls_evicted g) k e" if "client_read h l k = Some e" for k e
    using that read_bound [OF l that] read_inj [OF l that] unfolding hold_ok_def by blast
  have ok: "hold_ok h l (ls_evicted g) k e"
    if "j < length (ls_threads g)" "holds (?ts ! j) = Some (k, e)" for j k e
    using old [OF that] rd [of k e] that inv keep by (auto simp: client_inv_def)
  have same: "k = k'" if a: "j < length (ls_threads g)" "holds (?ts ! j) = Some (k, e)"
    and b: "j' < length (ls_threads g)" "holds (?ts ! j') = Some (k', e)" for j j' k k' e
  proof -
    consider "holds (ls_threads g ! j) = Some (k, e) \<and> holds (ls_threads g ! j') = Some (k', e)"
      | "client_read h l k = Some e" | "client_read h l k' = Some e"
      using old [OF a] old [OF b] by blast
    then show ?thesis
    proof cases
      case 1
      then show ?thesis using inv a(1) b(1) unfolding client_inv_def by blast
    next
      case 2
      then show ?thesis using ok [OF b] unfolding hold_ok_def by metis
    next
      case 3
      then show ?thesis using ok [OF a] unfolding hold_ok_def by metis
    qed
  qed
  have "\<forall>j < length (ls_threads g). \<forall>k e. holds (?ts ! j) = Some (k, e) \<longrightarrow> hold_ok h l (ls_evicted g) k e"
    using ok by blast
  moreover have "\<forall>j < length (ls_threads g). \<forall>j' < length (ls_threads g). \<forall>k k' e.
      holds (?ts ! j) = Some (k, e) \<longrightarrow> holds (?ts ! j') = Some (k', e) \<longrightarrow> k = k'"
    using same by blast
  ultimately show ?thesis using l by (simp add: client_inv_def)
qed

lemma hold_ok_shards:
  "li_shards l' = li_shards l \<Longrightarrow> length (li_heap l') = length (li_heap l) \<Longrightarrow> hold_ok h l' ev = hold_ok h l ev"
  by (simp add: fun_eq_iff hold_ok_def client_read_def)

lemma hold_ok_create:
  assumes inv: "limiter_inv h l" and ok: "hold_ok h l ev k e"
  shows "hold_ok h (fst (client_create newl h l key)) ev k e"
proof (cases "client_read h l key")
  case None
  then show ?thesis using ok create_heap [OF None, of newl]
    by (auto simp: hold_ok_def create_read [OF inv])
qed (simp add: create_hit ok)

lemma hold_ok_sweep:
  assumes "limiter_inv h l" "i < shardCount" "hold_ok h l ev k e"
  shows "hold_ok h (sweep_shard cutoff l i) (ev \<union> swept_keys cutoff l i) k e"
proof -
  have "k \<in> swept_keys cutoff l i" if "client_read h l k = Some e"
    "shard_index h k = i" "en_last (li_heap l ! e) < cutoff"
    using map_of_SomeD [of "li_shards l ! i" k e] that by (force simp: client_read_def swept_keys_def)
  then show ?thesis using assms
    by (auto simp: hold_ok_def sweep_shard_read split: option.splits if_splits)
qed

lemma client_inv_step:
  assumes "client_step newl allow h g g'" "client_inv h g"
  shows "client_inv h g'"
  using assms
proof (induction rule: client_step.induct)
  case (call g i key)
  then show ?case by (intro client_inv_goto) (simp_all add: client_inv_def)
next
  case (read_hit g i key e)
  then show ?case by (intro client_inv_goto) (simp_all add: client_inv_def)
next
  case (read_miss g i key)
  then show ?case by (intro client_inv_goto) (simp_all add: client_inv_def)
next
  case (create g i key l e)
  then have inv: "limiter_inv h (ls_lim g)" by (simp add: client_inv_def)
  have l: "l = fst (client_create newl h (ls_lim g) key)" using create by simp
  have "limiter_inv h l" unfolding l by (rule create_inv [OF inv])
  moreover have "client_read h l key = Some e" using create_read [OF inv, of newl key key] create by simp
  ultimately show ?case using create.hyps(1) create.prems hold_ok_create [OF inv]
    by (intro client_inv_goto) (simp_all add: l)
next
  case (touch g i key e now)
  then show ?case
    by (intro client_inv_goto)
      (simp_all add: client_inv_def hold_ok_shards [of "entry_touch (ls_lim g) e now" "ls_lim g"]
        limiter_inv_heap [of h "ls_lim g" "entry_touch (ls_lim g) e now"])
next
  case (allow g i key e now l ok)
  have "l = fst (entry_allow allow (ls_lim g) e now)" using allow by simp
  then have "li_shards l = li_shards (ls_lim g)" "length (li_heap l) = length (li_heap (ls_lim g))" by simp_all
  then show ?case using allow
    by (intro client_inv_goto)
      (simp_all add: client_inv_def hold_ok_shards [of l "ls_lim g"] limiter_inv_heap [of h "ls_lim g" l])
next
  case (sweep i g cutoff)
  then show ?case by (simp add: client_inv_def sweep_shard_inv hold_ok_sweep)
qed

lemma client_reach_inv: "client_reach newl allow h l n g \<Longrightarrow> limiter_inv h l \<Longrightarrow> client_inv h g"
  by (induction rule: client_reach.induct) (simp add: client_inv_def, blast intro: client_inv_step)

lemma client_reach_threads: "client_reach newl allow h l n g \<Longrightarrow> length (ls_threads g) = n"
proof (induction rule: client_reach.induct)
  case (step g g')
  from step.hyps(2) have "length (ls_threads g') = length (ls_threads g)" by (cases rule: client_step.cases) simp_all
  then show ?case using step.IH by simp
qed simp

subsection \<open>Properties\<close>

text \<open>A token bucket on nanoseconds, enough to run the limiter on concrete requests.\<close>

fun sample_newl :: "rate_limit \<Rightarrow> int \<Rightarrow> int option" where
  "sample_newl Rate_Inf burst = None"
| "sample_newl (Rate _) burst = Some burst"

fun sample_allow :: "int option \<Rightarrow> go_time \<Rightarrow> int option \<times> bool" where
  "sample_allow None t = (None, True)"
| "sample_allow (Some n) t = (if 0 < n then (Some (n - 1), True) else (Some n, False))"

definition sample_limits :: rate_config where
  "sample_limits = \<lparr>rc_Enabled = True, rc_RPS = Fin 0, rc_Burst = 0, rc_PerClient = True, rc_PerClientRPS = Fin 1,
     rc_PerClientBurst = 1, rc_TTL = 0\<rparr>"

text \<open>
  C15: the sharded limiter implements one flat map of buckets. For any sequence of requests and
  sweeps it gives the answers of the specification, in which a request that the global bucket rejects
  touches no client, a client's first request creates a full bucket, and a sweep drops exactly the
  clients that were last seen before the cutoff; \<open>Clients\<close> is the number of live buckets.
\<close>

theorem limiter_refines_flat_map:
  "let l = newWithClock newl oob c; (l', oks) = limiter_run newl allow h l ops;
       (f, oks') = spec_limiter_run newl allow l \<lparr>fl_global = li_global l, fl_clients = Map.empty\<rparr> ops
   in oks = oks' \<and> flat_of h l' = f \<and> Clients l' = int (card (dom (fl_clients f)))"
proof -
  let ?l = "newWithClock newl oob c"
  have inv: "limiter_inv h ?l" by (rule new_inv)
  have "flat_of h ?l = \<lparr>fl_global = li_global ?l, fl_clients = Map.empty\<rparr>"
    by (simp add: flat_of_def client_read_def newWithClock_def split_beta Let_def fun_eq_iff)
  then show ?thesis
    using run_sim [OF inv, of newl allow ops] Clients_card(2) [of h "fst (limiter_run newl allow h ?l ops)"]
    by (simp add: split_beta Let_def)
qed

text \<open>
  C7: the double-checked creation gives a client one bucket. With any number of goroutines inside
  \<open>Allow\<close> and a janitor at work, two goroutines that hold the same entry serve the same client, and
  two that serve the same client hold the same entry, the one in the map, unless a sweep evicted that
  client.
\<close>

theorem limiter_one_bucket_per_client:
  assumes "client_reach newl allow h (newWithClock newl oob c) n g"
    and "i < n" "holds (ls_threads g ! i) = Some (key, e)"
    and "j < n" "holds (ls_threads g ! j) = Some (key', e')"
  shows "(e = e' \<longrightarrow> key = key') \<and>
    (key = key' \<and> key \<notin> ls_evicted g \<longrightarrow> e = e' \<and> client_read h (ls_lim g) key = Some e)"
proof -
  have inv: "client_inv h g" by (rule client_reach_inv [OF assms(1) new_inv])
  have n: "length (ls_threads g) = n" using assms(1) by (rule client_reach_threads)
  have "e = e' \<longrightarrow> key = key'" using inv assms(2-) n unfolding client_inv_def by blast
  moreover have "hold_ok h (ls_lim g) (ls_evicted g) key e" "hold_ok h (ls_lim g) (ls_evicted g) key' e'"
    using inv assms(2-) n unfolding client_inv_def by blast+
  ultimately show ?thesis by (auto simp: hold_ok_def)
qed

text \<open>Two goroutines of one client that both miss, and then both take the write lock.\<close>

definition sample_race :: "int option limiter_system" where
  "sample_race = (let l = newWithClock sample_newl (\<lambda>_. 0) sample_limits
     in \<lparr>ls_lim = fst (client_create sample_newl (\<lambda>_. 0) l ''a''),
         ls_threads = [CTouch ''a'' 0, CTouch ''a'' 0], ls_evicted = {}\<rparr>)"

lemma sample_race_reach:
  "client_reach sample_newl sample_allow (\<lambda>_. 0) (newWithClock sample_newl (\<lambda>_. 0) sample_limits) 2 sample_race"
proof -
  let ?l = "newWithClock sample_newl (\<lambda>_. 0) sample_limits"
  let ?R = "client_reach sample_newl sample_allow (\<lambda>_. 0) ?l 2"
  let ?S = "\<lambda>l ts. \<lparr>ls_lim = l, ls_threads = ts, ls_evicted = {}\<rparr>"
  note step = client_reach.step [where newl = sample_newl and allow = sample_allow and h = "\<lambda>_. 0"]
  have inv: "limiter_inv (\<lambda>_. 0) ?l" by (rule new_inv)
  have miss: "client_read (\<lambda>_. 0) ?l ''a'' = None"
    by (simp add: client_read_def newWithClock_def split_beta Let_def shard_index_def shardCount_def)
  let ?m = "fst (client_create sample_newl (\<lambda>_. 0) ?l ''a'')"
  have c: "client_create sample_newl (\<lambda>_. 0) ?l ''a'' = (?m, 0)"
    using create_heap(1) [OF miss, of sample_newl] by (simp add: prod_eq_iff newWithClock_def split_beta Let_def)
  have hit: "client_create sample_newl (\<lambda>_. 0) ?m ''a'' = (?m, 0)"
    using create_read [OF inv, of sample_newl "''a''" "''a''"] c by (simp add: create_hit)
  have "?R (?S ?l [CIdle, CIdle])" using client_reach.start [of _ _ _ ?l 2] by (simp add: numeral_2_eq_2)
  then have "?R (?S ?l [CRead ''a'', CIdle])"
    by (rule step) (use client_step.call [where g = "?S ?l [CIdle, CIdle]" and i = 0] in simp)
  then have "?R (?S ?l [CRead ''a'', CRead ''a''])"
    by (rule step) (use client_step.call [where g = "?S ?l [CRead ''a'', CIdle]" and i = 1] in simp)
  then have "?R (?S ?l [CCreate ''a'', CRead ''a''])"
    by (rule step) (use client_step.read_miss [where g = "?S ?l [CRead ''a'', CRead ''a'']" and i = 0] miss in simp)
  then have "?R (?S ?l [CCreate ''a'', CCreate ''a''])"
    by (rule step) (use client_step.read_miss [where g = "?S ?l [CCreate ''a'', CRead ''a'']" and i = 1] miss in simp)
  then have "?R (?S ?m [CTouch ''a'' 0, CCreate ''a''])"
    by (rule step) (use client_step.create [where g = "?S ?l [CCreate ''a'', CCreate ''a'']" and i = 0] c in simp)
  then have "?R (?S ?m [CTouch ''a'' 0, CTouch ''a'' 0])"
    by (rule step) (use client_step.create [where g = "?S ?m [CTouch ''a'' 0, CCreate ''a'']" and i = 1] hit in simp)
  then show ?thesis by (simp add: sample_race_def Let_def)
qed

theorem limiter_one_bucket_per_client_witness:
  "client_read (\<lambda>_. 0) (ls_lim sample_race) ''a'' = Some 0"
  using limiter_one_bucket_per_client [OF sample_race_reach, of 0 "''a''" 0 1 "''a''" 0]
  by (simp add: sample_race_def Let_def)

end
