(* ===== verification/Grpc.thy ===== *)
theory Grpc
  imports Prelude
begin

text \<open>
  The vocabulary of the gRPC library that the sources share: status codes and errors. What the library
  computes is a parameter of the definitions that use it. \<open>status.Code\<close> is the argument
  \<open>code_of\<close> (\<open>None\<close> is a nil error); \<open>code_doc\<close> states what its documentation says, and is a
  hypothesis where a property needs it.
\<close>

datatype code =
    OK | Canceled | Unknown | InvalidArgument | DeadlineExceeded | NotFound | AlreadyExists
  | PermissionDenied | ResourceExhausted | FailedPrecondition | Aborted | OutOfRange | Unimplemented
  | Internal | Unavailable | DataLoss | Unauthenticated

text \<open>
  Errors: a status error with its code and message, \<open>io.EOF\<close>, a package-level error that the code compares
  by identity, an error made by \<open>errors.New\<close> or \<open>fmt.Errorf\<close>, and one that wraps another with \<open>%w\<close>.
\<close>

datatype go_error =
    Status_Error code string
  | EOF
  | Sentinel string
  | Plain_Error string
  | Wrapped_Error string go_error

text \<open>\<open>errors.Is(err, target)\<close> for a target that is compared by identity.\<close>

fun errors_Is :: "go_error \<Rightarrow> go_error \<Rightarrow> bool" where
  "errors_Is (Wrapped_Error m e) target = (Wrapped_Error m e = target \<or> errors_Is e target)"
| "errors_Is e target = (e = target)"

definition code_doc :: "(go_error option \<Rightarrow> code) \<Rightarrow> bool" where
  "code_doc code_of =
     (code_of None = OK \<and> (\<forall>c m. code_of (Some (Status_Error c m)) = c) \<and>
      code_of (Some EOF) = Unknown \<and> (\<forall>m. code_of (Some (Sentinel m)) = Unknown) \<and>
      (\<forall>m. code_of (Some (Plain_Error m)) = Unknown) \<and>
      (\<forall>m e. code_of (Some (Wrapped_Error m e)) = code_of (Some e)))"

text \<open>A function that behaves as documented.\<close>

fun doc_code_err :: "go_error \<Rightarrow> code" where
  "doc_code_err (Status_Error c m) = c"
| "doc_code_err EOF = Unknown"
| "doc_code_err (Sentinel m) = Unknown"
| "doc_code_err (Plain_Error m) = Unknown"
| "doc_code_err (Wrapped_Error m e) = doc_code_err e"

definition doc_code :: "go_error option \<Rightarrow> code" where
  "doc_code e = (case e of None \<Rightarrow> OK | Some e \<Rightarrow> doc_code_err e)"

lemma doc_code_doc: "code_doc doc_code"
  by (simp add: code_doc_def doc_code_def)

end
