(* ===== verification/Health.thy ===== *)
theory Health
  imports Grpc Pool
begin

text \<open>
  \<^verbatim>\<open>internal/health/health.go\<close>: one goroutine per backend probes it and damps the results. The reply
  of the health RPC is an input. A world holds the checker, the pool, every goroutine's private
  counters and what has been emitted (metrics calls, log records, callbacks run); the probes of
  the backends arrive in any interleaving.
\<close>

subsection \<open>Data\<close>

definition defaultInterval :: duration where "defaultInterval = second"
definition defaultTimeout :: duration where "defaultTimeout = 500 * millisecond"
definition jitterFraction :: f64 where "jitterFraction = f64_round (1 / 10)"
definition resultOK :: string where "resultOK = ''ok''"
definition resultError :: string where "resultError = ''error''"

record checker =
  ck_cfg :: cfg_health
  ck_m :: bool
  ck_interval :: duration
  ck_timeout :: duration
  ck_rise :: int
  ck_fall :: int
  ck_unimplemented :: "string set"

record counters =
  ct_success :: int
  ct_failure :: int

datatype serving_status = SERVING | Not_Serving string

text \<open>What the \<open>Check\<close> RPC returns.\<close>

type_synonym check_reply = "go_error + serving_status"

datatype health_log =
    Warn_Unimplemented string string string
  | Health_Changed string string hstate hstate "go_error option"

record 'c health_world =
  hw_ck :: checker
  hw_pool :: "'c option pool"
  hw_st :: "nat \<Rightarrow> counters"
  hw_calls :: "metric_call list"
  hw_log :: "health_log list"
  hw_notified :: "nat list"

definition Checker_New :: "cfg_health \<Rightarrow> bool \<Rightarrow> checker" where
  "Checker_New cfg m = \<lparr>ck_cfg = cfg, ck_m = m,
     ck_interval = (if hc_Interval cfg \<le> 0 then defaultInterval else hc_Interval cfg),
     ck_timeout = (if hc_Timeout cfg \<le> 0 then defaultTimeout else hc_Timeout cfg),
     ck_rise = (if hc_Rise cfg < 1 then 1 else hc_Rise cfg),
     ck_fall = (if hc_Fall cfg < 1 then 1 else hc_Fall cfg),
     ck_unimplemented = {}\<rparr>"

subsection \<open>One probe\<close>

definition warnUnimplemented :: "checker \<Rightarrow> 'c backend \<Rightarrow> checker \<times> health_log list" where
  "warnUnimplemented c b =
     (if bk_id b \<in> ck_unimplemented c then (c, [])
      else (c\<lparr>ck_unimplemented := insert (bk_id b) (ck_unimplemented c)\<rparr>,
            [Warn_Unimplemented (bk_id b) (bk_addr b) (hc_Service (ck_cfg c))]))"

text \<open>\<open>CheckOnce\<close> on a backend that may be nil and whose connection may be nil.\<close>

definition CheckOnce ::
  "(go_error option \<Rightarrow> code) \<Rightarrow> checker \<Rightarrow> 'c option backend option \<Rightarrow> check_reply \<Rightarrow>
   checker \<times> hstate \<times> go_error option \<times> health_log list" where
  "CheckOnce code_of c b reply =
     (case b of
        None \<Rightarrow> (c, StateUnhealthy, Some (Plain_Error ''health: nil backend''), [])
      | Some b \<Rightarrow>
          (if bk_conn b = None
           then (c, StateUnhealthy, Some (Plain_Error (''health: backend '' @ bk_id b @ '' has no connection'')), [])
           else case reply of
                  Inl err \<Rightarrow>
                    (if code_of (Some err) = Unimplemented
                     then let (c, log) = warnUnimplemented c b in (c, StateHealthy, Some err, log)
                     else (c, StateUnhealthy, Some err, []))
                | Inr SERVING \<Rightarrow> (c, StateHealthy, None, [])
                | Inr (Not_Serving s) \<Rightarrow>
                    (c, StateUnhealthy, Some (Plain_Error (''health: backend '' @ bk_id b @ '' reports '' @ s)), [])))"

text \<open>The hysteresis of \<open>record\<close>: the counters, and the state to publish if a threshold is reached.\<close>

definition damp :: "checker \<Rightarrow> counters \<Rightarrow> hstate \<Rightarrow> counters \<times> hstate option" where
  "damp c st s =
     (if s = StateHealthy
      then let st = st\<lparr>ct_failure := 0\<rparr>;
               st = (if ct_success st < ck_rise c then st\<lparr>ct_success := ct_success st + 1\<rparr> else st)
           in (st, if ct_success st < ck_rise c then None else Some StateHealthy)
      else let st = st\<lparr>ct_success := 0\<rparr>;
               st = (if ct_failure st < ck_fall c then st\<lparr>ct_failure := ct_failure st + 1\<rparr> else st)
           in (st, if ct_failure st < ck_fall c then None else Some StateUnhealthy))"

definition health_record ::
  "'c health_world \<Rightarrow> nat \<Rightarrow> hstate \<Rightarrow> go_error option \<Rightarrow> 'c health_world" where
  "health_record w i s err =
     (let (st, target) = damp (hw_ck w) (hw_st w i) s;
          w = w\<lparr>hw_st := (hw_st w)(i := st)\<rparr>;
          b = backend_at (hw_pool w) i
      in case target of
           None \<Rightarrow> w
         | Some target \<Rightarrow>
             (let old = bk_state b; (p, changed) = Backend_SetState (hw_pool w) i target;
                  w = w\<lparr>hw_pool := p\<rparr>
              in if \<not> changed then w
                 else w\<lparr>hw_log := hw_log w @ [Health_Changed (bk_id b) (bk_addr b) old target err],
                        hw_calls := hw_calls w @
                          (if ck_m (hw_ck w) then [SetBackendHealth (bk_id b) (target = StateHealthy)] else []),
                        hw_notified := hw_notified w @ Pool_NotifyChange p\<rparr>))"

definition health_probe ::
  "(go_error option \<Rightarrow> code) \<Rightarrow> 'c health_world \<Rightarrow> nat \<Rightarrow> check_reply \<Rightarrow> go_time \<times> go_time \<Rightarrow> 'c health_world" where
  "health_probe code_of w i reply ts =
     (let b = backend_at (hw_pool w) i;
          (c, state, err, log) = CheckOnce code_of (hw_ck w) (Some b) reply;
          elapsed = time_sub (snd ts) (fst ts);
          w = w\<lparr>hw_ck := c, hw_log := hw_log w @ log,
                hw_calls := hw_calls w @
                  (if ck_m c then [ObserveHealthCheck (bk_id b) (if state = StateHealthy then resultOK else resultError) elapsed]
                   else [])\<rparr>
      in health_record w i state err)"

subsection \<open>The goroutines\<close>

text \<open>
  \<open>run\<close>: a first probe, then one per tick until the context is done (\<open>None\<close>); the choice between
  the two cases of the \<open>select\<close> is in the list of events.
\<close>

fun run_ticks ::
  "(go_error option \<Rightarrow> code) \<Rightarrow> 'c health_world \<Rightarrow> nat \<Rightarrow> (check_reply \<times> go_time \<times> go_time) option list \<Rightarrow> 'c health_world" where
  "run_ticks code_of w i [] = w"
| "run_ticks code_of w i (None # evs) = w"
| "run_ticks code_of w i (Some (reply, ts) # evs) = run_ticks code_of (health_probe code_of w i reply ts) i evs"

definition health_run ::
  "(go_error option \<Rightarrow> code) \<Rightarrow> 'c health_world \<Rightarrow> nat \<Rightarrow> check_reply \<times> go_time \<times> go_time \<Rightarrow>
   (check_reply \<times> go_time \<times> go_time) option list \<Rightarrow> 'c health_world" where
  "health_run code_of w i first evs =
     (let w = w\<lparr>hw_st := (hw_st w)(i := \<lparr>ct_success = 0, ct_failure = 0\<rparr>)\<rparr>
      in run_ticks code_of (health_probe code_of w i (fst first) (snd first)) i evs)"

text \<open>\<open>nextInterval\<close> on a draw \<open>r\<close> of \<open>rand.Float64\<close>.\<close>

definition nextInterval :: "(f64 \<Rightarrow> int) \<Rightarrow> checker \<Rightarrow> f64 \<Rightarrow> duration" where
  "nextInterval oob c r =
     (let f = f64_add (Fin 1) (f64_mul jitterFraction (f64_add (f64_mul (Fin 2) r) (Fin (- 1))));
          d = f64_toInt oob (f64_mul (f64_of_int (ck_interval c)) f)
      in if d \<le> 0 then 1 else d)"

text \<open>All goroutines together: probes of the backends in the order in which they complete.\<close>

definition probes ::
  "(go_error option \<Rightarrow> code) \<Rightarrow> 'c health_world \<Rightarrow> (nat \<times> check_reply \<times> go_time \<times> go_time) list \<Rightarrow> 'c health_world" where
  "probes code_of w evs = foldl (\<lambda>w (i, reply, ts). health_probe code_of w i reply ts) w evs"

definition fresh_world :: "checker \<Rightarrow> 'c option pool \<Rightarrow> 'c health_world" where
  "fresh_world c p = \<lparr>hw_ck = c, hw_pool = p, hw_st = (\<lambda>_. \<lparr>ct_success = 0, ct_failure = 0\<rparr>),
     hw_calls = [], hw_log = [], hw_notified = []\<rparr>"

subsection \<open>What the damping promises\<close>

text \<open>Whether a reply counts as a success of the backend.\<close>

definition healthy_reply :: "(go_error option \<Rightarrow> code) \<Rightarrow> 'c option backend \<Rightarrow> check_reply \<Rightarrow> bool" where
  "healthy_reply code_of b reply =
     (bk_conn b \<noteq> None \<and>
      (case reply of Inl err \<Rightarrow> code_of (Some err) = Unimplemented | Inr s \<Rightarrow> s = SERVING))"

text \<open>
  The state after a sequence of results, newest first: the verdict of the newest point at which the
  last \<open>rise\<close> results were all good or the last \<open>fall\<close> all bad.
\<close>

fun damped :: "nat \<Rightarrow> nat \<Rightarrow> hstate \<Rightarrow> bool list \<Rightarrow> hstate" where
  "damped rise fall s0 [] = s0"
| "damped rise fall s0 (x # xs) =
     (if x \<and> rise \<le> length (x # xs) \<and> list_all id (take rise (x # xs)) then StateHealthy
      else if \<not> x \<and> fall \<le> length (x # xs) \<and> list_all Not (take fall (x # xs)) then StateUnhealthy
      else damped rise fall s0 xs)"

lemma run_length_iff: "n \<le> length (takeWhile P xs) \<longleftrightarrow> n \<le> length xs \<and> list_all P (take n xs)"
  by (induction xs arbitrary: n) (auto simp: take_Cons split: nat.split)

text \<open>The counters are the lengths of the current runs, cut off at the thresholds.\<close>

definition run_counters :: "checker \<Rightarrow> bool list \<Rightarrow> counters" where
  "run_counters c xs = \<lparr>ct_success = min (ck_rise c) (int (length (takeWhile id xs))),
     ct_failure = min (ck_fall c) (int (length (takeWhile Not xs)))\<rparr>"

lemma damp_run:
  assumes "1 \<le> ck_rise c" "1 \<le> ck_fall c" and st: "st = run_counters c xs" and x: "x = (s = StateHealthy)"
  shows "fst (damp c st s) = run_counters c (x # xs)"
    and "(case snd (damp c st s) of None \<Rightarrow> damped (nat (ck_rise c)) (nat (ck_fall c)) s0 xs | Some t \<Rightarrow> t) =
      damped (nat (ck_rise c)) (nat (ck_fall c)) s0 (x # xs)"
proof -
  let ?r = "nat (ck_rise c)" and ?f = "nat (ck_fall c)"
  show "fst (damp c st s) = run_counters c (x # xs)"
    using assms(1,2) by (auto simp: st x damp_def Let_def run_counters_def min_def)
  have good: "ck_rise c \<le> 1 + int (length (takeWhile id xs)) \<longleftrightarrow>
      ?r \<le> length (True # xs) \<and> list_all id (take ?r (True # xs))"
    using assms(1) run_length_iff [of ?r id "True # xs"] by (simp add: nat_le_iff)
  have bad: "ck_fall c \<le> 1 + int (length (takeWhile Not xs)) \<longleftrightarrow>
      ?f \<le> length (False # xs) \<and> list_all Not (take ?f (False # xs))"
    using assms(2) run_length_iff [of ?f Not "False # xs"] by (simp add: nat_le_iff)
  have "snd (damp c st s) = (if x then if ck_rise c \<le> 1 + int (length (takeWhile id xs)) then Some StateHealthy else None
      else if ck_fall c \<le> 1 + int (length (takeWhile Not xs)) then Some StateUnhealthy else None)"
    using assms(1,2) by (auto simp: st x damp_def Let_def run_counters_def min_def)
  then show "(case snd (damp c st s) of None \<Rightarrow> damped ?r ?f s0 xs | Some t \<Rightarrow> t) = damped ?r ?f s0 (x # xs)"
    unfolding good bad damped.simps by (cases x) simp_all
qed

lemma CheckOnce_result:
  "fst (snd (CheckOnce code_of c (Some b) reply)) = StateHealthy \<longleftrightarrow> healthy_reply code_of b reply"
  by (auto simp: CheckOnce_def healthy_reply_def split_beta Let_def split: sum.split serving_status.split)

lemma CheckOnce_checker:
  "ck_rise (fst (CheckOnce code_of c b reply)) = ck_rise c" "ck_fall (fst (CheckOnce code_of c b reply)) = ck_fall c"
  "ck_m (fst (CheckOnce code_of c b reply)) = ck_m c"
  by (auto simp: CheckOnce_def warnUnimplemented_def split_beta Let_def
      split: option.split sum.split serving_status.split)

text \<open>One probe of backend \<open>i\<close>.\<close>

lemma damp_cong: "ck_rise c' = ck_rise c \<Longrightarrow> ck_fall c' = ck_fall c \<Longrightarrow> damp c' = damp c"
  by (simp add: fun_eq_iff damp_def)

definition probe_state :: "(go_error option \<Rightarrow> code) \<Rightarrow> 'c health_world \<Rightarrow> nat \<Rightarrow> check_reply \<Rightarrow> hstate" where
  "probe_state code_of w i reply = fst (snd (CheckOnce code_of (hw_ck w) (Some (backend_at (hw_pool w) i)) reply))"

lemma probe_effect:
  assumes "i < length (pl_backends (hw_pool w))" and w': "w' = health_probe code_of w i reply ts"
    and d_eq: "d = damp (hw_ck w) (hw_st w i) (probe_state code_of w i reply)"
  shows "hw_st w' = (hw_st w)(i := fst d)"
    and "ck_rise (hw_ck w') = ck_rise (hw_ck w)" and "ck_fall (hw_ck w') = ck_fall (hw_ck w)"
    and "pl_backends (hw_pool w') = (pl_backends (hw_pool w))[i := (backend_at (hw_pool w) i)\<lparr>bk_state :=
      (case snd d of None \<Rightarrow> bk_state (backend_at (hw_pool w) i) | Some t \<Rightarrow> t)\<rparr>]"
proof -
  obtain c s err log where co: "CheckOnce code_of (hw_ck w) (Some (backend_at (hw_pool w) i)) reply = (c, s, err, log)"
    by (cases "CheckOnce code_of (hw_ck w) (Some (backend_at (hw_pool w) i)) reply")
  have rf: "ck_rise c = ck_rise (hw_ck w)" "ck_fall c = ck_fall (hw_ck w)"
    using CheckOnce_checker [of code_of "hw_ck w" "Some (backend_at (hw_pool w) i)" reply] co by simp_all
  note d = damp_cong [OF rf] rf
  note defs = w' d_eq health_probe_def probe_state_def co health_record_def Let_def split_beta d
    Backend_SetState_def
  show "hw_st w' = (hw_st w)(i := fst d)" by (auto simp: defs split: option.split)
  show "ck_rise (hw_ck w') = ck_rise (hw_ck w)" by (auto simp: defs split: option.split)
  show "ck_fall (hw_ck w') = ck_fall (hw_ck w)" by (auto simp: defs split: option.split)
  show "pl_backends (hw_pool w') = (pl_backends (hw_pool w))[i := (backend_at (hw_pool w) i)\<lparr>bk_state :=
      (case snd d of None \<Rightarrow> bk_state (backend_at (hw_pool w) i) | Some t \<Rightarrow> t)\<rparr>]"
    using assms(1) by (auto simp: defs split: option.split)
qed

subsection \<open>Any interleaving of probes\<close>

definition results_of ::
  "(go_error option \<Rightarrow> code) \<Rightarrow> 'c option backend \<Rightarrow> nat \<Rightarrow> (nat \<times> check_reply \<times> go_time \<times> go_time) list \<Rightarrow> bool list" where
  "results_of code_of b i evs = rev (map (\<lambda>(_, reply, _). healthy_reply code_of b reply) (filter (\<lambda>e. fst e = i) evs))"

lemma results_of_snoc:
  "results_of code_of b i (evs @ [(j, reply, ts)]) =
     (if j = i then healthy_reply code_of b reply # results_of code_of b i evs else results_of code_of b i evs)"
  by (simp add: results_of_def)

lemma probes_snoc: "probes code_of w (evs @ [(j, reply, ts)]) = health_probe code_of (probes code_of w evs) j reply ts"
  by (simp add: probes_def)

lemma probes_track:
  assumes "1 \<le> ck_rise c" "1 \<le> ck_fall c" and "\<forall>e \<in> set evs. fst e < length (pl_backends p)"
  defines "w \<equiv> fresh_world c p"
  shows "ck_rise (hw_ck (probes code_of w evs)) = ck_rise c \<and> ck_fall (hw_ck (probes code_of w evs)) = ck_fall c \<and>
    length (pl_backends (hw_pool (probes code_of w evs))) = length (pl_backends p) \<and>
    (\<forall>i < length (pl_backends p).
      hw_st (probes code_of w evs) i = run_counters c (results_of code_of (backend_at p i) i evs) \<and>
      backend_at (hw_pool (probes code_of w evs)) i = (backend_at p i)\<lparr>bk_state :=
        damped (nat (ck_rise c)) (nat (ck_fall c)) (bk_state (backend_at p i)) (results_of code_of (backend_at p i) i evs)\<rparr>)"
  using assms(3)
proof (induction evs rule: rev_induct)
  case Nil
  show ?case using assms(1,2)
    by (simp add: probes_def w_def fresh_world_def run_counters_def results_of_def)
next
  case (snoc e evs)
  obtain j reply ts where e: "e = (j, reply, ts)" by (cases e)
  let ?w = "probes code_of w evs"
  let ?b = "backend_at p j" and ?xs = "results_of code_of (backend_at p j) j evs"
  note IH = snoc.IH [OF _]
  have j: "j < length (pl_backends p)" using snoc.prems e by simp
  have len: "length (pl_backends (hw_pool ?w)) = length (pl_backends p)"
    and rf: "ck_rise (hw_ck ?w) = ck_rise c" "ck_fall (hw_ck ?w) = ck_fall c"
    and all: "\<forall>i < length (pl_backends p). hw_st ?w i = run_counters c (results_of code_of (backend_at p i) i evs) \<and>
      backend_at (hw_pool ?w) i = (backend_at p i)\<lparr>bk_state :=
        damped (nat (ck_rise c)) (nat (ck_fall c)) (bk_state (backend_at p i)) (results_of code_of (backend_at p i) i evs)\<rparr>"
    using snoc by auto
  have st: "hw_st ?w j = run_counters c ?xs" and bj: "backend_at (hw_pool ?w) j = ?b\<lparr>bk_state :=
      damped (nat (ck_rise c)) (nat (ck_fall c)) (bk_state ?b) ?xs\<rparr>" using all j by auto
  have x: "healthy_reply code_of ?b reply = (probe_state code_of ?w j reply = StateHealthy)"
    using CheckOnce_result [of code_of "hw_ck ?w" "backend_at (hw_pool ?w) j" reply]
    by (simp add: probe_state_def bj healthy_reply_def)
  have dc: "damp (hw_ck ?w) = damp c" using rf by (rule damp_cong)
  note eff = probe_effect [where w = ?w and i = j and reply = reply and ts = ts and code_of = code_of, OF _ refl refl,
      unfolded len, OF j, unfolded dc]
  note dr = damp_run(1) [OF assms(1,2) st x] damp_run(2) [OF assms(1,2) st x, of "bk_state ?b"]
  let ?w' = "health_probe code_of ?w j reply ts"
  let ?ys = "healthy_reply code_of ?b reply # ?xs"
  have "hw_st ?w' j = run_counters c ?ys" unfolding eff(1) using dr(1) st by simp
  moreover have "backend_at (hw_pool ?w') j = ?b\<lparr>bk_state := damped (nat (ck_rise c)) (nat (ck_fall c)) (bk_state ?b) ?ys\<rparr>"
    unfolding dr(2) [symmetric] eff(4) st [symmetric] using len j by (simp add: bj cong: option.case_cong)
  moreover have "hw_st ?w' i = hw_st ?w i \<and> backend_at (hw_pool ?w') i = backend_at (hw_pool ?w) i" if "i \<noteq> j" for i
    unfolding eff(1) eff(4) using that by simp
  moreover have "length (pl_backends (hw_pool ?w')) = length (pl_backends p)" unfolding eff(4) using len by simp
  ultimately show ?case unfolding e probes_snoc results_of_snoc
    using eff(2,3) rf all by (simp del: damped.simps)
qed

lemma new_thresholds: "1 \<le> ck_rise (Checker_New cfg m)" "1 \<le> ck_fall (Checker_New cfg m)"
  by (simp_all add: Checker_New_def)

subsection \<open>Jitter\<close>

lemma jitter_factor:
  assumes "0 \<le> q" "q \<le> 1"
  shows "\<exists>f. f64_add (Fin 1) (f64_mul jitterFraction (f64_add (f64_mul (Fin 2) (Fin q)) (Fin (- 1)))) = Fin f \<and>
    \<bar>f - (9 / 10 + q / 5)\<bar> \<le> 1 / 100000000000000"
proof -
  obtain j where j: "jitterFraction = Fin j" "\<bar>j - 1 / 10\<bar> \<le> 1 / 1000000000000000"
    using f64_round_near [of "1 / 10"] by (auto simp: jitterFraction_def)
  obtain a where a: "f64_round (2 * q) = Fin a" "\<bar>a - 2 * q\<bar> \<le> 1 / 1000000000000000"
    using f64_round_near [of "2 * q"] assms by auto
  have "\<bar>a + - 1\<bar> \<le> 4" using assms a(2) by linarith
  then obtain b where b: "f64_round (a + - 1) = Fin b" "\<bar>b - (a + - 1)\<bar> \<le> 1 / 1000000000000000"
    using f64_round_near [of "a + - 1"] by blast
  have bl: "\<bar>b - (2 * q - 1)\<bar> \<le> 2 / 1000000000000000" using a(2) b(2) by linarith
  have b2: "\<bar>b\<bar> \<le> 2" using bl assms by linarith
  have "j * b - (q / 5 - 1 / 10) = (j - 1 / 10) * b + (b - (2 * q - 1)) / 10" by (simp add: field_simps)
  then have "\<bar>j * b - (q / 5 - 1 / 10)\<bar> \<le> \<bar>j - 1 / 10\<bar> * \<bar>b\<bar> + \<bar>b - (2 * q - 1)\<bar> / 10"
    by (metis abs_divide abs_mult abs_numeral abs_triangle_ineq)
  also have "\<dots> \<le> 1 / 1000000000000000 * 2 + 2 / 1000000000000000 / 10"
    by (intro add_mono mult_mono divide_right_mono j(2) b2 bl) simp_all
  finally have jb: "\<bar>j * b - (q / 5 - 1 / 10)\<bar> \<le> 3 / 1000000000000000" by simp
  then have jb1: "\<bar>j * b\<bar> \<le> 1" using assms by linarith
  then have "\<bar>j * b\<bar> \<le> 4" by linarith
  then obtain c where c: "f64_round (j * b) = Fin c" "\<bar>c - j * b\<bar> \<le> 1 / 1000000000000000"
    using f64_round_near [of "j * b"] by blast
  then have "\<bar>1 + c\<bar> \<le> 4" using jb1 by linarith
  then obtain f where f: "f64_round (1 + c) = Fin f" "\<bar>f - (1 + c)\<bar> \<le> 1 / 1000000000000000"
    using f64_round_near [of "1 + c"] by blast
  have "\<bar>f - (9 / 10 + q / 5)\<bar> \<le> \<bar>f - (1 + c)\<bar> + \<bar>c - j * b\<bar> + \<bar>j * b - (q / 5 - 1 / 10)\<bar>" by linarith
  also have "\<dots> \<le> 1 / 100000000000000" using f(2) c(2) jb by linarith
  finally have err: "\<bar>f - (9 / 10 + q / 5)\<bar> \<le> 1 / 100000000000000" .
  have "f64_add (Fin 1) (f64_mul jitterFraction (f64_add (f64_mul (Fin 2) (Fin q)) (Fin (- 1)))) = Fin f"
    unfolding j(1) using a(1) b(1) c(1) f(1) by simp
  then show ?thesis using err by blast
qed

lemma jitter_product:
  assumes I: "1000 \<le> I" "I \<le> 2 ^ 53" and f: "\<bar>f - (9 / 10 + q / 5)\<bar> \<le> 1 / 100000000000000" and q: "0 \<le> q" "q \<le> 1"
  shows "\<exists>y. f64_mul (f64_of_int I) (Fin f) = Fin y \<and> 89 / 100 * of_int I + 1 \<le> y \<and> y \<le> 111 / 100 * of_int I"
proof -
  let ?I = "of_int I :: rat"
  have Ir: "1000 \<le> ?I" "?I \<le> 9007199254740992" using I by simp_all
  have fb: "899 / 1000 \<le> f" "f \<le> 1101 / 1000" using f q by linarith+
  have lo: "899 / 1000 * ?I \<le> ?I * f" and hi: "?I * f \<le> 1101 / 1000 * ?I"
    using mult_left_mono [OF fb(1), of ?I] mult_left_mono [OF fb(2), of ?I] Ir by (simp_all add: mult.commute)
  then have ab: "\<bar>?I * f\<bar> \<le> 18014398509481984" using Ir by linarith
  then have "\<bar>?I * f\<bar> \<le> 2 ^ 200" by (elim order_trans) simp
  then obtain y where y: "f64_round (?I * f) = Fin y" "\<bar>y - ?I * f\<bar> \<le> \<bar>?I * f\<bar> / 2 ^ 53 + 1 / 2 ^ 1075"
    using f64_round_error by blast
  then have "\<bar>y - ?I * f\<bar> \<le> 3" using ab by simp
  then have "899 / 1000 * ?I - 3 \<le> y" "y \<le> 1101 / 1000 * ?I + 3" using lo hi by linarith+
  then have "89 / 100 * ?I + 1 \<le> y" "y \<le> 111 / 100 * ?I" using Ir(1) by linarith+
  moreover have "f64_mul (f64_of_int I) (Fin f) = Fin y" using y(1) I by simp
  ultimately show ?thesis by blast
qed

subsection \<open>Properties\<close>

text \<open>
  C8: the damping. For any interleaving of the probes of all backends, a backend's state is the
  verdict of the newest point in its own results at which the last \<open>Rise\<close> were all good or the last
  \<open>Fall\<close> all bad (thresholds below one count as one), and its initial state if there is none; so a
  shorter burst never moves traffic. The counters never leave the range of the thresholds.
\<close>

theorem health_hysteresis:
  assumes "\<forall>e \<in> set evs. fst e < length (pl_backends p)" and "i < length (pl_backends p)"
  shows "let w = probes code_of (fresh_world (Checker_New cfg m) p) evs;
           rise = max 1 (hc_Rise cfg); fall = max 1 (hc_Fall cfg)
    in bk_state (backend_at (hw_pool w) i) =
         damped (nat rise) (nat fall) (bk_state (backend_at p i)) (results_of code_of (backend_at p i) i evs) \<and>
       0 \<le> ct_success (hw_st w i) \<and> ct_success (hw_st w i) \<le> rise \<and>
       0 \<le> ct_failure (hw_st w i) \<and> ct_failure (hw_st w i) \<le> fall"
proof -
  have rf: "ck_rise (Checker_New cfg m) = max 1 (hc_Rise cfg)" "ck_fall (Checker_New cfg m) = max 1 (hc_Fall cfg)"
    by (simp_all add: Checker_New_def)
  have "0 \<le> max 1 (hc_Rise cfg)" "0 \<le> max 1 (hc_Fall cfg)" by simp_all
  then show ?thesis using probes_track [OF new_thresholds [of cfg m] assms(1), of code_of] assms(2) new_thresholds [of cfg m]
    by (simp add: Let_def rf run_counters_def del: damped.simps)
qed

text \<open>
  Only real transitions are published. A probe that leaves the state of the backend as it was
  reports its duration and nothing else; one that changes it sets the health gauge once and runs the
  registered callbacks once, after the change.
\<close>

theorem health_publishes_transitions:
  assumes "i < length (pl_backends (hw_pool w))"
  shows "let w' = health_probe code_of w i reply ts; b = backend_at (hw_pool w) i; b' = backend_at (hw_pool w') i;
           changed = (bk_state b' \<noteq> bk_state b); result = (if healthy_reply code_of b reply then resultOK else resultError)
    in hw_notified w' = hw_notified w @ (if changed then pl_callbacks (hw_pool w) else []) \<and>
       hw_calls w' = hw_calls w @
         (if ck_m (hw_ck w) then [ObserveHealthCheck (bk_id b) result (time_sub (snd ts) (fst ts))] else []) @
         (if changed \<and> ck_m (hw_ck w) then [SetBackendHealth (bk_id b) (bk_state b' = StateHealthy)] else [])"
proof -
  obtain c s err log where co: "CheckOnce code_of (hw_ck w) (Some (backend_at (hw_pool w) i)) reply = (c, s, err, log)"
    by (cases "CheckOnce code_of (hw_ck w) (Some (backend_at (hw_pool w) i)) reply")
  have m: "ck_m c = ck_m (hw_ck w)"
    using CheckOnce_checker(3) [of code_of "hw_ck w" "Some (backend_at (hw_pool w) i)" reply] co by simp
  have s: "s = StateHealthy \<longleftrightarrow> healthy_reply code_of (backend_at (hw_pool w) i) reply"
    using CheckOnce_result [of code_of "hw_ck w" "backend_at (hw_pool w) i" reply] co by simp
  obtain st target where d: "damp c (hw_st w i) s = (st, target)" by (cases "damp c (hw_st w i) s")
  show ?thesis using assms
    by (cases target)
      (auto simp: health_probe_def co health_record_def d m s Let_def Backend_SetState_def Pool_NotifyChange_def)
qed

text \<open>
  The jittered interval stays close to the configured one: for an interval between a
  microsecond and \<open>2\<^sup>5\<^sup>3\<close> nanoseconds and any draw in \<open>[0, 1]\<close>, the next tick is due after 89\% to 111\%
  of it, float64 rounding included.
\<close>

theorem health_jitter_bounds:
  assumes "1000 \<le> ck_interval c" "ck_interval c \<le> 2 ^ 53" "0 \<le> q" "q \<le> 1"
  shows "89 * ck_interval c \<le> 100 * nextInterval oob c (Fin q) \<and> 100 * nextInterval oob c (Fin q) \<le> 111 * ck_interval c"
proof -
  let ?I = "ck_interval c"
  have i64_max_num: "i64_max = 9223372036854775807" "(2 :: int) ^ 53 = 9007199254740992" by (simp_all add: i64_max_def)
  obtain f where f: "f64_add (Fin 1) (f64_mul jitterFraction (f64_add (f64_mul (Fin 2) (Fin q)) (Fin (- 1)))) = Fin f"
    "\<bar>f - (9 / 10 + q / 5)\<bar> \<le> 1 / 100000000000000" using jitter_factor [OF assms(3,4)] by blast
  obtain y where y: "f64_mul (f64_of_int ?I) (Fin f) = Fin y" "89 / 100 * of_int ?I + 1 \<le> y" "y \<le> 111 / 100 * of_int ?I"
    using jitter_product [OF assms(1,2) f(2) assms(3,4)] by blast
  have y0: "0 \<le> y" using y(2) assms(1) by (elim order_trans [rotated]) simp
  let ?d = "\<lfloor>y\<rfloor>"
  have d: "of_int ?d \<le> y" "y < of_int ?d + 1" by linarith+
  have "(of_int (89 * ?I) :: rat) \<le> of_int (100 * ?d)" using y(2) d(2) unfolding of_int_mult of_int_numeral by linarith
  then have lo: "89 * ?I \<le> 100 * ?d" by (simp only: of_int_le_iff)
  have "(of_int (100 * ?d) :: rat) \<le> of_int (111 * ?I)" using y(3) d(1) unfolding of_int_mult of_int_numeral by linarith
  then have hi: "100 * ?d \<le> 111 * ?I" by (simp only: of_int_le_iff)
  have "0 < ?d" using lo assms(1) by linarith
  moreover have "?d \<le> i64_max" using hi assms(2) i64_max_num by linarith
  ultimately have "nextInterval oob c (Fin q) = ?d"
    unfolding nextInterval_def Let_def f(1) y(1) using y0 by (simp add: Let_def i64_min_def)
  then show ?thesis using lo hi by simp
qed

definition sample_health :: "nat option pool" where
  "sample_health = \<lparr>pl_backends = [\<lparr>bk_id = ''b0'', bk_addr = ''a0'', bk_weight = 1, bk_conn = Some 0,
       bk_breaker = Named ''b0'', bk_breakerEnabled = True, bk_state = StateUnknown\<rparr>],
     pl_byID = [''b0'' \<mapsto> 0], pl_breakers = NewRegistry sample_settings 0, pl_callbacks = [7], pl_closed = None\<rparr>"

text \<open>With \<open>Rise\<close> 2 and \<open>Fall\<close> 2: two good results, then a lost probe and a good one.\<close>

definition sample_cfg_health :: cfg_health where
  "sample_cfg_health = \<lparr>hc_Interval = second, hc_Timeout = 0, hc_Rise = 2, hc_Fall = 2, hc_Service = []\<rparr>"

definition sample_probes :: "(nat \<times> check_reply \<times> go_time \<times> go_time) list" where
  "sample_probes = [(0, Inr SERVING, 0, 1), (0, Inl (Status_Error Unimplemented []), 0, 1),
     (0, Inl (Status_Error DeadlineExceeded []), 0, 1), (0, Inr SERVING, 0, 1)]"

theorem health_hysteresis_witness:
  "bk_state (backend_at (hw_pool (probes doc_code (fresh_world (Checker_New sample_cfg_health True) sample_health) sample_probes)) 0)
     = StateHealthy"
proof -
  have "\<forall>e \<in> set sample_probes. fst e < length (pl_backends sample_health)"
    by (simp add: sample_probes_def sample_health_def)
  moreover have "results_of doc_code (backend_at sample_health 0) 0 sample_probes = [True, False, True, True]"
    by (simp add: results_of_def sample_probes_def sample_health_def healthy_reply_def doc_code_def)
  ultimately show ?thesis
    using health_hysteresis [of sample_probes sample_health 0 doc_code sample_cfg_health True]
    by (simp add: Let_def sample_cfg_health_def sample_health_def)
qed

theorem health_publishes_transitions_witness:
  "hw_notified (health_probe doc_code (fresh_world (Checker_New sample_cfg_health True) sample_health) 0 (Inr SERVING) (0, 1)) = []"
  using health_publishes_transitions [of 0 "fresh_world (Checker_New sample_cfg_health True) sample_health" doc_code "Inr SERVING" "(0, 1)"]
  by (simp add: Let_def fresh_world_def sample_health_def health_probe_def CheckOnce_def health_record_def damp_def
      Checker_New_def sample_cfg_health_def)

theorem health_jitter_bounds_witness:
  "let d = nextInterval (\<lambda>_. 0) (Checker_New sample_cfg_health True) (Fin (1 / 4))
   in 89 * second \<le> 100 * d \<and> 100 * d \<le> 111 * second"
  using health_jitter_bounds [of "Checker_New sample_cfg_health True" "1 / 4" "\<lambda>_. 0"]
  by (simp add: Let_def Checker_New_def sample_cfg_health_def)

end
