(* ===== verification/Health_Lifecycle.thy ===== *)
theory Health_Lifecycle
  imports Health
begin

text \<open>
  The goroutines of \<^verbatim>\<open>internal/health/health.go\<close>: \<open>Start\<close>, \<open>spawn\<close>, \<open>run\<close> and \<open>Stop\<close> as a transition system. The
  steps are the points at which the goroutines synchronise: the check of \<open>stop\<close>, each \<open>spawn\<close>, the end of a probe, the
  two arms of the \<open>select\<close> in \<open>run\<close>, the watcher's \<open>cancel\<close>, the two deferred calls that follow a goroutine's function,
  and the two halves of each call of \<open>Stop\<close>. \<open>None\<close> for the pool is a nil pool, \<open>Some n\<close> a pool of \<open>n\<close> backends;
  goroutine 0 is the watcher, the others run the probing loops. A step is a \<^emph>\<open>duty\<close> when a goroutine or caller that
  has come this far has to make it; the other steps are those of the outside (a call of \<open>Start\<close> or \<open>Stop\<close>, the parent
  context), the end of a probe, and the tick of a probing timer, which may recur for ever.
\<close>

datatype run_pc = Probing | Selecting | Returning

datatype goroutine = Running run_pc | Finishing | Gone

datatype start_pc = Start_Idle | Start_Checked | Start_Spawning nat | Start_Over

datatype stop_pc = Stop_Idle | Stop_Waiting | Stop_Returned

record life =
  lf_start :: start_pc
  lf_stop :: bool
  lf_parent :: bool \<comment> \<open>the context given to \<open>Start\<close> is done\<close>
  lf_cancel :: bool \<comment> \<open>the watcher has cancelled the derived context\<close>
  lf_gor :: "goroutine list"
  lf_probes :: nat \<comment> \<open>the probes completed\<close>
  lf_wg :: int
  lf_live :: int
  lf_stops :: "stop_pc list"

text \<open>\<open>spawn\<close> with the first thing the function does, and the calls deferred in it: the last one deferred runs first.\<close>

definition spawn :: "run_pc \<Rightarrow> life \<Rightarrow> life" where
  "spawn p s = s\<lparr>lf_wg := lf_wg s + 1, lf_live := lf_live s + 1, lf_gor := lf_gor s @ [Running p]\<rparr>"

definition wg_Done :: "nat \<Rightarrow> life \<Rightarrow> life" where
  "wg_Done i s = s\<lparr>lf_wg := lf_wg s - 1, lf_gor := (lf_gor s)[i := Finishing]\<rparr>"

definition live_Done :: "nat \<Rightarrow> life \<Rightarrow> life" where
  "live_Done i s = s\<lparr>lf_live := lf_live s - 1, lf_gor := (lf_gor s)[i := Gone]\<rparr>"

definition run_to :: "nat \<Rightarrow> run_pc \<Rightarrow> life \<Rightarrow> life" where
  "run_to i p s = s\<lparr>lf_gor := (lf_gor s)[i := Running p]\<rparr>"

inductive life_duty :: "nat option \<Rightarrow> life \<Rightarrow> life \<Rightarrow> bool" for pool where
  spawn_watcher: "lf_start s = Start_Checked \<Longrightarrow> life_duty pool s (spawn Selecting s\<lparr>lf_start := Start_Spawning 0\<rparr>)"
| spawn_backend: "lf_start s = Start_Spawning i \<Longrightarrow> pool = Some n \<Longrightarrow> i < n \<Longrightarrow>
    life_duty pool s (spawn Probing s\<lparr>lf_start := Start_Spawning (i + 1)\<rparr>)"
| start_over: "lf_start s = Start_Spawning n \<Longrightarrow> pool = Some n \<Longrightarrow> life_duty pool s (s\<lparr>lf_start := Start_Over\<rparr>)"
| watcher_cancel: "0 < length (lf_gor s) \<Longrightarrow> lf_gor s ! 0 = Running Selecting \<Longrightarrow> lf_parent s \<or> lf_stop s \<Longrightarrow>
    life_duty pool s (run_to 0 Returning s\<lparr>lf_cancel := True\<rparr>)"
| loop_return: "0 < i \<Longrightarrow> i < length (lf_gor s) \<Longrightarrow> lf_gor s ! i = Running Selecting \<Longrightarrow> lf_parent s \<or> lf_cancel s \<Longrightarrow>
    life_duty pool s (run_to i Returning s)"
| returned: "i < length (lf_gor s) \<Longrightarrow> lf_gor s ! i = Running Returning \<Longrightarrow> life_duty pool s (wg_Done i s)"
| finished: "i < length (lf_gor s) \<Longrightarrow> lf_gor s ! i = Finishing \<Longrightarrow> life_duty pool s (live_Done i s)"
| stop_return: "t < length (lf_stops s) \<Longrightarrow> lf_stops s ! t = Stop_Waiting \<Longrightarrow> lf_wg s = 0 \<Longrightarrow>
    life_duty pool s (s\<lparr>lf_stops := (lf_stops s)[t := Stop_Returned]\<rparr>)"

inductive life_step :: "nat option \<Rightarrow> life \<Rightarrow> life \<Rightarrow> bool" for pool where
  duty: "life_duty pool s s' \<Longrightarrow> life_step pool s s'"
| start_nil: "lf_start s = Start_Idle \<Longrightarrow> pool = None \<Longrightarrow> life_step pool s (s\<lparr>lf_start := Start_Over\<rparr>)"
| start_stopped: "lf_start s = Start_Idle \<Longrightarrow> pool = Some n \<Longrightarrow> lf_stop s \<Longrightarrow> life_step pool s (s\<lparr>lf_start := Start_Over\<rparr>)"
| start_checked: "lf_start s = Start_Idle \<Longrightarrow> pool = Some n \<Longrightarrow> \<not> lf_stop s \<Longrightarrow> life_step pool s (s\<lparr>lf_start := Start_Checked\<rparr>)"
| probe_end: "0 < i \<Longrightarrow> i < length (lf_gor s) \<Longrightarrow> lf_gor s ! i = Running Probing \<Longrightarrow>
    life_step pool s (run_to i Selecting s\<lparr>lf_probes := lf_probes s + 1\<rparr>)"
| tick: "0 < i \<Longrightarrow> i < length (lf_gor s) \<Longrightarrow> lf_gor s ! i = Running Selecting \<Longrightarrow> life_step pool s (run_to i Probing s)"
| stop_close: "t < length (lf_stops s) \<Longrightarrow> lf_stops s ! t = Stop_Idle \<Longrightarrow>
    life_step pool s (s\<lparr>lf_stop := True, lf_stops := (lf_stops s)[t := Stop_Waiting]\<rparr>)"
| parent_done: "\<not> lf_parent s \<Longrightarrow> life_step pool s (s\<lparr>lf_parent := True\<rparr>)"

inductive_cases life_dutyE: "life_duty pool s s'"
inductive_cases life_stepE: "life_step pool s s'"

text \<open>A new checker, on which \<open>k\<close> goroutines will call \<open>Stop\<close>.\<close>

definition life_start :: "nat \<Rightarrow> life" where
  "life_start k = \<lparr>lf_start = Start_Idle, lf_stop = False, lf_parent = False, lf_cancel = False, lf_gor = [], lf_probes = 0,
     lf_wg = 0, lf_live = 0, lf_stops = replicate k Stop_Idle\<rparr>"

abbreviation life_reach :: "nat option \<Rightarrow> nat \<Rightarrow> life \<Rightarrow> bool" where
  "life_reach pool k s \<equiv> (life_step pool)\<^sup>*\<^sup>* (life_start k) s"

text \<open>
  The whole future of a checker: in every moment a step is made or nothing happens. A run is fair when duties that keep
  turning up are not put off for ever, which covers the \<open>select\<close> of a probing loop: with both arms ready again and
  again it does not always choose the timer. Every probe ends, since \<open>CheckOnce\<close> bounds the RPC by the timeout.
\<close>

definition life_run :: "nat option \<Rightarrow> nat \<Rightarrow> (nat \<Rightarrow> life) \<Rightarrow> bool" where
  "life_run pool k r = (r 0 = life_start k \<and> (\<forall>n. life_step pool (r n) (r (Suc n)) \<or> r (Suc n) = r n))"

definition life_fair :: "nat option \<Rightarrow> (nat \<Rightarrow> life) \<Rightarrow> bool" where
  "life_fair pool r = (\<forall>n. (\<forall>m\<ge>n. \<exists>j\<ge>m. \<exists>s'. life_duty pool (r j) s') \<longrightarrow> (\<exists>m\<ge>n. life_duty pool (r m) (r (Suc m))))"

definition probes_end :: "(nat \<Rightarrow> life) \<Rightarrow> bool" where
  "probes_end r = (\<forall>n i. i < length (lf_gor (r n)) \<longrightarrow> (\<exists>m\<ge>n. lf_gor (r m) ! i \<noteq> Running Probing))"

subsection \<open>Invariant\<close>

fun start_ok :: "nat option \<Rightarrow> start_pc \<Rightarrow> nat \<Rightarrow> bool" where
  "start_ok pool Start_Idle g = (g = 0)"
| "start_ok pool Start_Checked g = (g = 0 \<and> pool \<noteq> None)"
| "start_ok pool (Start_Spawning i) g = (g = i + 1 \<and> (\<exists>n. pool = Some n \<and> i \<le> n))"
| "start_ok pool Start_Over g = True"

fun is_running :: "goroutine \<Rightarrow> nat" where
  "is_running (Running p) = 1"
| "is_running g = 0"

fun is_live :: "goroutine \<Rightarrow> nat" where
  "is_live Gone = 0"
| "is_live g = 1"

definition life_inv :: "nat option \<Rightarrow> life \<Rightarrow> bool" where
  "life_inv pool s =
     (lf_wg s = int (sum_list (map is_running (lf_gor s))) \<and>
      lf_live s = int (sum_list (map is_live (lf_gor s))) \<and>
      (lf_stop s \<longleftrightarrow> (\<exists>p \<in> set (lf_stops s). p \<noteq> Stop_Idle)) \<and>
      (lf_gor s \<noteq> [] \<and> hd (lf_gor s) \<noteq> Running Selecting \<longrightarrow> lf_cancel s) \<and>
      (lf_gor s \<noteq> [] \<longrightarrow> hd (lf_gor s) \<noteq> Running Probing) \<and> start_ok pool (lf_start s) (length (lf_gor s)))"

lemma sum_list_update_int:
  "i < length xs \<Longrightarrow> int (sum_list (map f (xs[i := y]))) = int (sum_list (map f xs)) + int (f y) - int (f (xs ! i))"
proof (induction xs arbitrary: i)
  case (Cons a xs)
  then show ?case by (cases i) auto
qed simp

lemma hd_update: "i < length xs \<Longrightarrow> hd (xs[i := y]) = (if i = 0 then y else hd xs)"
  by (cases xs; cases i) simp_all

lemma nth_0_hd: "0 < length xs \<Longrightarrow> xs ! 0 = hd xs"
  by (cases xs) simp_all

lemmas life_ops = spawn_def wg_Done_def live_Done_def run_to_def

lemma no_running: "sum_list (map is_running gs) = 0 \<longleftrightarrow> (\<forall>p. Running p \<notin> set gs)"
proof (induction gs)
  case (Cons g gs)
  then show ?case by (cases g) auto
qed simp

lemma life_inv_duty:
  assumes "life_duty pool s s'" "life_inv pool s"
  shows "life_inv pool s'"
  using assms
proof (induction rule: life_duty.induct)
  case (stop_return t s)
  then have "Stop_Returned \<in> set ((lf_stops s)[t := Stop_Returned])" "Stop_Waiting \<in> set (lf_stops s)"
    by (metis set_update_memI, metis nth_mem)
  then show ?case using stop_return by (auto simp: life_inv_def)
next
  case (spawn_backend s i n)
  then have "lf_gor s \<noteq> []" by (auto simp: life_inv_def)
  then show ?case using spawn_backend by (auto simp: life_inv_def spawn_def)
next
  case (finished i s)
  then have "i = 0 \<Longrightarrow> hd (lf_gor s) = Finishing" by (cases "lf_gor s") auto
  then show ?case using finished by (auto simp: life_inv_def live_Done_def sum_list_update_int hd_update)
next
  case (returned i s)
  then have "i = 0 \<Longrightarrow> hd (lf_gor s) = Running Returning" by (cases "lf_gor s") auto
  then show ?case using returned by (auto simp: life_inv_def wg_Done_def sum_list_update_int hd_update)
qed (auto simp: life_inv_def life_ops sum_list_update_int hd_update)

lemma life_inv_step:
  assumes "life_step pool s s'" "life_inv pool s"
  shows "life_inv pool s'"
  using assms
proof (induction rule: life_step.induct)
  case (duty s s')
  then show ?case using life_inv_duty by blast
next
  case (stop_close t s)
  then have "set ((lf_stops s)[t := Stop_Waiting]) \<noteq> {} \<and> Stop_Waiting \<in> set ((lf_stops s)[t := Stop_Waiting])"
    by (metis empty_iff set_update_memI)
  then show ?case using stop_close by (auto simp: life_inv_def)
qed (auto simp: life_inv_def run_to_def sum_list_update_int hd_update)

lemma life_reach_inv: "life_reach pool k s \<Longrightarrow> life_inv pool s"
proof (induction rule: rtranclp_induct)
  case base
  show ?case by (simp add: life_inv_def life_start_def)
next
  case (step s s')
  then show ?case using life_inv_step by blast
qed

subsection \<open>After a stop\<close>

text \<open>Once \<open>Start\<close> is over and the wait group is empty, no goroutine runs again and no probe is made.\<close>

definition quiet_life :: "nat \<Rightarrow> life \<Rightarrow> bool" where
  "quiet_life n s = (lf_start s = Start_Over \<and> (\<forall>p. Running p \<notin> set (lf_gor s)) \<and> lf_probes s = n)"

lemma quiet_life_duty: "life_duty pool s s' \<Longrightarrow> quiet_life n s \<Longrightarrow> quiet_life n s'"
  by (induction rule: life_duty.induct)
     (auto simp: quiet_life_def life_ops simp del: length_greater_0_conv dest!: subsetD [OF set_update_subset_insert] nth_mem)

lemma quiet_life_step: "life_step pool s s' \<Longrightarrow> quiet_life n s \<Longrightarrow> quiet_life n s'"
  by (induction rule: life_step.induct) (auto simp: quiet_life_duty, auto simp: quiet_life_def run_to_def dest!: nth_mem)

lemma quiet_life_steps: "(life_step pool)\<^sup>*\<^sup>* s s' \<Longrightarrow> quiet_life n s \<Longrightarrow> quiet_life n s'"
  by (induction rule: rtranclp_induct) (auto dest: quiet_life_step)

subsection \<open>Progress\<close>

text \<open>
  What \<open>Start\<close>, the goroutines and the callers of \<open>Stop\<close> still have to do. Every duty uses some of it up and no
  other step adds to it; a probing loop may tick and probe again at no cost.
\<close>

fun start_work :: "nat option \<Rightarrow> start_pc \<Rightarrow> nat" where
  "start_work pool Start_Idle = 4 * (case pool of None \<Rightarrow> 0 | Some n \<Rightarrow> n + 1) + 2"
| "start_work pool Start_Checked = 4 * (case pool of None \<Rightarrow> 0 | Some n \<Rightarrow> n + 1) + 2"
| "start_work pool (Start_Spawning i) = 4 * (case pool of None \<Rightarrow> 0 | Some n \<Rightarrow> n - i) + 1"
| "start_work pool Start_Over = 0"

fun gor_work :: "goroutine \<Rightarrow> nat" where
  "gor_work (Running Returning) = 2"
| "gor_work (Running p) = 3"
| "gor_work Finishing = 1"
| "gor_work Gone = 0"

fun stop_work :: "stop_pc \<Rightarrow> nat" where
  "stop_work Stop_Returned = 0"
| "stop_work p = 1"

definition life_work :: "nat option \<Rightarrow> life \<Rightarrow> nat" where
  "life_work pool s = start_work pool (lf_start s) + sum_list (map gor_work (lf_gor s)) + sum_list (map stop_work (lf_stops s))"

lemma sum_list_less: "i < length xs \<Longrightarrow> f y < f (xs ! i) \<Longrightarrow> sum_list (map f (xs[i := y])) < (sum_list (map f xs) :: nat)"
  using sum_list_update_int [of i xs f y] by linarith

lemma sum_list_same: "i < length xs \<Longrightarrow> f y = f (xs ! i) \<Longrightarrow> sum_list (map f (xs[i := y])) = (sum_list (map f xs) :: nat)"
  using sum_list_update_int [of i xs f y] by linarith

lemma life_duty_work:
  assumes "life_duty pool s s'" "life_inv pool s"
  shows "life_work pool s' < life_work pool s"
  using assms
proof (induction rule: life_duty.induct)
  case (spawn_watcher s)
  then obtain n where "pool = Some n" by (auto simp: life_inv_def)
  then show ?case using spawn_watcher by (simp add: life_work_def spawn_def)
qed (simp_all add: life_work_def life_ops sum_list_less)

lemma life_step_work:
  assumes "life_step pool s s'" "life_inv pool s"
  shows "life_work pool s' \<le> life_work pool s"
  using assms
proof (induction rule: life_step.induct)
  case (duty s s')
  then show ?case using life_duty_work less_imp_le by blast
qed (simp_all add: life_work_def run_to_def sum_list_same)

text \<open>What a run keeps: the invariant, a caller that waits, the cancellation.\<close>

lemma life_run_inv: "life_run pool k r \<Longrightarrow> life_inv pool (r n)"
proof (induction n)
  case 0
  then show ?case using life_reach_inv [of pool k "life_start k"] by (simp add: life_run_def)
next
  case (Suc n)
  then show ?case using life_inv_step [of pool "r n" "r (Suc n)"] unfolding life_run_def by metis
qed

lemma life_step_frame:
  assumes "life_step pool s s'"
  shows "length (lf_stops s') = length (lf_stops s) \<and> length (lf_gor s) \<le> length (lf_gor s') \<and> (lf_cancel s \<longrightarrow> lf_cancel s') \<and>
    (lf_stops s ! t = Stop_Waiting \<longrightarrow> t < length (lf_stops s) \<longrightarrow> lf_stops s' ! t \<in> {Stop_Waiting, Stop_Returned}) \<and>
    (i < length (lf_gor s) \<longrightarrow> lf_gor s ! i = Running Probing \<longrightarrow> lf_gor s' ! i \<in> {Running Probing, Running Selecting})"
  using assms
  by (elim life_stepE life_dutyE) (auto simp: life_ops nth_list_update nth_append)

text \<open>While a caller of \<open>Stop\<close> waits, a duty is due, or some loop whose context is cancelled is in its probe.\<close>

lemma waiting_duty:
  assumes "life_inv pool s" "t < length (lf_stops s)" "lf_stops s ! t = Stop_Waiting"
  shows "(\<exists>s'. life_duty pool s s') \<or> (\<exists>i. 0 < i \<and> i < length (lf_gor s) \<and> lf_gor s ! i = Running Probing \<and> lf_cancel s)"
proof (cases "lf_wg s = 0")
  case True
  then show ?thesis using life_duty.stop_return [OF assms(2,3)] by blast
next
  case False
  then have "sum_list (map is_running (lf_gor s)) \<noteq> 0" using assms(1) by (simp add: life_inv_def)
  then obtain p where "Running p \<in> set (lf_gor s)" using no_running [of "lf_gor s"] by auto
  then obtain i where i: "i < length (lf_gor s)" "lf_gor s ! i = Running p" by (auto simp: in_set_conv_nth)
  then have h: "hd (lf_gor s) = lf_gor s ! 0" "0 < length (lf_gor s)" by (cases "lf_gor s"; simp)+
  have "Stop_Waiting \<in> set (lf_stops s)" using assms(2,3) by (metis nth_mem)
  then have st: "lf_stop s" using assms(1) by (auto simp: life_inv_def)
  show ?thesis
  proof (cases "lf_gor s ! 0 = Running Selecting")
    case True
    then show ?thesis using life_duty.watcher_cancel [of s pool] h(2) st by blast
  next
    case False
    then have c: "lf_cancel s" and np: "lf_gor s ! 0 \<noteq> Running Probing" using assms(1) h by (auto simp: life_inv_def)
    show ?thesis
    proof (cases p)
      case Probing
      then show ?thesis using i c np by (metis gr0I)
    next
      case Selecting
      then show ?thesis using i c False life_duty.loop_return [of i s pool] by (metis gr0I)
    next
      case Returning
      then show ?thesis using i life_duty.returned [of i s pool] by blast
    qed
  qed
qed

text \<open>A loop in its probe comes to the \<open>select\<close> with its context done, where returning is a duty.\<close>

lemma probing_leads_to_duty:
  assumes "life_run pool k r" "probes_end r" "0 < i" "i < length (lf_gor (r n))" "lf_gor (r n) ! i = Running Probing" "lf_cancel (r n)"
  shows "\<exists>m\<ge>n. \<exists>s'. life_duty pool (r m) s'"
proof -
  let ?here = "\<lambda>m p. i < length (lf_gor (r m)) \<and> lf_gor (r m) ! i = Running p \<and> lf_cancel (r m)"
  have "?here (n + d) Probing \<or> (\<exists>m\<ge>n. ?here m Selecting)" for d
  proof (induction d)
    case (Suc d)
    have "life_step pool (r (n + d)) (r (n + Suc d)) \<or> r (n + Suc d) = r (n + d)" using assms(1) by (simp add: life_run_def)
    then have "?here (n + Suc d) Probing \<or> ?here (n + Suc d) Selecting" if "?here (n + d) Probing"
      using that life_step_frame [of pool "r (n + d)" "r (n + Suc d)" 0 i] by auto
    moreover have "n \<le> n + Suc d" by simp
    ultimately show ?case using Suc by blast
  qed (use assms in simp)
  moreover obtain m where "n \<le> m" "lf_gor (r m) ! i \<noteq> Running Probing" using assms(2,4) unfolding probes_end_def by blast
  ultimately obtain m where "n \<le> m" "?here m Selecting" by (metis le_add_diff_inverse)
  then show ?thesis using life_duty.loop_return [of i "r m" pool] assms(3) by blast
qed

text \<open>A run in which a duty is due for ever is not fair, because duties are used up.\<close>

lemma fair_run_rests:
  assumes "life_run pool k r" "life_fair pool r"
  shows "\<exists>m. \<forall>j\<ge>m. \<nexists>s'. life_duty pool (r j) s'"
proof (rule ccontr)
  assume "\<not> ?thesis"
  then have inf: "\<forall>m. \<exists>j\<ge>m. \<exists>s'. life_duty pool (r j) s'" by blast
  have mono: "life_work pool (r (Suc m)) \<le> life_work pool (r m)" for m
    using assms(1) life_step_work [OF _ life_run_inv [OF assms(1), of m]] unfolding life_run_def by (metis order_refl)
  have "\<exists>m. life_work pool (r m) + w \<le> life_work pool (r 0)" for w
  proof (induction w)
    case (Suc w)
    then obtain n where n: "life_work pool (r n) + w \<le> life_work pool (r 0)" by blast
    obtain m where m: "n \<le> m" "life_duty pool (r m) (r (Suc m))" using assms(2) inf unfolding life_fair_def by blast
    have "life_work pool (r (Suc m)) < life_work pool (r m)" using life_duty_work [OF m(2) life_run_inv [OF assms(1)]] .
    moreover have "life_work pool (r m) \<le> life_work pool (r n)" using lift_Suc_antimono_le [of "\<lambda>m. life_work pool (r m)", OF mono m(1)] .
    ultimately show ?case using n by (intro exI [of _ "Suc m"]) simp
  qed auto
  then obtain m where "life_work pool (r m) + Suc (life_work pool (r 0)) \<le> life_work pool (r 0)" by blast
  then show False by simp
qed

subsection \<open>Claims\<close>

text \<open>
  C22: When \<open>Stop\<close> of the health checker returns, probing is over. If \<open>Start\<close> has completed when a call of \<open>Stop\<close>
  returns, then at that moment and ever after no goroutine of the checker runs its function and no probe is made,
  whichever of the callers of \<open>Stop\<close> it is and however the watcher, the probing loops and the other callers interleave.
\<close>

theorem checker_stop_quiesces:
  assumes "life_reach pool k s" "life_step pool s s'" "lf_start s = Start_Over"
    and "lf_stops s ! t = Stop_Waiting" "lf_stops s' ! t = Stop_Returned" "(life_step pool)\<^sup>*\<^sup>* s' u"
  shows "Running p \<notin> set (lf_gor s') \<and> Running p \<notin> set (lf_gor u) \<and> lf_probes u = lf_probes s'"
proof -
  have "lf_wg s = 0 \<and> lf_gor s' = lf_gor s \<and> lf_start s' = lf_start s"
    using assms(2,4,5) by (elim life_stepE life_dutyE) (auto simp: life_ops nth_list_update split: if_splits)
  then have "quiet_life (lf_probes s') s'" using life_reach_inv [OF assms(1)] assms(3) no_running [of "lf_gor s"]
    by (simp add: quiet_life_def life_inv_def)
  then show ?thesis using quiet_life_steps [OF assms(6)] by (simp add: quiet_life_def)
qed


text \<open>
  One backend, one caller of \<open>Stop\<close>, which returns as soon as the wait group is empty. The loop ticks and probes once
  more after the cancellation.
\<close>

definition life_at :: "start_pc \<Rightarrow> bool \<Rightarrow> bool \<Rightarrow> goroutine list \<Rightarrow> nat \<Rightarrow> int \<Rightarrow> int \<Rightarrow> stop_pc \<Rightarrow> life" where
  "life_at st sp c g n wg lv p = \<lparr>lf_start = st, lf_stop = sp, lf_parent = False, lf_cancel = c, lf_gor = g, lf_probes = n, lf_wg = wg,
     lf_live = lv, lf_stops = [p]\<rparr>"

definition stopped_life :: life where
  "stopped_life = life_at Start_Over True True [Finishing, Finishing] 2 0 2 Stop_Waiting"

definition stopping :: "life list" where
  "stopping = [life_start 1,
     life_at Start_Checked False False [] 0 0 0 Stop_Idle,
     life_at (Start_Spawning 0) False False [Running Selecting] 0 1 1 Stop_Idle,
     life_at (Start_Spawning 1) False False [Running Selecting, Running Probing] 0 2 2 Stop_Idle,
     life_at Start_Over False False [Running Selecting, Running Probing] 0 2 2 Stop_Idle,
     life_at Start_Over False False [Running Selecting, Running Selecting] 1 2 2 Stop_Idle,
     life_at Start_Over True False [Running Selecting, Running Selecting] 1 2 2 Stop_Waiting,
     life_at Start_Over True True [Running Returning, Running Selecting] 1 2 2 Stop_Waiting,
     life_at Start_Over True True [Running Returning, Running Probing] 1 2 2 Stop_Waiting,
     life_at Start_Over True True [Finishing, Running Probing] 1 1 2 Stop_Waiting,
     life_at Start_Over True True [Finishing, Running Selecting] 2 1 2 Stop_Waiting,
     life_at Start_Over True True [Finishing, Running Returning] 2 1 2 Stop_Waiting,
     stopped_life]"

definition stopping_end :: "life list" where
  "stopping_end = [life_at Start_Over True True [Finishing, Finishing] 2 0 2 Stop_Returned,
     life_at Start_Over True True [Gone, Finishing] 2 0 1 Stop_Returned,
     life_at Start_Over True True [Gone, Gone] 2 0 0 Stop_Returned]"


text \<open>The steps, with the state after them given by an equation.\<close>

lemma start_checkedI: "lf_start s = Start_Idle \<Longrightarrow> \<not> lf_stop s \<Longrightarrow> s' = s\<lparr>lf_start := Start_Checked\<rparr> \<Longrightarrow> life_step (Some n) s s'"
  by (simp add: life_step.start_checked)

lemma spawn_watcherI: "lf_start s = Start_Checked \<Longrightarrow> s' = spawn Selecting s\<lparr>lf_start := Start_Spawning 0\<rparr> \<Longrightarrow> life_step pool s s'"
  by (simp add: life_step.duty life_duty.spawn_watcher)

lemma spawn_backendI: "lf_start s = Start_Spawning i \<Longrightarrow> i < n \<Longrightarrow> s' = spawn Probing s\<lparr>lf_start := Start_Spawning (i + 1)\<rparr> \<Longrightarrow>
    life_step (Some n) s s'"
  using life_duty.spawn_backend [of s i "Some n" n] by (simp add: life_step.duty)

lemma start_overI: "lf_start s = Start_Spawning n \<Longrightarrow> s' = s\<lparr>lf_start := Start_Over\<rparr> \<Longrightarrow> life_step (Some n) s s'"
  by (simp add: life_step.duty life_duty.start_over)

lemma watcher_cancelI: "0 < length (lf_gor s) \<Longrightarrow> lf_gor s ! 0 = Running Selecting \<Longrightarrow> lf_parent s \<or> lf_stop s \<Longrightarrow>
    s' = run_to 0 Returning s\<lparr>lf_cancel := True\<rparr> \<Longrightarrow> life_step pool s s'"
  using life_duty.watcher_cancel [of s pool] by (simp add: life_step.duty)

lemma loop_returnI: "0 < i \<Longrightarrow> i < length (lf_gor s) \<Longrightarrow> lf_gor s ! i = Running Selecting \<Longrightarrow> lf_parent s \<or> lf_cancel s \<Longrightarrow>
    s' = run_to i Returning s \<Longrightarrow> life_step pool s s'"
  by (simp add: life_step.duty life_duty.loop_return)

lemma returnedI: "i < length (lf_gor s) \<Longrightarrow> lf_gor s ! i = Running Returning \<Longrightarrow> s' = wg_Done i s \<Longrightarrow> life_step pool s s'"
  by (simp add: life_step.duty life_duty.returned)

lemma finishedI: "i < length (lf_gor s) \<Longrightarrow> lf_gor s ! i = Finishing \<Longrightarrow> s' = live_Done i s \<Longrightarrow> life_step pool s s'"
  by (simp add: life_step.duty life_duty.finished)

lemma stop_returnI: "t < length (lf_stops s) \<Longrightarrow> lf_stops s ! t = Stop_Waiting \<Longrightarrow> lf_wg s = 0 \<Longrightarrow>
    s' = s\<lparr>lf_stops := (lf_stops s)[t := Stop_Returned]\<rparr> \<Longrightarrow> life_step pool s s'"
  by (simp add: life_step.duty life_duty.stop_return)

lemma probe_endI: "0 < i \<Longrightarrow> i < length (lf_gor s) \<Longrightarrow> lf_gor s ! i = Running Probing \<Longrightarrow>
    s' = run_to i Selecting s\<lparr>lf_probes := lf_probes s + 1\<rparr> \<Longrightarrow> life_step pool s s'"
  using life_step.probe_end [of i s pool] by simp

lemma tickI: "0 < i \<Longrightarrow> i < length (lf_gor s) \<Longrightarrow> lf_gor s ! i = Running Selecting \<Longrightarrow> s' = run_to i Probing s \<Longrightarrow> life_step pool s s'"
  by (simp add: life_step.tick)

lemma stop_closeI: "t < length (lf_stops s) \<Longrightarrow> lf_stops s ! t = Stop_Idle \<Longrightarrow>
    s' = s\<lparr>lf_stop := True, lf_stops := (lf_stops s)[t := Stop_Waiting]\<rparr> \<Longrightarrow> life_step pool s s'"
  by (simp add: life_step.stop_close)

lemmas life_at_simps = life_at_def life_start_def life_ops

lemma stopping_succ: "successively (life_step (Some 1)) (stopping @ stopping_end)"
  unfolding stopping_def stopping_end_def stopped_life_def append_Cons append_Nil successively.simps
  by (intro conjI TrueI;
      ((rule start_checkedI; simp add: life_at_simps; fail) | (rule spawn_watcherI; simp add: life_at_simps; fail) |
       (rule spawn_backendI [where i = 0]; simp add: life_at_simps; fail) | (rule start_overI; simp add: life_at_simps; fail) |
       (rule probe_endI [where i = 1]; simp add: life_at_simps; fail) | (rule stop_closeI [where t = 0]; simp add: life_at_simps; fail) |
       (rule watcher_cancelI; simp add: life_at_simps; fail) | (rule tickI [where i = 1]; simp add: life_at_simps; fail) |
       (rule returnedI [where i = 0]; simp add: life_at_simps; fail) | (rule loop_returnI [where i = 1]; simp add: life_at_simps; fail) |
       (rule returnedI [where i = 1]; simp add: life_at_simps; fail) | (rule stop_returnI [where t = 0]; simp add: life_at_simps; fail) |
       (rule finishedI [where i = 0]; simp add: life_at_simps; fail) | (rule finishedI [where i = 1]; simp add: life_at_simps; fail)))

text \<open>A sequence of steps as a run that rests in its last state.\<close>

definition rests :: "life list \<Rightarrow> nat \<Rightarrow> life" where
  "rests xs n = (if n < length xs then xs ! n else last xs)"

lemma successively_nth: "successively P xs \<Longrightarrow> Suc n < length xs \<Longrightarrow> P (xs ! n) (xs ! Suc n)"
proof (induction xs arbitrary: n rule: induct_list012)
  case (3 x y zs)
  then show ?case by (cases n) auto
qed simp_all

lemma rests_run:
  assumes "successively (life_step pool) xs" "xs \<noteq> []" "hd xs = life_start k"
  shows "life_run pool k (rests xs)"
proof -
  have "life_step pool (rests xs n) (rests xs (Suc n)) \<or> rests xs (Suc n) = rests xs n" for n
  proof (cases "Suc n < length xs")
    case False
    then have "n < length xs \<Longrightarrow> n = length xs - 1" by simp
    then show ?thesis using assms(2) False by (cases "n < length xs") (simp_all add: rests_def last_conv_nth)
  qed (use successively_nth [OF assms(1)] in \<open>simp add: rests_def\<close>)
  then show ?thesis using assms(2,3) by (simp add: life_run_def rests_def hd_conv_nth)
qed

lemma successively_reach: "successively (life_step pool) (x # xs) \<Longrightarrow> (life_step pool)\<^sup>*\<^sup>* x (last (x # xs))"
proof (induction xs arbitrary: x)
  case (Cons y xs)
  then have "(life_step pool)\<^sup>*\<^sup>* y (last (y # xs))" "life_step pool x y" by simp_all
  then show ?case by (metis converse_rtranclp_into_rtranclp last_ConsR list.distinct(1))
qed simp

lemma stopped_life_reach: "life_reach (Some 1) 1 stopped_life"
proof -
  have "successively (life_step (Some 1)) stopping" using stopping_succ by (simp add: successively_append_iff)
  then show ?thesis using successively_reach [of "Some 1" "life_start 1" "tl stopping"] by (simp add: stopping_def)
qed

lemma stopped_life_return: "life_step (Some 1) stopped_life (stopped_life\<lparr>lf_stops := [Stop_Returned]\<rparr>)"
  by (rule stop_returnI [where t = 0]) (simp_all add: stopped_life_def life_at_def)

theorem checker_stop_quiesces_witness:
  "\<not> (\<exists>p. Running p \<in> set (lf_gor (stopped_life\<lparr>lf_stops := [Stop_Returned]\<rparr>)))"
  using checker_stop_quiesces [OF stopped_life_reach stopped_life_return, of 0 "stopped_life\<lparr>lf_stops := [Stop_Returned]\<rparr>"]
  by (simp add: stopped_life_def life_at_def)

lemma stopping_fair: "life_fair (Some 1) (rests (stopping @ stopping_end))"
proof -
  have "\<not> life_duty (Some 1) (life_at Start_Over True True [Gone, Gone] 2 0 0 Stop_Returned) s'" for s'
    by (auto elim!: life_dutyE simp: life_at_def less_Suc_eq)
  then have "\<nexists>s'. life_duty (Some 1) (rests (stopping @ stopping_end) j) s'" if "16 \<le> j" for j
    using that by (simp add: rests_def stopping_def stopping_end_def)
  then show ?thesis unfolding life_fair_def by (metis max.cobounded1 max.cobounded2 order_trans)
qed

lemma stopping_probes_end: "probes_end (rests (stopping @ stopping_end))"
proof -
  have "lf_gor (rests (stopping @ stopping_end) (n + 16)) ! i \<noteq> Running Probing" if "i < length (lf_gor (rests (stopping @ stopping_end) n))" for n i
  proof -
    have "length (lf_gor s) \<le> 2" if "s \<in> set (stopping @ stopping_end)" for s
      using that by (auto simp: stopping_def stopping_end_def stopped_life_def life_at_def life_start_def)
    moreover have "rests (stopping @ stopping_end) n \<in> set (stopping @ stopping_end)"
      unfolding rests_def by (metis append_is_Nil_conv last_in_set list.distinct(1) nth_mem stopping_def)
    ultimately have "i < 2" using that by fastforce
    then show ?thesis by (auto simp: rests_def stopping_def stopping_end_def life_at_def less_2_cases_iff)
  qed
  then show ?thesis unfolding probes_end_def by (metis le_add1)
qed


text \<open>
  C40: The counter \<open>live\<close> is not zero when \<open>Stop\<close> returns, although it is there to show that \<open>Stop\<close> leaves nothing
  behind: \<open>spawn\<close> defers its decrement before \<open>wg.Done\<close>, so that it runs after it, and a call of \<open>Stop\<close> can return
  in between. The goroutines are past their function by then.
\<close>

theorem live_outlasts_stop:
  "\<exists>s. life_reach (Some 1) 1 s \<and> lf_stops s = [Stop_Returned] \<and> lf_live s = 2"
  using rtranclp.rtrancl_into_rtrancl [OF stopped_life_reach stopped_life_return]
  by (intro exI) (auto simp: stopped_life_def life_at_def)

end
