(* ===== verification/Middleware.thy ===== *)
theory Middleware
  imports Grpc Ratelimit Circuit_Episodes Circuit_Registry Config Metrics
begin

text \<open>
  \<^verbatim>\<open>internal/middleware\<close>: the stream interceptors in front of the proxy handler and the per-request
  state they share. A handler is a function of the stream and of a world, which returns a world
  and an outcome: an error (or nil), or a panic that unwinds. The world holds everything the
  interceptors mutate and a component \<open>mw_rest\<close> for the handler's own state; handlers are arbitrary, so
  what other requests do meanwhile can be part of what a handler does. The gRPC and limiter
  libraries, the clock and the sources of randomness are the fields of \<open>mw_lib\<close>.
\<close>

subsection \<open>Addresses and contexts\<close>

datatype net_addr =
    TCPAddr "string option" string \<comment> \<open>the printed IP unless it is nil, and the printed address\<close>
  | UDPAddr "string option" string
  | OtherAddr string

fun Addr_String :: "net_addr \<Rightarrow> string" where
  "Addr_String (TCPAddr _ s) = s"
| "Addr_String (UDPAddr _ s) = s"
| "Addr_String (OtherAddr s) = s"

record context_data =
  cx_values :: "string \<Rightarrow> string list" \<comment> \<open>\<open>metadata.ValueFromIncomingContext\<close>\<close>
  cx_peer :: "net_addr option" \<comment> \<open>the address of the peer, if there is one\<close>
  cx_info :: "nat option" \<comment> \<open>the pointer to the \<open>RequestInfo\<close>\<close>

text \<open>A \<open>context.Context\<close> may be nil.\<close>

type_synonym go_context = "context_data option"

definition RequestIDHeader :: string where "RequestIDHeader = ''x-request-id''"
definition ClientIDHeader :: string where "ClientIDHeader = ''x-client-id''"
definition unknownMethod :: string where "unknownMethod = ''unknown''"

definition mdValue :: "go_context \<Rightarrow> string \<Rightarrow> string" where
  "mdValue ctx key =
     (case ctx of None \<Rightarrow> []
      | Some c \<Rightarrow> (case filter (\<lambda>v. v \<noteq> []) (cx_values c key) of [] \<Rightarrow> [] | v # _ \<Rightarrow> v))"

definition methodOf :: "string option \<Rightarrow> string" where
  "methodOf info = (case info of None \<Rightarrow> unknownMethod | Some m \<Rightarrow> if m = [] then unknownMethod else m)"

definition peerAddr :: "go_context \<Rightarrow> net_addr option" where
  "peerAddr ctx = (case ctx of None \<Rightarrow> None | Some c \<Rightarrow> cx_peer c)"

text \<open>\<open>net.SplitHostPort\<close>: the host, or \<open>None\<close> for an error.\<close>

fun first_index :: "char \<Rightarrow> string \<Rightarrow> nat option" where
  "first_index c [] = None"
| "first_index c (x # xs) = (if x = c then Some 0 else map_option Suc (first_index c xs))"

definition last_index :: "char \<Rightarrow> string \<Rightarrow> nat option" where
  "last_index c s = map_option (\<lambda>i. length s - 1 - i) (first_index c (rev s))"

definition SplitHostPort :: "string \<Rightarrow> string option" where
  "SplitHostPort s =
     (case last_index CHR '':'' s of
        None \<Rightarrow> None
      | Some i \<Rightarrow>
          (if hd s = CHR ''[''
           then case first_index CHR '']'' s of
                  None \<Rightarrow> None
                | Some e \<Rightarrow>
                    (if e + 1 = length s \<or> e + 1 \<noteq> i then None
                     else if CHR ''['' \<in> set (drop 1 s) \<or> CHR '']'' \<in> set (drop (e + 1) s) then None
                     else Some (drop 1 (take e s)))
           else if CHR '':'' \<in> set (take i s) then None
           else if CHR ''['' \<in> set s \<or> CHR '']'' \<in> set s then None
           else Some (take i s)))"

definition PeerIP :: "go_context \<Rightarrow> string" where
  "PeerIP ctx =
     (case peerAddr ctx of
        None \<Rightarrow> []
      | Some (TCPAddr ip _) \<Rightarrow> (case ip of None \<Rightarrow> [] | Some s \<Rightarrow> s)
      | Some (UDPAddr ip _) \<Rightarrow> (case ip of None \<Rightarrow> [] | Some s \<Rightarrow> s)
      | Some (OtherAddr s) \<Rightarrow> (case SplitHostPort s of Some host \<Rightarrow> host | None \<Rightarrow> s))"

definition PeerAddr :: "go_context \<Rightarrow> string" where
  "PeerAddr ctx = (case peerAddr ctx of Some a \<Rightarrow> Addr_String a | None \<Rightarrow> [])"

definition ClientKey :: "go_context \<Rightarrow> string" where
  "ClientKey ctx =
     (if mdValue ctx ClientIDHeader \<noteq> [] then mdValue ctx ClientIDHeader
      else if PeerIP ctx \<noteq> [] then PeerIP ctx
      else unknownMethod)"

definition HashKey :: "go_context \<Rightarrow> string \<Rightarrow> string" where
  "HashKey ctx hashHeader =
     (if hashHeader \<noteq> [] \<and> mdValue ctx hashHeader \<noteq> [] then mdValue ctx hashHeader else PeerIP ctx)"

definition NewContext :: "go_context \<Rightarrow> nat \<Rightarrow> go_context" where
  "NewContext ctx info = (case ctx of None \<Rightarrow> None | Some c \<Rightarrow> Some (c\<lparr>cx_info := Some info\<rparr>))"

definition FromContext :: "go_context \<Rightarrow> nat option" where
  "FromContext ctx = (case ctx of None \<Rightarrow> None | Some c \<Rightarrow> cx_info c)"

subsection \<open>Streams\<close>

datatype stream = Raw go_context | WrappedStream stream go_context

fun Stream_Context :: "stream \<Rightarrow> go_context" where
  "Stream_Context (Raw ctx) = ctx"
| "Stream_Context (WrappedStream _ ctx) = ctx"

definition WrapServerStream :: "stream \<Rightarrow> go_context \<Rightarrow> stream" where
  "WrapServerStream ss ctx =
     (if ctx = None then ss
      else case ss of WrappedStream inner _ \<Rightarrow> WrappedStream inner ctx | Raw _ \<Rightarrow> WrappedStream ss ctx)"

subsection \<open>The state of a request\<close>

record request_info =
  ri_ID :: string
  ri_Method :: string
  ri_StartedAt :: go_time
  ri_HashKey :: string
  ri_backend :: "string option"
  ri_hashKey :: "string option"
  ri_attempts :: int

text \<open>The methods of \<open>*RequestInfo\<close>; \<open>None\<close> is the nil pointer.\<close>

definition SetBackend :: "request_info option \<Rightarrow> string \<Rightarrow> request_info option" where
  "SetBackend r ident = map_option (\<lambda>r. r\<lparr>ri_backend := Some ident\<rparr>) r"

definition Info_Backend :: "request_info option \<Rightarrow> string" where
  "Info_Backend r = (case r of None \<Rightarrow> [] | Some r \<Rightarrow> (case ri_backend r of Some p \<Rightarrow> p | None \<Rightarrow> []))"

definition AddAttempt :: "request_info option \<Rightarrow> request_info option" where
  "AddAttempt r = map_option (\<lambda>r. r\<lparr>ri_attempts := ri_attempts r + 1\<rparr>) r"

definition Attempts :: "request_info option \<Rightarrow> int" where
  "Attempts r = (case r of None \<Rightarrow> 0 | Some r \<Rightarrow> ri_attempts r)"

definition SetHashKey :: "request_info option \<Rightarrow> string \<Rightarrow> request_info option" where
  "SetHashKey r k = map_option (\<lambda>r. r\<lparr>ri_hashKey := Some k\<rparr>) r"

definition ResolvedHashKey :: "request_info option \<Rightarrow> string" where
  "ResolvedHashKey r =
     (case r of None \<Rightarrow> [] | Some r \<Rightarrow> (case ri_hashKey r of Some p \<Rightarrow> p | None \<Rightarrow> ri_HashKey r))"

definition Info_id :: "request_info option \<Rightarrow> string" where
  "Info_id r = (case r of None \<Rightarrow> [] | Some r \<Rightarrow> ri_ID r)"

subsection \<open>Worlds, handlers, interceptors\<close>

datatype outcome = Returned "go_error option" | Panicked string

record boundedLabels =
  bl_max :: int
  bl_n :: int
  bl_seen :: "string set"

record rpc_record =
  lr_request_id :: string
  lr_method :: string
  lr_code :: string
  lr_duration_ms :: f64
  lr_backend :: string
  lr_attempts :: int
  lr_hash_key :: string
  lr_peer :: string
  lr_error :: "string option"

datatype log_record =
    Log_Panic string "string option" string
  | Log_RPC slog_level rpc_record

record 'l mw_lib =
  lib_clock :: "nat \<Rightarrow> go_time"
  lib_draw :: "nat \<Rightarrow> f64"
  lib_entropy :: "nat \<Rightarrow> 8 word list option" \<comment> \<open>\<open>crypto/rand.Read\<close> of eight bytes\<close>
  lib_code :: "go_error option \<Rightarrow> code" \<comment> \<open>\<open>status.Code\<close>\<close>
  lib_name :: "code \<Rightarrow> string" \<comment> \<open>\<open>codes.Code.String\<close>\<close>
  lib_error :: "go_error \<Rightarrow> string" \<comment> \<open>\<open>error.Error\<close>\<close>
  lib_enabled :: "slog_level \<Rightarrow> bool" \<comment> \<open>\<open>slog.Logger.Enabled\<close>\<close>
  lib_hash :: "string \<Rightarrow> 64 word"
  lib_newl :: "rate_limit \<Rightarrow> int \<Rightarrow> 'l"
  lib_allow :: "'l \<Rightarrow> go_time \<Rightarrow> 'l \<times> bool"

record ('l, 'x) mw =
  mw_tick :: nat \<comment> \<open>readings of the clock so far\<close>
  mw_draws :: nat \<comment> \<open>draws of the random generators so far\<close>
  mw_fallback :: "64 word"
  mw_calls :: "metric_call list"
  mw_log :: "log_record list"
  mw_headers :: "(string \<times> string) list"
  mw_infos :: "request_info list" \<comment> \<open>the \<open>RequestInfo\<close> objects, by address\<close>
  mw_labels :: boundedLabels
  mw_lim :: "'l limiter"
  mw_reg :: registry
  mw_rest :: 'x

type_synonym 'w handler = "stream \<Rightarrow> 'w \<Rightarrow> 'w \<times> outcome"
type_synonym 'w interceptor = "stream \<Rightarrow> string option \<Rightarrow> 'w handler \<Rightarrow> 'w \<Rightarrow> 'w \<times> outcome"

definition tick :: "'l mw_lib \<Rightarrow> ('l, 'x) mw \<Rightarrow> ('l, 'x) mw \<times> go_time" where
  "tick L w = (w\<lparr>mw_tick := mw_tick w + 1\<rparr>, lib_clock L (mw_tick w))"

definition emit :: "metric_call list \<Rightarrow> ('l, 'x) mw \<Rightarrow> ('l, 'x) mw" where
  "emit cs w = w\<lparr>mw_calls := mw_calls w @ cs\<rparr>"

definition info_at :: "('l, 'x) mw \<Rightarrow> nat option \<Rightarrow> request_info option" where
  "info_at w p = (case p of None \<Rightarrow> None | Some i \<Rightarrow> Some (mw_infos w ! i))"

subsection \<open>Chain\<close>

definition passThrough :: "'w interceptor" where
  "passThrough ss info handler w = handler ss w"

definition link :: "'w interceptor \<Rightarrow> 'w interceptor \<Rightarrow> 'w interceptor" where
  "link outer inner ss info handler w = outer ss info (\<lambda>ss w. inner ss info handler w) w"

fun chain_loop :: "'w interceptor list \<Rightarrow> nat \<Rightarrow> 'w interceptor \<Rightarrow> 'w interceptor" where
  "chain_loop live 0 chained = chained"
| "chain_loop live (Suc i) chained = chain_loop live i (link (live ! i) chained)"

definition Chain :: "'w interceptor option list \<Rightarrow> 'w interceptor" where
  "Chain is =
     (let live = List.map_filter id is
      in if length live = 0 then passThrough
         else if length live = 1 then live ! 0
         else chain_loop live (length live - 1) (live ! (length live - 1)))"

subsection \<open>Recovery\<close>

definition requestIDOf :: "('l, 'x) mw \<Rightarrow> go_context \<Rightarrow> string" where
  "requestIDOf w ctx = Info_id (info_at w (FromContext ctx))"

definition Recovery :: "'l mw_lib \<Rightarrow> bool \<Rightarrow> ('l, 'x) mw interceptor" where
  "Recovery L m ss info handler w =
     (case handler ss w of
        (w, Returned err) \<Rightarrow> (w, Returned err)
      | (w, Panicked r) \<Rightarrow>
          (let method = methodOf info;
               w = emit (if m then [IncPanic method] else []) w;
               rid = requestIDOf w (Stream_Context ss);
               w = w\<lparr>mw_log := mw_log w @ [Log_Panic method (if rid \<noteq> [] then Some rid else None) r]\<rparr>
           in (w, Returned (Some (Status_Error Internal ''internal error'')))))"

subsection \<open>Context\<close>

definition maxRequestIDLen :: nat where "maxRequestIDLen = 128"

definition validRequestID :: "string \<Rightarrow> bool" where
  "validRequestID v =
     (v \<noteq> [] \<and> length v \<le> maxRequestIDLen \<and> list_all (\<lambda>c. \<not> (of_char c < (0x20 :: nat) \<or> of_char c > (0x7e :: nat))) v)"

definition hex_digit :: "8 word \<Rightarrow> char" where
  "hex_digit d = ''0123456789abcdef'' ! unat d"

text \<open>\<open>hex.EncodeToString\<close> and \<open>binary.BigEndian.PutUint64\<close>.\<close>

definition EncodeToString :: "8 word list \<Rightarrow> string" where
  "EncodeToString bs = concat (map (\<lambda>b. [hex_digit (drop_bit 4 b), hex_digit (b mod 16)]) bs)"

definition PutUint64 :: "64 word \<Rightarrow> 8 word list" where
  "PutUint64 v = map (\<lambda>i. ucast (drop_bit (56 - 8 * i) v)) [0..<8]"

definition newRequestID :: "'l mw_lib \<Rightarrow> ('l, 'x) mw \<Rightarrow> ('l, 'x) mw \<times> string" where
  "newRequestID L w =
     (let r = lib_entropy L (mw_draws w); w = w\<lparr>mw_draws := mw_draws w + 1\<rparr>
      in case r of
           Some b \<Rightarrow> (w, EncodeToString b)
         | None \<Rightarrow>
             (let n = mw_fallback w + 1; (w, now) = tick L (w\<lparr>mw_fallback := n\<rparr>)
              in (w, EncodeToString (PutUint64 (xor (word_of_int now) (n * 0x9e3779b97f4a7c15))))))"

definition requestID :: "'l mw_lib \<Rightarrow> go_context \<Rightarrow> ('l, 'x) mw \<Rightarrow> ('l, 'x) mw \<times> string" where
  "requestID L ctx w =
     (let v = mdValue ctx RequestIDHeader in if validRequestID v then (w, v) else newRequestID L w)"

definition Context :: "'l mw_lib \<Rightarrow> string \<Rightarrow> ('l, 'x) mw interceptor" where
  "Context L hashHeader ss info handler w =
     (let ctx = Stream_Context ss;
          (w, rid) = requestID L ctx w;
          w = w\<lparr>mw_headers := mw_headers w @ [(RequestIDHeader, rid)]\<rparr>;
          (w, now) = tick L w;
          ri = \<lparr>ri_ID = rid, ri_Method = methodOf info, ri_StartedAt = now, ri_HashKey = HashKey ctx hashHeader,
                ri_backend = None, ri_hashKey = None, ri_attempts = 0\<rparr>;
          p = length (mw_infos w);
          w = w\<lparr>mw_infos := mw_infos w @ [ri]\<rparr>
      in handler (WrapServerStream ss (NewContext ctx p)) w)"

subsection \<open>Logging\<close>

definition levelFor :: "code \<Rightarrow> slog_level" where
  "levelFor c =
     (if c \<in> {OK, Canceled} then LevelInfo
      else if c \<in> {InvalidArgument, NotFound, AlreadyExists, PermissionDenied, Unauthenticated, FailedPrecondition, OutOfRange}
      then LevelWarn else LevelError)"

definition millis :: "duration \<Rightarrow> f64" where
  "millis d = f64_div (f64_roundAway (f64_div (f64_of_int d) (Fin 10000))) (Fin 100)"

definition Logging :: "'l mw_lib \<Rightarrow> cfg_logging \<Rightarrow> ('l, 'x) mw interceptor" where
  "Logging L cfg ss info handler w =
     (let rate = lg_SampleRate cfg; logAll = f64_le (Fin 1) rate; dropAll = f64_le rate (Fin 0);
          method = methodOf info;
          (w, start) = tick L w
      in case handler ss w of
           (w, Panicked r) \<Rightarrow> (w, Panicked r)
         | (w, Returned err) \<Rightarrow>
             (let code = lib_code L err;
                  (w, skip) =
                    (if code = OK
                     then if logAll then (w, False)
                          else if dropAll then (w, True)
                          else (w\<lparr>mw_draws := mw_draws w + 1\<rparr>, f64_le rate (lib_draw L (mw_draws w)))
                     else (w, False));
                  level = levelFor code
              in if skip \<or> \<not> lib_enabled L level then (w, Returned err)
                 else let ctx = Stream_Context ss;
                          ri = info_at w (FromContext ctx);
                          start = (case ri of Some r \<Rightarrow> if ri_StartedAt r \<noteq> time_zero then ri_StartedAt r else start | None \<Rightarrow> start);
                          method = (case ri of Some r \<Rightarrow> if ri_Method r \<noteq> [] then ri_Method r else method | None \<Rightarrow> method);
                          (w, now) = tick L w;
                          rec = \<lparr>lr_request_id = Info_id ri, lr_method = method, lr_code = lib_name L code,
                                 lr_duration_ms = millis (time_sub now start), lr_backend = Info_Backend ri,
                                 lr_attempts = Attempts ri, lr_hash_key = ResolvedHashKey ri, lr_peer = PeerAddr ctx,
                                 lr_error = map_option (lib_error L) err\<rparr>
                      in (w\<lparr>mw_log := mw_log w @ [Log_RPC level rec]\<rparr>, Returned err)))"

subsection \<open>Metrics\<close>

definition maxMethodLabels :: int where "maxMethodLabels = 1024"
definition otherMethod :: string where "otherMethod = ''other''"

definition newBoundedLabels :: "int \<Rightarrow> boundedLabels" where
  "newBoundedLabels mx = \<lparr>bl_max = (if mx < 1 then maxMethodLabels else mx), bl_n = 0, bl_seen = {}\<rparr>"

text \<open>
  What \<open>label\<close> does when no other goroutine interferes. Its four atomic operations as single steps, and the cap
  under concurrent requests, are in \<^verbatim>\<open>Label_Races\<close>.
\<close>

definition label :: "boundedLabels \<Rightarrow> string \<Rightarrow> boundedLabels \<times> string" where
  "label b name =
     (if name \<in> bl_seen b then (b, name)
      else if bl_n b \<ge> bl_max b then (b, otherMethod)
      else (b\<lparr>bl_seen := insert name (bl_seen b), bl_n := bl_n b + 1\<rparr>, name))"

definition Metrics_interceptor :: "'l mw_lib \<Rightarrow> bool \<Rightarrow> ('l, 'x) mw interceptor" where
  "Metrics_interceptor L m =
     (if \<not> m then passThrough
      else (\<lambda>ss info handler w.
        let (labels, method) = label (mw_labels w) (methodOf info);
            (w, start) = tick L (w\<lparr>mw_labels := labels\<rparr>);
            w = emit [IncInflight method] w
        in case handler ss w of
             (w, Panicked r) \<Rightarrow> (emit [DecInflight method] w, Panicked r)
           | (w, Returned err) \<Rightarrow>
               (let (w, now) = tick L w
                in (emit [ObserveRequest method (lib_name L (lib_code L err)) (time_sub now start), DecInflight method] w,
                    Returned err))))"

subsection \<open>RateLimit\<close>

definition RateLimit :: "'l mw_lib \<Rightarrow> bool \<Rightarrow> bool \<Rightarrow> ('l, 'x) mw interceptor" where
  "RateLimit L present m =
     (if \<not> present then passThrough
      else (\<lambda>ss info handler w.
        let key = (if PerClient (mw_lim w) then ClientKey (Stream_Context ss) else []);
            (w, t1) = tick L w; (w, t2) = tick L w; (w, t3) = tick L w;
            (lim, ok) = Limiter_Allow (lib_newl L) (lib_allow L) (lib_hash L) (mw_lim w) key (t1, t2, t3);
            w = w\<lparr>mw_lim := lim\<rparr>
        in if \<not> ok
           then (emit (if m then [IncRateLimited (methodOf info)] else []) w,
                 Returned (Some (Status_Error ResourceExhausted ''rate limit exceeded'')))
           else handler ss w))"

subsection \<open>CircuitBreak\<close>

definition RejectReasonCircuitOpen :: string where "RejectReasonCircuitOpen = ''circuit_open''"

definition IsFailure :: "(go_error option \<Rightarrow> code) \<Rightarrow> go_error option \<Rightarrow> bool" where
  "IsFailure code_of err =
     (err \<noteq> None \<and> code_of err \<in> {Unavailable, DeadlineExceeded, Internal, ResourceExhausted, Unknown})"

text \<open>
  The callback of the registry sets the state gauge of a breaker. A reference that the registry
  does not know cannot occur after \<open>Get\<close>.
\<close>

definition gauge_calls :: "fired \<Rightarrow> metric_call list" where
  "gauge_calls evs = map (\<lambda>(name, _, to). SetCircuitState name (State_int to)) evs"

definition resolve_probe :: "bref \<Rightarrow> probe \<Rightarrow> bool \<Rightarrow> go_time \<Rightarrow> ('l, 'x) mw \<Rightarrow> ('l, 'x) mw" where
  "resolve_probe ref probe failed now w =
     (case breaker_at (mw_reg w) ref of
        None \<Rightarrow> w
      | Some b \<Rightarrow>
          (let (b, evs) = (if failed then Probe_Failure b probe now else Probe_Success b probe now)
           in emit (gauge_calls evs) (w\<lparr>mw_reg := breaker_put (mw_reg w) ref b\<rparr>)))"

definition CircuitBreak :: "'l mw_lib \<Rightarrow> bool \<Rightarrow> bool \<Rightarrow> ('l, 'x) mw interceptor" where
  "CircuitBreak L present m =
     (if \<not> present then passThrough
      else (\<lambda>ss info handler w.
        let method = methodOf info;
            (w, t0) = tick L w;
            (reg, ref) = Registry_Get (mw_reg w) method t0;
            w = w\<lparr>mw_reg := reg\<rparr>;
            (w, t1) = tick L w
        in case breaker_at reg ref of
             None \<Rightarrow> (w, Panicked ''nil breaker'')
           | Some b \<Rightarrow>
               (let (b, evs, probe, admitted) = Admit b t1;
                    w = emit (gauge_calls evs) (w\<lparr>mw_reg := breaker_put reg ref b\<rparr>)
                in if \<not> admitted
                   then (emit (if m then [IncRejected method RejectReasonCircuitOpen] else []) w,
                         Returned (Some (Status_Error Unavailable ''circuit open'')))
                   else case handler ss w of
                          (w, Panicked r) \<Rightarrow> (let (w, t2) = tick L w in (resolve_probe ref probe True t2 w, Panicked r))
                        | (w, Returned err) \<Rightarrow>
                            (let (w, t2) = tick L w
                             in (resolve_probe ref probe (IsFailure (lib_code L) err) t2 w, Returned err)))))"

end
