(* ===== verification/Pipeline.thy ===== *)
theory Pipeline
  imports Middleware Capped Pool
begin

text \<open>
  The interceptors of \<^verbatim>\<open>internal/middleware\<close> composed as \<^verbatim>\<open>cmd/lb\<close> composes them, and the properties of
  single interceptors and of the whole pipeline around an arbitrary handler.
\<close>

subsection \<open>Chain\<close>

lemma chain_loop_foldr: "n \<le> length live \<Longrightarrow> chain_loop live n c = foldr link (take n live) c"
  by (induction n arbitrary: c) (simp_all add: take_Suc_conv_app_nth)

lemma foldr_link_run:
  "foldr link xs c ss info h w = foldr (\<lambda>i h ss w. i ss info h w) xs (\<lambda>ss w. c ss info h w) ss w"
  by (induction xs arbitrary: ss w) (simp_all add: link_def)

lemma Chain_run:
  "Chain is ss info h w = foldr (\<lambda>i h ss w. i ss info h w) (List.map_filter id is) h ss w"
proof -
  let ?l = "List.map_filter id is"
  consider "?l = []" | "length ?l = 1" | "1 < length ?l" by (cases ?l) (auto simp: less_Suc_eq_0_disj)
  then show ?thesis
  proof cases
    case 2
    then obtain i where "?l = [i]" by (auto simp: length_Suc_conv)
    then show ?thesis by (simp add: Chain_def Let_def)
  next
    case 3
    let ?f = "\<lambda>i h ss w. i ss info h w"
    have "?l ! (length ?l - 1) = last ?l" using 3 by (intro last_conv_nth [symmetric]) auto
    then have "Chain is = foldr link (butlast ?l) (last ?l)"
      using 3 chain_loop_foldr [of "length ?l - 1" ?l] by (auto simp: Chain_def Let_def butlast_conv_take)
    then have "Chain is ss info h w = foldr ?f (butlast ?l) (?f (last ?l) h) ss w"
      by (simp add: foldr_link_run)
    also have "\<dots> = foldr ?f (butlast ?l @ [last ?l]) h ss w" by simp
    also have "butlast ?l @ [last ?l] = ?l" using 3 by (intro append_butlast_last_id) auto
    finally show ?thesis .
  qed (simp add: Chain_def passThrough_def)
qed

subsection \<open>The pipeline of the load balancer\<close>

definition lb_chain :: "'l mw_lib \<Rightarrow> config \<Rightarrow> ('l, 'x) mw interceptor" where
  "lb_chain L cfg =
     Chain [Some (Recovery L True), Some (Context L (rt_HashHeader (c_Routing cfg))), Some (Logging L (c_Logging cfg)),
            Some (Metrics_interceptor L True), Some (RateLimit L True True),
            Some (CircuitBreak L (cc_Enabled (c_CircuitBreaker cfg)) True)]"

lemma lb_chain_run:
  "lb_chain L cfg ss info h w =
     Recovery L True ss info (\<lambda>ss. Context L (rt_HashHeader (c_Routing cfg)) ss info
       (\<lambda>ss. Logging L (c_Logging cfg) ss info (\<lambda>ss. Metrics_interceptor L True ss info
         (\<lambda>ss. RateLimit L True True ss info
           (\<lambda>ss. CircuitBreak L (cc_Enabled (c_CircuitBreaker cfg)) True ss info h))))) w"
  unfolding lb_chain_def Chain_run by (simp add: map_filter_def)

lemma Recovery_returns: "\<exists>e. snd (Recovery L m ss info h w) = Returned e"
  by (simp add: Recovery_def Let_def split: prod.split outcome.split)

subsection \<open>What a handler may do to the metrics\<close>

text \<open>The net change of the in-flight gauge of a method over a list of calls.\<close>

fun inflight_of :: "string \<Rightarrow> metric_call \<Rightarrow> int" where
  "inflight_of x (IncInflight y) = of_bool (y = x)"
| "inflight_of x (DecInflight y) = - of_bool (y = x)"
| "inflight_of x _ = 0"

definition inflight :: "string \<Rightarrow> ('l, 'x) mw \<Rightarrow> int" where
  "inflight x w = (\<Sum>c\<leftarrow>mw_calls w. inflight_of x c)"

definition balanced :: "('l, 'x) mw handler \<Rightarrow> bool" where
  "balanced h = (\<forall>x ss w. inflight x (fst (h ss w)) = inflight x w)"

lemma inflight_update [simp]:
  "inflight x (w\<lparr>mw_tick := a\<rparr>) = inflight x w" "inflight x (w\<lparr>mw_draws := a\<rparr>) = inflight x w"
  "inflight x (w\<lparr>mw_fallback := f\<rparr>) = inflight x w" "inflight x (w\<lparr>mw_log := l\<rparr>) = inflight x w"
  "inflight x (w\<lparr>mw_headers := hs\<rparr>) = inflight x w" "inflight x (w\<lparr>mw_infos := is\<rparr>) = inflight x w"
  "inflight x (w\<lparr>mw_labels := bl\<rparr>) = inflight x w" "inflight x (w\<lparr>mw_lim := lm\<rparr>) = inflight x w"
  "inflight x (w\<lparr>mw_reg := r\<rparr>) = inflight x w"
  by (simp_all add: inflight_def)

lemma inflight_emit [simp]: "inflight x (emit cs w) = inflight x w + (\<Sum>c\<leftarrow>cs. inflight_of x c)"
  by (simp add: inflight_def emit_def)

lemma inflight_gauge [simp]: "(\<Sum>c\<leftarrow>gauge_calls evs. inflight_of x c) = 0"
  by (induction evs) (auto simp: gauge_calls_def)

lemma inflight_resolve [simp]: "inflight x (resolve_probe ref p f t w) = inflight x w"
  by (auto simp: resolve_probe_def split_beta Let_def split: option.split)

lemma balancedI: "(\<And>x ss w. inflight x (fst (g ss w)) = inflight x w) \<Longrightarrow> balanced g"
  by (simp add: balanced_def)

lemma balancedD: "balanced h \<Longrightarrow> inflight x (fst (h ss w)) = inflight x w"
  by (simp add: balanced_def)

lemma Recovery_balanced: "balanced h \<Longrightarrow> balanced (\<lambda>ss. Recovery L m ss info h)"
  by (rule balancedI) (simp add: Recovery_def Let_def split_beta balancedD split: outcome.split)

lemma newRequestID_calls [simp]: "inflight x (fst (newRequestID L w)) = inflight x w"
  by (auto simp: newRequestID_def tick_def Let_def split: option.split)

lemma requestID_calls [simp]: "inflight x (fst (requestID L ctx w)) = inflight x w"
  by (simp add: requestID_def Let_def)

lemma Context_balanced: "balanced h \<Longrightarrow> balanced (\<lambda>ss. Context L hh ss info h)"
  by (rule balancedI) (simp add: Context_def tick_def Let_def split_beta balancedD)

lemma Logging_balanced: "balanced h \<Longrightarrow> balanced (\<lambda>ss. Logging L cfg ss info h)"
  by (rule balancedI) (simp add: Logging_def tick_def Let_def split_beta balancedD split: outcome.split)

lemma Metrics_balanced: "balanced h \<Longrightarrow> balanced (\<lambda>ss. Metrics_interceptor L m ss info h)"
  by (rule balancedI)
    (simp add: Metrics_interceptor_def passThrough_def tick_def Let_def split_beta balancedD split: outcome.split)

lemma RateLimit_balanced: "balanced h \<Longrightarrow> balanced (\<lambda>ss. RateLimit L p m ss info h)"
  by (rule balancedI) (simp add: RateLimit_def passThrough_def tick_def Let_def split_beta balancedD)

lemma CircuitBreak_balanced: "balanced h \<Longrightarrow> balanced (\<lambda>ss. CircuitBreak L p m ss info h)"
  by (rule balancedI)
    (simp add: CircuitBreak_def passThrough_def tick_def Let_def split_beta balancedD split: outcome.split option.split)

lemmas interceptors_balanced =
  Recovery_balanced Context_balanced Logging_balanced Metrics_balanced RateLimit_balanced CircuitBreak_balanced

subsection \<open>The circuit breaker around a handler\<close>

definition held_probes :: "registry \<Rightarrow> bref \<Rightarrow> int" where
  "held_probes r ref = (case breaker_at r ref of None \<Rightarrow> 0 | Some b \<Rightarrow> br_probes b)"

lemma held_put:
  "breaker_at r ref = Some b \<Longrightarrow> held_probes (breaker_put r ref b') ref' = (if ref' = ref then br_probes b' else held_probes r ref')"
  by (simp add: held_probes_def breaker_at_put)

lemma Registry_Get_known:
  assumes "registry_inv r" "Registry_Get r name t = (r', ref)"
  obtains b where "breaker_at r' ref = Some b" "registry_inv r'" "\<forall>x. held_probes r' x \<le> held_probes r x"
proof (cases "rg_breakers r name = None \<and> rg_n r < s_MaxEntries (rg_set r)")
  case True
  then have r': "r' = r\<lparr>rg_breakers := (rg_breakers r)(name \<mapsto> NewBreaker name (rg_set r) t), rg_n := rg_n r + 1\<rparr>"
    and ref: "ref = Named name" using assms(2) by (auto simp: Registry_Get_def)
  have "br_probes (NewBreaker name (rg_set r) t) = 0" by (simp add: NewBreaker_def Let_def)
  then have "held_probes r' x \<le> held_probes r x" for x
    using True by (cases x) (auto simp: held_probes_def r')
  moreover have "registry_inv r'" using registry_insert_inv [OF assms(1), of name t] by (simp add: r')
  ultimately show ?thesis using that by (simp add: r' ref)
next
  case False
  then have "r' = r" "breaker_at r ref \<noteq> None"
    using assms(2) by (auto simp: Registry_Get_def split: option.splits if_splits)
  then show ?thesis using that assms(1) by auto
qed

lemma resolve_probe_reg:
  assumes "breaker_at (mw_reg w) ref = Some b"
  shows "mw_reg (resolve_probe ref p f t w) =
    breaker_put (mw_reg w) ref (breaker_resolve b p (if f then Resolved_Failure else Resolved_Success) t)"
  using assms by (simp add: resolve_probe_def split_beta Let_def emit_def)

lemma Admit_refused: "Admit b t = (b', ev, p, ok) \<Longrightarrow> \<not> ok \<Longrightarrow> \<not> pr_probe p"
  by (auto simp: Admit_def Admit_locked_def Let_def split_beta split: if_splits bstate.splits)

lemma CircuitBreak_no_leak:
  assumes inv: "registry_inv (mw_reg w)" and keep: "\<forall>ss w. mw_reg (fst (h ss w)) = mw_reg w"
  shows "registry_inv (mw_reg (fst (CircuitBreak L p m ss info h w))) \<and>
    held_probes (mw_reg (fst (CircuitBreak L p m ss info h w))) ref' \<le> held_probes (mw_reg w) ref'"
proof (cases p)
  case True
  let ?t = "\<lambda>i. lib_clock L (mw_tick w + i)"
  obtain reg ref where g: "Registry_Get (mw_reg w) (methodOf info) (lib_clock L (mw_tick w)) = (reg, ref)"
    by (cases "Registry_Get (mw_reg w) (methodOf info) (lib_clock L (mw_tick w))")
  obtain b where b: "breaker_at reg ref = Some b" "registry_inv reg" "\<forall>x. held_probes reg x \<le> held_probes (mw_reg w) x"
    using Registry_Get_known [OF inv g] .
  obtain b' evs pr ok where a: "Admit b (lib_clock L (mw_tick w + 1)) = (b', evs, pr, ok)"
    by (cases "Admit b (lib_clock L (mw_tick w + 1))")
  let ?w = "emit (gauge_calls evs) (w\<lparr>mw_tick := mw_tick w + 2, mw_reg := breaker_put reg ref b'\<rparr>)"
  have binv: "breaker_inv b" by (rule breaker_at_inv [OF b(2,1)])
  have b': "breaker_inv b'" "br_name b' = br_name b" using Admit_frame [OF binv] a by (metis fst_conv)+
  have at: "breaker_at (breaker_put reg ref b') ref = Some b'" using b(1) by (simp add: breaker_at_put)
  have inv': "registry_inv (breaker_put reg ref b')" by (rule breaker_put_inv) (use b b' in simp_all)
  have mr: "mw_reg ?w = breaker_put reg ref b'" by (simp add: emit_def)
  have res: "held_probes (breaker_put (breaker_put reg ref b') ref (breaker_resolve b' pr r u)) x \<le> held_probes (mw_reg w) x \<and>
      registry_inv (breaker_put (breaker_put reg ref b') ref (breaker_resolve b' pr r u))" for r u x
  proof -
    have "br_probes (breaker_resolve b' pr r u) \<le> br_probes b"
      using breaker_gate.resolve_returns [OF binv, of "lib_clock L (mw_tick w + 1)" r u] a by (simp add: breaker_admit_def)
    then have "held_probes (breaker_put (breaker_put reg ref b') ref (breaker_resolve b' pr r u)) x \<le> held_probes reg x"
      using b(1) by (auto simp: held_put [OF at] held_put [OF b(1)]) (simp add: held_probes_def)
    moreover have "registry_inv (breaker_put (breaker_put reg ref b') ref (breaker_resolve b' pr r u))"
      by (rule breaker_put_inv [OF inv' at]) (use resolve_frame [OF b'(1)] in simp_all)
    ultimately show ?thesis using b(3) by (meson order_trans)
  qed
  have rej: "held_probes (breaker_put reg ref b') x \<le> held_probes (mw_reg w) x" if "\<not> ok" for x
  proof -
    have "br_probes b' \<le> br_probes b" using Admit_takes_slot [OF binv a] Admit_refused [OF a that] by simp
    then have "held_probes (breaker_put reg ref b') x \<le> held_probes reg x"
      using b(1) by (auto simp: held_put [OF b(1)]) (simp add: held_probes_def)
    then show ?thesis using b(3) by (meson order_trans)
  qed
  show ?thesis
    using True g b(1) a rej inv' res keep mr at
    by (auto simp: CircuitBreak_def tick_def Let_def split_beta emit_def resolve_probe_reg
        simp del: breaker_resolve.simps split: outcome.split)
qed (use inv keep in \<open>simp add: CircuitBreak_def passThrough_def\<close>)

subsection \<open>Bounded method labels\<close>

definition labels_ok :: "boundedLabels \<Rightarrow> bool" where
  "labels_ok b = (finite (bl_seen b) \<and> bl_n b = int (card (bl_seen b)))"

interpretation method_labels: capped_table bl_seen bl_max "\<lambda>b name (_ :: unit). label b name" "\<lambda>name. name" otherMethod labels_ok
  by unfold_locales (auto simp: labels_ok_def label_def)

lemma label_used:
  "labels_ok b \<Longrightarrow> snd (label b name) \<in> insert otherMethod (bl_seen (fst (label b name)))"
  by (simp add: label_def)

text \<open>The method labels of the request metrics in a list of calls.\<close>

fun request_label :: "metric_call \<Rightarrow> string option" where
  "request_label (ObserveRequest m _ _) = Some m"
| "request_label (IncInflight m) = Some m"
| "request_label (DecInflight m) = Some m"
| "request_label _ = None"

definition request_labels :: "('l, 'x) mw \<Rightarrow> string set" where
  "request_labels w = {m. \<exists>c \<in> set (mw_calls w). request_label c = Some m}"

definition labels_bounded :: "('l, 'x) mw \<Rightarrow> bool" where
  "labels_bounded w =
     (labels_ok (mw_labels w) \<and> int (card (bl_seen (mw_labels w))) \<le> bl_max (mw_labels w) \<and>
      request_labels w \<subseteq> insert otherMethod (bl_seen (mw_labels w)))"

text \<open>A handler that leaves the request metrics alone.\<close>

definition quiet :: "('l, 'x) mw handler \<Rightarrow> bool" where
  "quiet h = (\<forall>ss w. request_labels (fst (h ss w)) = request_labels w \<and> mw_labels (fst (h ss w)) = mw_labels w)"

lemma labels_update [simp]:
  "request_labels (w\<lparr>mw_tick := a\<rparr>) = request_labels w" "request_labels (w\<lparr>mw_draws := a\<rparr>) = request_labels w"
  "request_labels (w\<lparr>mw_fallback := f\<rparr>) = request_labels w" "request_labels (w\<lparr>mw_log := l\<rparr>) = request_labels w"
  "request_labels (w\<lparr>mw_headers := hs\<rparr>) = request_labels w" "request_labels (w\<lparr>mw_infos := is\<rparr>) = request_labels w"
  "request_labels (w\<lparr>mw_labels := bl\<rparr>) = request_labels w" "request_labels (w\<lparr>mw_lim := lm\<rparr>) = request_labels w"
  "request_labels (w\<lparr>mw_reg := r\<rparr>) = request_labels w"
  by (simp_all add: request_labels_def)

lemma labels_emit [simp]:
  "request_labels (emit cs w) = request_labels w \<union> {m. \<exists>c \<in> set cs. request_label c = Some m}"
  "mw_labels (emit cs w) = mw_labels w"
  by (auto simp: request_labels_def emit_def)

lemma labels_gauge [simp]: "\<not> (\<exists>c \<in> set (gauge_calls evs). request_label c = Some m)"
  by (auto simp: gauge_calls_def)

lemma labels_resolve [simp]:
  "request_labels (resolve_probe ref p f t w) = request_labels w" "mw_labels (resolve_probe ref p f t w) = mw_labels w"
  by (auto simp: resolve_probe_def split_beta Let_def split: option.split)

lemma RateLimit_quiet: "quiet h \<Longrightarrow> quiet (\<lambda>ss. RateLimit L p m ss info h)"
  by (simp add: quiet_def RateLimit_def passThrough_def tick_def Let_def split_beta)

lemma CircuitBreak_quiet: "quiet h \<Longrightarrow> quiet (\<lambda>ss. CircuitBreak L p m ss info h)"
  by (simp add: quiet_def CircuitBreak_def passThrough_def tick_def Let_def split_beta split: outcome.split option.split)

lemma label_max [simp]: "bl_max (fst (label b name)) = bl_max b"
  by (rule method_labels.cap_lookup)

lemma Metrics_labels:
  assumes q: "quiet h" and b: "labels_bounded w"
  shows "labels_bounded (fst (Metrics_interceptor L True ss info h w)) \<and>
    bl_max (mw_labels (fst (Metrics_interceptor L True ss info h w))) = bl_max (mw_labels w)"
proof -
  let ?b = "mw_labels w" and ?n = "methodOf info"
  have ok: "labels_ok ?b" "int (card (bl_seen ?b)) \<le> bl_max ?b" "request_labels w \<subseteq> insert otherMethod (bl_seen ?b)"
    using b by (simp_all add: labels_bounded_def)
  have "labels_ok (fst (label ?b ?n))" by (rule method_labels.ok_lookup [OF ok(1)])
  moreover have "int (card (bl_seen (fst (label ?b ?n)))) \<le> bl_max ?b"
    using method_labels.lookups_bounded [OF ok(1,2), of "[(?n, ())]"] by simp
  moreover have "bl_seen ?b \<subseteq> bl_seen (fst (label ?b ?n))"
    using method_labels.lookups_keys_mono [OF ok(1), of "[(?n, ())]"] by simp
  ultimately show ?thesis using q ok(3) label_used [OF ok(1), of ?n]
    by (auto simp: labels_bounded_def quiet_def Metrics_interceptor_def tick_def Let_def split_beta split: outcome.split)
qed

lemma newRequestID_labels [simp]:
  "request_labels (fst (requestID L ctx w)) = request_labels w" "mw_labels (fst (requestID L ctx w)) = mw_labels w"
  by (auto simp: requestID_def newRequestID_def tick_def Let_def split: option.split)

text \<open>Interceptors outside \<open>Metrics\<close> keep the bound of what runs below them.\<close>

definition keeps_bound :: "('l, 'x) mw handler \<Rightarrow> bool" where
  "keeps_bound h = (\<forall>ss w. labels_bounded w \<longrightarrow> labels_bounded (fst (h ss w)) \<and>
     bl_max (mw_labels (fst (h ss w))) = bl_max (mw_labels w))"

lemma bounded_update [simp]:
  "labels_bounded (w\<lparr>mw_tick := a\<rparr>) = labels_bounded w" "labels_bounded (w\<lparr>mw_draws := a\<rparr>) = labels_bounded w"
  "labels_bounded (w\<lparr>mw_log := l\<rparr>) = labels_bounded w" "labels_bounded (w\<lparr>mw_headers := hs\<rparr>) = labels_bounded w"
  "labels_bounded (w\<lparr>mw_infos := is\<rparr>) = labels_bounded w"
  "labels_bounded (fst (requestID L ctx w)) = labels_bounded w"
  "labels_bounded (emit [IncPanic m] w) = labels_bounded w" "labels_bounded (emit [] w) = labels_bounded w"
  by (simp_all add: labels_bounded_def)

lemma Logging_bound: "keeps_bound h \<Longrightarrow> keeps_bound (\<lambda>ss. Logging L cfg ss info h)"
  by (simp add: keeps_bound_def Logging_def tick_def Let_def split_beta split: outcome.split)

lemma Context_bound: "keeps_bound h \<Longrightarrow> keeps_bound (\<lambda>ss. Context L hh ss info h)"
  by (simp add: keeps_bound_def Context_def tick_def Let_def split_beta)

lemma Recovery_bound: "keeps_bound h \<Longrightarrow> keeps_bound (\<lambda>ss. Recovery L m ss info h)"
  by (simp add: keeps_bound_def Recovery_def Let_def split_beta split: outcome.split)

lemma lb_chain_bound:
  assumes "quiet h"
  shows "keeps_bound (\<lambda>ss. lb_chain L cfg ss info h)"
proof -
  have "keeps_bound (\<lambda>ss. Metrics_interceptor L True ss info g)" if "quiet g" for g
    using Metrics_labels [OF that] by (simp add: keeps_bound_def)
  then show ?thesis
    unfolding lb_chain_run
    by (intro Recovery_bound Context_bound Logging_bound) (blast intro: RateLimit_quiet CircuitBreak_quiet assms)
qed

text \<open>Requests one after the other: stream, \<open>StreamServerInfo\<close> and handler of each.\<close>

definition serve ::
  "'l mw_lib \<Rightarrow> config \<Rightarrow> (stream \<times> string option \<times> ('l, 'x) mw handler) list \<Rightarrow> ('l, 'x) mw \<Rightarrow> ('l, 'x) mw" where
  "serve L cfg reqs w = foldl (\<lambda>w (ss, info, h). fst (lb_chain L cfg ss info h w)) w reqs"

lemma serve_bound:
  "\<forall>(ss, info, h) \<in> set reqs. quiet h \<Longrightarrow> labels_bounded w \<Longrightarrow>
   labels_bounded (serve L cfg reqs w) \<and> bl_max (mw_labels (serve L cfg reqs w)) = bl_max (mw_labels w)"
proof (induction reqs arbitrary: w)
  case (Cons r reqs)
  obtain ss info h where r: "r = (ss, info, h)" by (cases r)
  have "keeps_bound (\<lambda>ss. lb_chain L cfg ss info h)" using Cons.prems(1) r by (intro lb_chain_bound) simp
  then have "labels_bounded (fst (lb_chain L cfg ss info h w)) \<and>
      bl_max (mw_labels (fst (lb_chain L cfg ss info h w))) = bl_max (mw_labels w)"
    using Cons.prems(2) by (simp add: keeps_bound_def)
  then show ?case using Cons.IH [of "fst (lb_chain L cfg ss info h w)"] Cons.prems(1) by (simp add: serve_def r)
qed (simp add: serve_def)

subsection \<open>Rejections\<close>

text \<open>A limiter that lets nobody through, and what every interceptor keeps of a rejection below it.\<close>

text \<open>
  What is documented of a token bucket: it holds no more tokens earlier than later, and a request it denies takes
  none. So a bucket without a token at \<open>T\<close> denies every request up to \<open>T\<close>.
\<close>

definition token_bucket :: "('l \<Rightarrow> go_time \<Rightarrow> 'l \<times> bool) \<Rightarrow> bool" where
  "token_bucket allow = (\<forall>b t T. t \<le> T \<longrightarrow> \<not> snd (allow b T) \<longrightarrow> \<not> snd (allow b t) \<and> \<not> snd (allow (fst (allow b t)) T))"

definition exhausted :: "'l mw_lib \<Rightarrow> go_time \<Rightarrow> ('l, 'x) mw \<Rightarrow> bool" where
  "exhausted L T w = (li_enabled (mw_lim w) \<and> \<not> snd (lib_allow L (li_global (mw_lim w)) T))"

definition rejects :: "'l mw_lib \<Rightarrow> go_time \<Rightarrow> string option \<Rightarrow> ('l, 'x) mw handler \<Rightarrow> bool" where
  "rejects L T info g = (\<forall>ss w. exhausted L T w \<longrightarrow> exhausted L T (fst (g ss w)) \<and>
     IncRateLimited (methodOf info) \<in> set (mw_calls (fst (g ss w))) \<and>
     (\<forall>c \<in> set (mw_calls w). c \<in> set (mw_calls (fst (g ss w)))))"

lemma RateLimit_rejects:
  assumes "token_bucket (lib_allow L)" "\<forall>n. lib_clock L n \<le> T"
  shows "rejects L T info (\<lambda>ss. RateLimit L True True ss info h)"
proof -
  have "\<not> snd (lib_allow L b (lib_clock L n)) \<and> \<not> snd (lib_allow L (fst (lib_allow L b (lib_clock L n))) T)"
    if "\<not> snd (lib_allow L b T)" for b n using assms that unfolding token_bucket_def by blast
  then show ?thesis
    by (auto simp: rejects_def exhausted_def RateLimit_def tick_def emit_def Limiter_Allow_def Let_def split_beta)
qed

lemma rejects_fields [simp]:
  "mw_lim (fst (requestID L ctx w)) = mw_lim w" "mw_calls (fst (requestID L ctx w)) = mw_calls w"
  by (auto simp: requestID_def newRequestID_def tick_def Let_def split: option.split)

lemma Metrics_rejects: "rejects L T info h \<Longrightarrow> rejects L T info (\<lambda>ss. Metrics_interceptor L True ss info h)"
  by (simp add: rejects_def exhausted_def Metrics_interceptor_def tick_def emit_def Let_def split_beta split: outcome.split)

lemma Logging_rejects: "rejects L T info h \<Longrightarrow> rejects L T info (\<lambda>ss. Logging L cfg ss info h)"
  by (simp add: rejects_def exhausted_def Logging_def tick_def Let_def split_beta split: outcome.split)

lemma Context_rejects: "rejects L T info h \<Longrightarrow> rejects L T info (\<lambda>ss. Context L hh ss info h)"
  by (simp add: rejects_def exhausted_def Context_def tick_def Let_def split_beta)

lemma Recovery_rejects: "rejects L T info h \<Longrightarrow> rejects L T info (\<lambda>ss. Recovery L True ss info h)"
  by (simp add: rejects_def exhausted_def Recovery_def emit_def Let_def split_beta split: outcome.split)

lemma lb_chain_rejects:
  assumes "token_bucket (lib_allow L)" "\<forall>n. lib_clock L n \<le> T"
  shows "rejects L T info (\<lambda>ss. lb_chain L cfg ss info h)"
  unfolding lb_chain_run
  by (intro Recovery_rejects Context_rejects Logging_rejects Metrics_rejects RateLimit_rejects [OF assms])

lemma serve_rejects:
  assumes "token_bucket (lib_allow L)" "\<forall>n. lib_clock L n \<le> T" "exhausted L T w"
  shows "(\<lambda>(_, info, _). IncRateLimited (methodOf info)) ` set reqs \<union> set (mw_calls w) \<subseteq> set (mw_calls (serve L cfg reqs w))"
  using assms(3)
proof (induction reqs arbitrary: w)
  case (Cons r reqs)
  obtain ss info h where r: "r = (ss, info, h)" by (cases r)
  have "rejects L T info (\<lambda>ss. lb_chain L cfg ss info h)" by (rule lb_chain_rejects [OF assms(1,2)])
  then have *: "exhausted L T (fst (lb_chain L cfg ss info h w))"
    "insert (IncRateLimited (methodOf info)) (set (mw_calls w)) \<subseteq> set (mw_calls (fst (lb_chain L cfg ss info h w)))"
    using Cons.prems by (auto simp: rejects_def)
  then show ?case using Cons.IH [OF *(1)] by (auto simp: serve_def r)
qed (simp add: serve_def)

subsection \<open>Request ids\<close>

lemma EncodeToString_length: "length (EncodeToString bs) = 2 * length bs"
  by (induction bs) (simp_all add: EncodeToString_def)

lemma hex_digit_set: "unat d < 16 \<Longrightarrow> hex_digit d \<in> set ''0123456789abcdef''"
  unfolding hex_digit_def by (rule nth_mem) simp

lemma nibbles: "unat (drop_bit 4 (b :: 8 word)) < 16" "unat (b mod 16) < 16"
proof -
  have "unat b < 2 ^ 8" using unsigned_less [of b] by simp
  then show "unat (drop_bit 4 b) < 16" by (simp add: drop_bit_eq_div unat_div)
  show "unat (b mod 16) < 16" by (simp add: unat_mod)
qed

lemma EncodeToString_set: "set (EncodeToString bs) \<subseteq> set ''0123456789abcdef''"
proof (induction bs)
  case (Cons b bs)
  have "set (EncodeToString (b # bs)) = {hex_digit (drop_bit 4 b), hex_digit (b mod 16)} \<union> set (EncodeToString bs)"
    by (simp add: EncodeToString_def)
  then show ?case using Cons hex_digit_set [OF nibbles(1), of b] hex_digit_set [OF nibbles(2), of b] by (simp only: Un_subset_iff insert_subset) simp
qed (simp add: EncodeToString_def)

lemma EncodeToString_valid:
  assumes "length bs = 8"
  shows "validRequestID (EncodeToString bs)"
proof -
  have "\<forall>c \<in> set ''0123456789abcdef''. \<not> (of_char c < (0x20 :: nat) \<or> of_char c > (0x7e :: nat))" by simp
  then have "list_all (\<lambda>c. \<not> (of_char c < (0x20 :: nat) \<or> of_char c > (0x7e :: nat))) (EncodeToString bs)"
    using EncodeToString_set [of bs] unfolding list_all_iff by blast
  moreover have "length (EncodeToString bs) = 16" using assms by (simp add: EncodeToString_length)
  ultimately show ?thesis by (auto simp: validRequestID_def maxRequestIDLen_def)
qed

subsection \<open>Answers when the handler panics\<close>

definition rejection :: "outcome \<Rightarrow> bool" where
  "rejection out = (out = Returned (Some (Status_Error ResourceExhausted ''rate limit exceeded'')) \<or>
     out = Returned (Some (Status_Error Unavailable ''circuit open'')))"

definition panics_or_rejects :: "('l, 'x) mw handler \<Rightarrow> bool" where
  "panics_or_rejects h = (\<forall>ss w. (\<exists>r. snd (h ss w) = Panicked r) \<or> rejection (snd (h ss w)))"

text \<open>An interceptor answers with what the handler said in some world, or with an answer of its own.\<close>

lemma CircuitBreak_eval:
  assumes "Registry_Get (mw_reg w) (methodOf info) (lib_clock L (mw_tick w)) = (reg, ref)" "breaker_at reg ref = Some b"
    and "Admit b (lib_clock L (Suc (mw_tick w))) = (b', evs, pr, ok)"
    and "w1 = emit (gauge_calls evs) (w\<lparr>mw_tick := mw_tick w + 2, mw_reg := breaker_put reg ref b'\<rparr>)"
  shows "CircuitBreak L True m ss info h w =
    (if \<not> ok then (emit (if m then [IncRejected (methodOf info) RejectReasonCircuitOpen] else []) w1,
                    Returned (Some (Status_Error Unavailable ''circuit open'')))
     else let (w2, out) = h ss w1; (w3, t2) = tick L w2
          in (resolve_probe ref pr (case out of Panicked _ \<Rightarrow> True | Returned err \<Rightarrow> IsFailure (lib_code L) err) t2 w3, out))"
  using assms by (simp add: CircuitBreak_def tick_def Let_def split_beta split: outcome.split)

lemma CircuitBreak_answers:
  assumes "registry_inv (mw_reg w)"
  shows "(snd (CircuitBreak L True m ss info h w) = Returned (Some (Status_Error Unavailable ''circuit open'')) \<and>
      (\<forall>h'. CircuitBreak L True m ss info h' w = CircuitBreak L True m ss info h w)) \<or>
    (\<exists>w1. snd (CircuitBreak L True m ss info h w) = snd (h ss w1))"
proof -
  obtain reg ref where g: "Registry_Get (mw_reg w) (methodOf info) (lib_clock L (mw_tick w)) = (reg, ref)"
    by (cases "Registry_Get (mw_reg w) (methodOf info) (lib_clock L (mw_tick w))")
  obtain b where b: "breaker_at reg ref = Some b" using Registry_Get_known [OF assms g] by blast
  obtain b' evs pr ok where a: "Admit b (lib_clock L (Suc (mw_tick w))) = (b', evs, pr, ok)"
    by (cases "Admit b (lib_clock L (Suc (mw_tick w)))")
  show ?thesis by (cases ok) (auto simp: CircuitBreak_eval [OF g b a refl] Let_def split_beta)
qed

lemma CircuitBreak_outcome:
  "rejection (snd (CircuitBreak L p m ss info h w)) \<or> (\<exists>r. snd (CircuitBreak L p m ss info h w) = Panicked r) \<or>
   (\<exists>w1. snd (CircuitBreak L p m ss info h w) = snd (h ss w1))"
proof (cases p)
  case True
  obtain reg ref where g: "Registry_Get (mw_reg w) (methodOf info) (lib_clock L (mw_tick w)) = (reg, ref)"
    by (cases "Registry_Get (mw_reg w) (methodOf info) (lib_clock L (mw_tick w))")
  show ?thesis
  proof (cases "breaker_at reg ref")
    case None
    then show ?thesis using True g by (simp add: CircuitBreak_def tick_def Let_def)
  next
    case (Some b)
    obtain b' evs pr ok where a: "Admit b (lib_clock L (Suc (mw_tick w))) = (b', evs, pr, ok)"
      by (cases "Admit b (lib_clock L (Suc (mw_tick w)))")
    show ?thesis using True
      by (cases ok) (auto simp: CircuitBreak_eval [OF g Some a refl] Let_def split_beta rejection_def)
  qed
qed (auto simp: CircuitBreak_def passThrough_def)

lemma Metrics_outcome: "\<exists>w1. snd (Metrics_interceptor L m ss info h w) = snd (h ss w1)"
proof (cases m)
  case True
  obtain labels x where l: "label (mw_labels w) (methodOf info) = (labels, x)"
    by (cases "label (mw_labels w) (methodOf info)")
  let ?w = "emit [IncInflight x] (fst (tick L (w\<lparr>mw_labels := labels\<rparr>)))"
  obtain w1 out where h: "h ss ?w = (w1, out)" by (cases "h ss ?w")
  then show ?thesis using True l
    by (cases out) (auto simp: Metrics_interceptor_def Let_def split_beta intro!: exI [of _ ?w])
qed (auto simp: Metrics_interceptor_def passThrough_def)

lemma Logging_outcome: "snd (Logging L cfg ss info h w) = snd (h ss (w\<lparr>mw_tick := mw_tick w + 1\<rparr>))"
proof -
  obtain w1 out where h: "h ss (w\<lparr>mw_tick := mw_tick w + 1\<rparr>) = (w1, out)" by (cases "h ss (w\<lparr>mw_tick := mw_tick w + 1\<rparr>)")
  then show ?thesis by (cases out) (simp_all add: Logging_def tick_def Let_def split_beta)
qed

lemma panics_CircuitBreak:
  "\<forall>ss w. \<exists>r. snd (h ss w) = Panicked r \<Longrightarrow> panics_or_rejects (\<lambda>ss. CircuitBreak L p m ss info h)"
  unfolding panics_or_rejects_def using CircuitBreak_outcome by metis

lemma panics_RateLimit: "panics_or_rejects h \<Longrightarrow> panics_or_rejects (\<lambda>ss. RateLimit L p m ss info h)"
  by (auto simp: panics_or_rejects_def rejection_def RateLimit_def passThrough_def Let_def split_beta)

lemma panics_Metrics: "panics_or_rejects h \<Longrightarrow> panics_or_rejects (\<lambda>ss. Metrics_interceptor L m ss info h)"
  unfolding panics_or_rejects_def using Metrics_outcome by metis

lemma panics_Logging: "panics_or_rejects h \<Longrightarrow> panics_or_rejects (\<lambda>ss. Logging L cfg ss info h)"
  by (simp add: panics_or_rejects_def Logging_outcome)

lemma panics_Context: "panics_or_rejects h \<Longrightarrow> panics_or_rejects (\<lambda>ss. Context L hh ss info h)"
  by (simp add: panics_or_rejects_def Context_def Let_def split_beta)

lemma panics_Recovery:
  assumes "panics_or_rejects h"
  shows "snd (Recovery L m ss info h w) = Returned (Some (Status_Error Internal ''internal error'')) \<or>
    rejection (snd (Recovery L m ss info h w))"
proof -
  obtain w1 out where h: "h ss w = (w1, out)" by (cases "h ss w")
  then have "(\<exists>r. out = Panicked r) \<or> rejection out" using assms by (metis panics_or_rejects_def snd_conv)
  then show ?thesis using h by (cases out) (auto simp: Recovery_def Let_def)
qed

lemma panics_lb_chain:
  "\<forall>ss w. \<exists>r. snd (h ss w) = Panicked r \<Longrightarrow>
   snd (lb_chain L cfg ss info h w) = Returned (Some (Status_Error Internal ''internal error'')) \<or>
   rejection (snd (lb_chain L cfg ss info h w))"
  unfolding lb_chain_run
  by (intro panics_Recovery panics_Context panics_Logging panics_Metrics panics_RateLimit panics_CircuitBreak)

subsection \<open>Properties\<close>

text \<open>
  \<open>Chain\<close> nests its non-nil arguments with the first outermost, whatever their number; chaining two
  lists is running the second chain as the handler of the first.
\<close>

theorem chain_is_nesting:
  "Chain is ss info h w = foldr (\<lambda>i h ss w. i ss info h w) (List.map_filter id is) h ss w \<and>
   Chain (is @ js) ss info h w = Chain is ss info (\<lambda>ss w. Chain js ss info h w) w"
proof -
  have "List.map_filter id (is @ js) = List.map_filter id is @ List.map_filter id js" by (simp add: map_filter_def)
  then show ?thesis by (simp add: Chain_run)
qed

text \<open>
  C10: no panic leaves the pipeline, and the in-flight gauge of every method is back where it was when
  the request is over, whether the handler returned or panicked. A request whose handler panics is
  answered with \<open>Internal\<close> and a fixed message, unless the limiter or the breaker rejected it first.
\<close>

theorem pipeline_contains_panics:
  assumes "balanced h"
  shows "(\<exists>e. snd (lb_chain L cfg ss info h w) = Returned e) \<and>
    inflight x (fst (lb_chain L cfg ss info h w)) = inflight x w \<and>
    ((\<forall>ss w. \<exists>r. snd (h ss w) = Panicked r) \<longrightarrow>
       snd (lb_chain L cfg ss info h w) = Returned (Some (Status_Error Internal ''internal error'')) \<or>
       rejection (snd (lb_chain L cfg ss info h w)))"
proof -
  have "balanced (\<lambda>ss. lb_chain L cfg ss info h)"
    unfolding lb_chain_run by (intro interceptors_balanced assms)
  then have "inflight x (fst (lb_chain L cfg ss info h w)) = inflight x w" by (rule balancedD)
  moreover have "\<exists>e. snd (lb_chain L cfg ss info h w) = Returned e"
    unfolding lb_chain_run by (rule Recovery_returns)
  ultimately show ?thesis using panics_lb_chain by blast
qed

text \<open>
  \<open>CircuitBreak\<close> gives back the half-open probe it took on every exit, panics included: no breaker
  of the registry has more outstanding probes afterwards than before, and a request that is not
  admitted never reaches the handler.
\<close>

theorem circuit_break_returns_probe:
  assumes "registry_inv (mw_reg w)" and "\<forall>ss w. mw_reg (fst (h ss w)) = mw_reg w"
  shows "let (w', out) = CircuitBreak L True m ss info h w
    in registry_inv (mw_reg w') \<and> (\<forall>ref. held_probes (mw_reg w') ref \<le> held_probes (mw_reg w) ref) \<and>
       (out = Returned (Some (Status_Error Unavailable ''circuit open'')) \<and>
          (\<forall>h'. CircuitBreak L True m ss info h' w = (w', out)) \<or>
        (\<exists>w1. out = snd (h ss w1)))"
  using CircuitBreak_no_leak [OF assms, of L True m ss info] CircuitBreak_answers [OF assms(1), of L m ss info h]
  by (simp add: split_beta Let_def)

text \<open>
  The method labels of the request metrics are bounded. After any number of requests that run one after another, for
  any method names a client can invent, the request counter, the duration histogram and the in-flight gauge carry at
  most \<open>maxMethodLabels\<close> methods and the label \<open>other\<close>. \<^verbatim>\<open>Label_Races\<close> has the bound for concurrent requests.
\<close>

theorem serial_labels_bounded:
  assumes "\<forall>(ss, info, h) \<in> set reqs. quiet h"
    and "mw_labels w = newBoundedLabels maxMethodLabels" and "mw_calls w = []"
  shows "int (card (request_labels (serve L cfg reqs w))) \<le> maxMethodLabels + 1"
proof -
  let ?w = "serve L cfg reqs w"
  have "labels_bounded w" using assms(2,3)
    by (simp add: labels_bounded_def labels_ok_def newBoundedLabels_def request_labels_def maxMethodLabels_def)
  from serve_bound [OF assms(1) this, of L cfg]
  have b: "labels_bounded ?w" "bl_max (mw_labels ?w) = maxMethodLabels"
    using assms(2) by (simp_all add: newBoundedLabels_def maxMethodLabels_def)
  then have fin: "finite (bl_seen (mw_labels ?w))" by (simp add: labels_bounded_def labels_ok_def)
  have "card (request_labels ?w) \<le> card (insert otherMethod (bl_seen (mw_labels ?w)))"
    using b(1) fin by (intro card_mono) (simp_all add: labels_bounded_def)
  also have "\<dots> \<le> Suc (card (bl_seen (mw_labels ?w)))" using fin by (simp add: card_insert_if)
  finally show ?thesis using b by (simp add: labels_bounded_def)
qed

text \<open>
  C33: the labels of the rejection counter are not bounded. While the global bucket has no token, every request is
  counted under the method name it came with: requests with \<open>n\<close> different names before the time \<open>T\<close> at which the bucket is
  still empty add \<open>n\<close> series of \<open>lb_rate_limited_total\<close>, for any \<open>n\<close> and any token bucket.
\<close>

theorem rate_limited_labels_unbounded:
  assumes "token_bucket (lib_allow L)" and "\<forall>n. lib_clock L n \<le> T" and "exhausted L T w" and "distinct names" and "[] \<notin> set names"
  shows "length names \<le> card {m. IncRateLimited m \<in> set (mw_calls (serve L cfg (map (\<lambda>m. (ss, Some m, h)) names) w))}"
proof -
  let ?w = "serve L cfg (map (\<lambda>m. (ss, Some m, h)) names) w"
  let ?S = "{m. IncRateLimited m \<in> set (mw_calls ?w)}"
  have "finite (IncRateLimited -` set (mw_calls ?w))" by (rule finite_vimageI) (simp_all add: inj_def)
  then have fin: "finite ?S" by (simp add: vimage_def)
  have "m \<in> ?S" if "m \<in> set names" for m
  proof -
    have "IncRateLimited (methodOf (Some m)) \<in> set (mw_calls ?w)"
      using serve_rejects [OF assms(1,2,3), of "map (\<lambda>m. (ss, Some m, h)) names" cfg] that by (simp add: image_image) blast
    moreover have "methodOf (Some m) = m" using assms(5) that by (auto simp: methodOf_def)
    ultimately show ?thesis by simp
  qed
  then have "card (set names) \<le> card ?S" by (intro card_mono fin) blast
  then show ?thesis by (simp add: distinct_card [OF assms(4)])
qed

lemma requestID_valid:
  assumes "\<forall>n b. lib_entropy L n = Some b \<longrightarrow> length b = 8"
  shows "let (w', rid) = requestID L ctx w; v = mdValue ctx RequestIDHeader
    in validRequestID rid \<and> (if validRequestID v then rid = v else length rid = 16)"
proof (cases "validRequestID (mdValue ctx RequestIDHeader)")
  case False
  have "length (PutUint64 v) = 8" for v by (simp add: PutUint64_def)
  then have "\<exists>bs. length bs = 8 \<and> snd (newRequestID L w) = EncodeToString bs"
    using assms by (auto simp: newRequestID_def tick_def Let_def split: option.split)
  then show ?thesis using False EncodeToString_valid
    by (auto simp: requestID_def Let_def split_beta EncodeToString_length)
qed (simp add: requestID_def)

lemma requestID_headers: "mw_headers (fst (requestID L ctx w)) = mw_headers w"
  by (auto simp: requestID_def newRequestID_def tick_def Let_def split: option.split)

text \<open>Handlers that do the same on every stream that carries the request id \<open>rid\<close>; the inner interceptors keep them so.\<close>

definition same_on :: "string \<Rightarrow> ('l, 'x) mw handler \<Rightarrow> ('l, 'x) mw handler \<Rightarrow> bool" where
  "same_on rid h h' = (\<forall>ss w. requestIDOf w (Stream_Context ss) = rid \<longrightarrow> h ss w = h' ss w)"

lemma requestIDOf_update [simp]:
  "requestIDOf (w\<lparr>mw_tick := a\<rparr>) ctx = requestIDOf w ctx" "requestIDOf (w\<lparr>mw_lim := l\<rparr>) ctx = requestIDOf w ctx"
  "requestIDOf (w\<lparr>mw_labels := bl\<rparr>) ctx = requestIDOf w ctx" "requestIDOf (w\<lparr>mw_reg := r\<rparr>) ctx = requestIDOf w ctx"
  "requestIDOf (emit cs w) ctx = requestIDOf w ctx"
  by (simp_all add: requestIDOf_def info_at_def emit_def split: option.split)

lemma Logging_same: "same_on rid h h' \<Longrightarrow> same_on rid (\<lambda>ss. Logging L cfg ss info h) (\<lambda>ss. Logging L cfg ss info h')"
  by (simp add: same_on_def Logging_def tick_def Let_def split_beta split: outcome.split)

lemma Metrics_same: "same_on rid h h' \<Longrightarrow> same_on rid (\<lambda>ss. Metrics_interceptor L m ss info h) (\<lambda>ss. Metrics_interceptor L m ss info h')"
  by (simp add: same_on_def Metrics_interceptor_def passThrough_def tick_def Let_def split_beta split: outcome.split)

lemma RateLimit_same: "same_on rid h h' \<Longrightarrow> same_on rid (\<lambda>ss. RateLimit L p m ss info h) (\<lambda>ss. RateLimit L p m ss info h')"
  by (simp add: same_on_def RateLimit_def passThrough_def tick_def Let_def split_beta)

lemma CircuitBreak_same: "same_on rid h h' \<Longrightarrow> same_on rid (\<lambda>ss. CircuitBreak L p m ss info h) (\<lambda>ss. CircuitBreak L p m ss info h')"
  by (simp add: same_on_def CircuitBreak_def passThrough_def tick_def Let_def split_beta split: option.split outcome.split)

text \<open>\<open>Context\<close> calls its handler once, on a stream whose context leads to the new \<open>RequestInfo\<close>.\<close>

lemma Context_run:
  assumes "Stream_Context ss = Some c" "requestID L (Some c) w = (w1, rid)"
  obtains ss' w' where "\<And>h. Context L hh ss info h w = h ss' w'" "requestIDOf w' (Stream_Context ss') = rid"
    "mw_headers w' = mw_headers w @ [(RequestIDHeader, rid)]"
proof -
  have h: "mw_headers w1 = mw_headers w" using requestID_headers [of L "Some c" w] by (simp add: assms(2))
  show ?thesis
    by (rule that, simp only: Context_def assms Let_def split_beta fst_conv snd_conv)
       (auto simp: assms h NewContext_def WrapServerStream_def requestIDOf_def FromContext_def info_at_def Info_id_def tick_def
          split: stream.split)
qed

text \<open>
  C34: every request that reaches the inner handler carries a valid request id, whatever the client sent: its own if it
  is non-empty, printable and at most 128 bytes long, and otherwise 16 hexadecimal digits, even without entropy.
  \<open>Context\<close> calls the next handler on one stream, whose context leads to that id, after it has put the same id into
  the response header. The interceptors behind it in the pipeline pass that stream on: what the handler \<open>h\<close> of the pipeline
  would do on a stream with another id makes no difference.
\<close>

theorem request_id_always_valid:
  fixes h :: "('l, 'x) mw handler"
  assumes "\<forall>n b. lib_entropy L n = Some b \<longrightarrow> length b = 8" and "Stream_Context ss = Some c"
  shows "\<exists>rid. validRequestID rid \<and>
    (if validRequestID (mdValue (Some c) RequestIDHeader) then rid = mdValue (Some c) RequestIDHeader else length rid = 16) \<and>
    (\<exists>ss' w'. (\<forall>h. Context L hh ss info h w = h ss' w') \<and> requestIDOf w' (Stream_Context ss') = rid \<and>
       mw_headers w' = mw_headers w @ [(RequestIDHeader, rid)]) \<and>
    (\<forall>h'. (\<forall>ss' w'. requestIDOf w' (Stream_Context ss') = rid \<longrightarrow> h ss' w' = h' ss' w') \<longrightarrow>
       lb_chain L cfg ss info h w = lb_chain L cfg ss info h' w)"
proof -
  obtain w1 rid where rid: "requestID L (Some c) w = (w1, rid)" by fastforce
  have chain: "lb_chain L cfg ss info h w = lb_chain L cfg ss info h' w" if same: "same_on rid h h'" for h'
  proof -
    obtain ss' w' where r: "\<And>h. Context L (rt_HashHeader (c_Routing cfg)) ss info h w = h ss' w'" "requestIDOf w' (Stream_Context ss') = rid"
      using Context_run [OF assms(2) rid] by metis
    let ?in = "\<lambda>h ss. Logging L (c_Logging cfg) ss info (\<lambda>ss. Metrics_interceptor L True ss info
         (\<lambda>ss. RateLimit L True True ss info (\<lambda>ss. CircuitBreak L (cc_Enabled (c_CircuitBreaker cfg)) True ss info h)))"
    have "same_on rid (?in h) (?in h')" by (intro Logging_same Metrics_same RateLimit_same CircuitBreak_same same)
    then have "?in h ss' w' = ?in h' ss' w'" using r(2) by (simp add: same_on_def)
    then show ?thesis by (simp add: lb_chain_run Recovery_def r(1))
  qed
  have "\<exists>ss' w'. (\<forall>h. Context L hh ss info h w = h ss' w') \<and> requestIDOf w' (Stream_Context ss') = rid \<and>
      mw_headers w' = mw_headers w @ [(RequestIDHeader, rid)]"
    using Context_run [OF assms(2) rid] by metis
  moreover have "validRequestID rid \<and>
      (if validRequestID (mdValue (Some c) RequestIDHeader) then rid = mdValue (Some c) RequestIDHeader else length rid = 16)"
    using requestID_valid [OF assms(1), of "Some c" w] by (simp add: rid Let_def)
  ultimately show ?thesis using chain unfolding same_on_def by (intro exI [of _ rid] conjI) simp_all
qed

text \<open>
  \<open>Logging\<close> passes the outcome of the handler on and writes at most one record, none for a panic.
  An error that the level enables is always written, with the code and the message of the error,
  whatever the sampling rate.
\<close>

theorem errors_always_logged:
  assumes "\<forall>ss w. mw_log (fst (h ss w)) = mw_log w"
  shows "let (w', out) = Logging L cfg ss info h w
    in out = snd (h ss (w\<lparr>mw_tick := mw_tick w + 1\<rparr>)) \<and>
       (\<exists>new. mw_log w' = mw_log w @ new \<and> length new \<le> 1 \<and>
         (case out of
            Panicked r \<Rightarrow> new = []
          | Returned err \<Rightarrow> lib_code L err \<noteq> OK \<and> lib_enabled L (levelFor (lib_code L err)) \<longrightarrow>
              (\<exists>rec. new = [Log_RPC (levelFor (lib_code L err)) rec] \<and> lr_code rec = lib_name L (lib_code L err) \<and>
                 lr_error rec = map_option (lib_error L) err)))"
proof -
  obtain w1 out where h: "h ss (w\<lparr>mw_tick := mw_tick w + 1\<rparr>) = (w1, out)" by (cases "h ss (w\<lparr>mw_tick := mw_tick w + 1\<rparr>)")
  have "mw_log w1 = mw_log w" using assms [rule_format, of ss "w\<lparr>mw_tick := mw_tick w + 1\<rparr>"] h by simp
  then show ?thesis using h
    by (cases out) (auto simp: Logging_def tick_def Let_def split_beta)
qed

subsection \<open>Concrete requests\<close>

definition sample_lib :: "int option mw_lib" where
  "sample_lib = \<lparr>lib_clock = int, lib_draw = (\<lambda>_. Fin 0), lib_entropy = (\<lambda>_. None), lib_code = doc_code,
     lib_name = (\<lambda>_. ''code''), lib_error = (\<lambda>_. ''error''), lib_enabled = (\<lambda>_. True), lib_hash = (\<lambda>_. 0),
     lib_newl = sample_newl, lib_allow = sample_allow\<rparr>"

definition sample_mw :: "(int option, unit) mw" where
  "sample_mw = \<lparr>mw_tick = 0, mw_draws = 0, mw_fallback = 0, mw_calls = [], mw_log = [], mw_headers = [], mw_infos = [],
     mw_labels = newBoundedLabels maxMethodLabels, mw_lim = newWithClock sample_newl (\<lambda>_. 0) sample_limits,
     mw_reg = NewRegistry sample_settings 0, mw_rest = ()\<rparr>"

definition panicking :: "('l, 'x) mw handler" where
  "panicking ss w = (w, Panicked ''boom'')"

definition failing :: "('l, 'x) mw handler" where
  "failing ss w = (w, Returned (Some (Status_Error Internal ''broken'')))"

theorem pipeline_contains_panics_witness:
  "(\<exists>e. snd (lb_chain sample_lib Default (Raw None) (Some ''/m'') panicking sample_mw) = Returned e) \<and>
   inflight ''/m'' (fst (lb_chain sample_lib Default (Raw None) (Some ''/m'') panicking sample_mw)) = 0"
proof -
  have "balanced (panicking :: (int option, unit) mw handler)" by (simp add: balanced_def panicking_def)
  moreover have "inflight ''/m'' sample_mw = 0" by (simp add: inflight_def sample_mw_def)
  ultimately show ?thesis
    using pipeline_contains_panics [of panicking sample_lib Default "Raw None" "Some ''/m''" sample_mw "''/m''"] by simp
qed

theorem circuit_break_returns_probe_witness:
  "held_probes (mw_reg (fst (CircuitBreak sample_lib True True (Raw None) (Some ''/m'') panicking sample_mw))) (Named ''/m'') \<le> 0"
proof -
  have "registry_inv (mw_reg sample_mw)" using NewRegistry_inv by (simp add: sample_mw_def)
  moreover have "held_probes (mw_reg sample_mw) (Named ''/m'') = 0"
    by (simp add: held_probes_def sample_mw_def NewRegistry_def Let_def)
  ultimately show ?thesis
    using circuit_break_returns_probe [of sample_mw panicking sample_lib True "Raw None" "Some ''/m''"]
    by (auto simp: panicking_def split_beta Let_def elim: allE [of _ "Named ''/m''"])
qed

text \<open>
  A token bucket in nanoseconds of credit: one token per second and room for one. The first request takes the token; the
  two that follow within the second are denied.
\<close>

definition second_bucket :: "int \<times> go_time \<Rightarrow> go_time \<Rightarrow> (int \<times> go_time) \<times> bool" where
  "second_bucket b t =
     (let credit = min second (fst b + max 0 (t - snd b))
      in if second \<le> credit then ((credit - second, max t (snd b)), True) else (b, False))"

lemma second_bucket_token: "token_bucket second_bucket"
  by (auto simp: token_bucket_def second_bucket_def Let_def)

definition second_lib :: "(int \<times> go_time) mw_lib" where
  "second_lib = \<lparr>lib_clock = (\<lambda>n. min (int n) 1000), lib_draw = (\<lambda>_. Fin 0), lib_entropy = (\<lambda>_. None), lib_code = doc_code,
     lib_name = (\<lambda>_. ''code''), lib_error = (\<lambda>_. ''error''), lib_enabled = (\<lambda>_. True), lib_hash = (\<lambda>_. 0),
     lib_newl = (\<lambda>_ _. (second, 0)), lib_allow = second_bucket\<rparr>"

definition second_mw :: "(int \<times> go_time, unit) mw" where
  "second_mw = \<lparr>mw_tick = 0, mw_draws = 0, mw_fallback = 0, mw_calls = [], mw_log = [], mw_headers = [], mw_infos = [],
     mw_labels = newBoundedLabels maxMethodLabels,
     mw_lim = fst (Limiter_Allow (lib_newl second_lib) second_bucket (\<lambda>_. 0)
       (newWithClock (lib_newl second_lib) (\<lambda>_. 0) sample_limits\<lparr>li_global := (second, 0)\<rparr>) ''c'' (0, 0, 0)),
     mw_reg = NewRegistry sample_settings 0, mw_rest = ()\<rparr>"

theorem rate_limited_labels_unbounded_witness:
  "2 \<le> card {m. IncRateLimited m \<in> set (mw_calls (serve second_lib Default
     (map (\<lambda>m. (Raw None, Some m, failing)) [''/x/1'', ''/x/2'']) second_mw))}"
proof -
  have "exhausted second_lib 1000 second_mw" by code_simp
  moreover have "token_bucket (lib_allow second_lib)" "\<forall>n. lib_clock second_lib n \<le> 1000"
    using second_bucket_token by (simp_all add: second_lib_def)
  ultimately show ?thesis
    using rate_limited_labels_unbounded [of second_lib 1000 second_mw "[''/x/1'', ''/x/2'']" Default "Raw None" failing] by simp
qed

text \<open>A client that sends an unprintable id and a handler that panics on an id of another length than 16.\<close>

definition bad_id :: context_data where
  "bad_id = \<lparr>cx_values = (\<lambda>_. [[CHR 0x07]]), cx_peer = None, cx_info = None\<rparr>"

definition strict :: "('l, 'x) mw handler" where
  "strict ss w = (if length (requestIDOf w (Stream_Context ss)) = 16 then (w, Returned None) else (w, Panicked ''id''))"

theorem request_id_always_valid_witness:
  "lb_chain sample_lib Default (Raw (Some bad_id)) (Some ''/m'') strict sample_mw =
   lb_chain sample_lib Default (Raw (Some bad_id)) (Some ''/m'') (\<lambda>ss w. (w, Returned None)) sample_mw"
proof -
  have bad: "\<not> validRequestID (mdValue (Some bad_id) RequestIDHeader)" by code_simp
  show ?thesis
    using request_id_always_valid [of sample_lib "Raw (Some bad_id)" bad_id "[]" "Some ''/m''" sample_mw strict Default] bad
    by (auto simp: sample_lib_def strict_def)
qed

theorem errors_always_logged_witness:
  "length (mw_log (fst (Logging sample_lib \<lparr>lg_Level = [], lg_Format = [], lg_SampleRate = Fin 0\<rparr> (Raw None) (Some ''/m'')
     failing sample_mw))) = 1"
proof -
  let ?cfg = "\<lparr>lg_Level = [], lg_Format = [], lg_SampleRate = Fin 0\<rparr>"
  have "mw_log sample_mw = []" by (simp add: sample_mw_def)
  then show ?thesis
    using errors_always_logged [of failing sample_lib ?cfg "Raw None" "Some ''/m''" sample_mw]
    by (auto simp: failing_def sample_lib_def doc_code_def split_beta Let_def Logging_outcome)
qed

end
