(* ===== verification/Label_Races.thy ===== *)
theory Label_Races
  imports Pipeline
begin

text \<open>
  Concurrent requests in the Metrics interceptor of \<^verbatim>\<open>internal/middleware/metrics.go\<close>. The method \<open>label\<close> of
  \<open>boundedLabels\<close> takes no lock: it loads the name, reads the counter, stores the name and adds to the counter, each an
  atomic operation between which other goroutines run. Here these are the steps of a transition system; a goroutine
  that has its label puts it into the series of the request metrics.
\<close>

datatype label_pc =
    Label_Idle
  | Label_Load string
  | Label_Check string
  | Label_Store string
  | Label_Add string
  | Label_Got string

record label_system =
  ls_bounded :: boundedLabels
  ls_pcs :: "label_pc list"
  ls_series :: "string set" \<comment> \<open>the method labels of the request metrics so far\<close>

definition label_goto :: "nat \<Rightarrow> label_pc \<Rightarrow> label_system \<Rightarrow> label_system" where
  "label_goto i pc s = s\<lparr>ls_pcs := (ls_pcs s)[i := pc]\<rparr>"

definition label_at :: "label_system \<Rightarrow> nat \<Rightarrow> label_pc \<Rightarrow> bool" where
  "label_at s i pc = (i < length (ls_pcs s) \<and> ls_pcs s ! i = pc)"

inductive label_step :: "label_system \<Rightarrow> label_system \<Rightarrow> bool" where
  request: "label_at s i Label_Idle \<Longrightarrow> label_step s (label_goto i (Label_Load name) s)"
| seen: "label_at s i (Label_Load name) \<Longrightarrow> name \<in> bl_seen (ls_bounded s) \<Longrightarrow> label_step s (label_goto i (Label_Got name) s)"
| unseen: "label_at s i (Label_Load name) \<Longrightarrow> name \<notin> bl_seen (ls_bounded s) \<Longrightarrow> label_step s (label_goto i (Label_Check name) s)"
| full: "label_at s i (Label_Check name) \<Longrightarrow> bl_n (ls_bounded s) \<ge> bl_max (ls_bounded s) \<Longrightarrow>
    label_step s (label_goto i (Label_Got otherMethod) s)"
| room: "label_at s i (Label_Check name) \<Longrightarrow> bl_n (ls_bounded s) < bl_max (ls_bounded s) \<Longrightarrow>
    label_step s (label_goto i (Label_Store name) s)"
| lost: "label_at s i (Label_Store name) \<Longrightarrow> name \<in> bl_seen (ls_bounded s) \<Longrightarrow> label_step s (label_goto i (Label_Got name) s)"
| stored: "label_at s i (Label_Store name) \<Longrightarrow> name \<notin> bl_seen (ls_bounded s) \<Longrightarrow>
    label_step s (label_goto i (Label_Add name)
      (s\<lparr>ls_bounded := (ls_bounded s)\<lparr>bl_seen := insert name (bl_seen (ls_bounded s))\<rparr>\<rparr>))"
| counted: "label_at s i (Label_Add name) \<Longrightarrow>
    label_step s (label_goto i (Label_Got name) (s\<lparr>ls_bounded := (ls_bounded s)\<lparr>bl_n := bl_n (ls_bounded s) + 1\<rparr>\<rparr>))"
| observed: "label_at s i (Label_Got l) \<Longrightarrow> label_step s (label_goto i Label_Idle (s\<lparr>ls_series := insert l (ls_series s)\<rparr>))"

text \<open>An interceptor made with the cap \<open>mx\<close>, in which up to \<open>k\<close> requests are at once.\<close>

definition label_start :: "int \<Rightarrow> nat \<Rightarrow> label_system" where
  "label_start mx k = \<lparr>ls_bounded = newBoundedLabels mx, ls_pcs = replicate k Label_Idle, ls_series = {}\<rparr>"

subsection \<open>A request alone\<close>

text \<open>Without interference the steps of one request compute \<open>label\<close>.\<close>

lemma label_alone:
  assumes "label_at s i (Label_Load name)"
  shows "label_step\<^sup>*\<^sup>* s (label_goto i (Label_Got (snd (label (ls_bounded s) name))) (s\<lparr>ls_bounded := fst (label (ls_bounded s) name)\<rparr>))"
proof -
  let ?b = "ls_bounded s"
  have at: "label_at (label_goto i pc s) i pc" "label_goto i pc' (label_goto i pc s) = label_goto i pc' s"
    "ls_bounded (label_goto i pc s) = ls_bounded s" if "i < length (ls_pcs s)" for pc pc' s
    using that by (simp_all add: label_at_def label_goto_def)
  have i: "i < length (ls_pcs s)" using assms by (simp add: label_at_def)
  consider "name \<in> bl_seen ?b" | "name \<notin> bl_seen ?b" "bl_n ?b \<ge> bl_max ?b" | "name \<notin> bl_seen ?b" "bl_n ?b < bl_max ?b" by linarith
  then show ?thesis
  proof cases
    case 1
    then show ?thesis using label_step.seen [OF assms] by (simp add: label_def)
  next
    case 2
    have "label_step s (label_goto i (Label_Check name) s)" using 2 label_step.unseen [OF assms] by simp
    also have "label_step\<^sup>+\<^sup>+ (label_goto i (Label_Check name) s) (label_goto i (Label_Got otherMethod) s)"
      using label_step.full [OF at(1) [OF i], of name] 2 at [OF i] by auto
    finally show ?thesis using 2 by (simp add: label_def tranclp_into_rtranclp)
  next
    case 3
    let ?s = "s\<lparr>ls_bounded := ?b\<lparr>bl_seen := insert name (bl_seen ?b)\<rparr>\<rparr>"
    have j: "i < length (ls_pcs ?s)" using i by simp
    have swap: "(label_goto i pc s)\<lparr>ls_bounded := b\<rparr> = label_goto i pc (s\<lparr>ls_bounded := b\<rparr>)" for pc b and s :: label_system
      by (simp add: label_goto_def)
    have "label_step s (label_goto i (Label_Check name) s)" using 3 label_step.unseen [OF assms] by simp
    moreover have "label_step (label_goto i (Label_Check name) s) (label_goto i (Label_Store name) s)"
      using label_step.room [OF at(1) [OF i], of name] 3 at [OF i] by simp
    moreover have "label_step (label_goto i (Label_Store name) s) (label_goto i (Label_Add name) ?s)"
      using label_step.stored [OF at(1) [OF i], of name] 3 at [OF i] at [OF j] by (simp add: swap)
    moreover have "label_step (label_goto i (Label_Add name) ?s)
        (label_goto i (Label_Got name) (s\<lparr>ls_bounded := ?b\<lparr>bl_seen := insert name (bl_seen ?b), bl_n := bl_n ?b + 1\<rparr>\<rparr>))"
      using label_step.counted [OF at(1) [OF j], of name] at [OF j] by (simp add: swap) (simp add: label_goto_def)
    ultimately show ?thesis using 3 by (simp add: label_def)
  qed
qed

subsection \<open>Invariant\<close>

fun label_adding :: "label_pc \<Rightarrow> bool" where
  "label_adding (Label_Add _) = True"
| "label_adding _ = False"

fun label_past_check :: "label_pc \<Rightarrow> bool" where
  "label_past_check (Label_Store _) = True"
| "label_past_check (Label_Add _) = True"
| "label_past_check _ = False"

fun label_sound :: "string set \<Rightarrow> label_pc \<Rightarrow> bool" where
  "label_sound S (Label_Add name) = (name \<in> S)"
| "label_sound S (Label_Got l) = (l \<in> insert otherMethod S)"
| "label_sound S _ = True"

definition label_inv :: "int \<Rightarrow> nat \<Rightarrow> label_system \<Rightarrow> bool" where
  "label_inv mx k s =
     (let b = ls_bounded s; ts = ls_pcs s
      in bl_max b = mx \<and> finite (bl_seen b) \<and> length ts = k \<and> int (card (bl_seen b)) = bl_n b + pcs label_adding ts \<and>
         bl_n b + pcs label_past_check ts \<le> mx + max 0 (int k - 1) \<and> list_all (label_sound (bl_seen b)) ts \<and>
         ls_series s \<subseteq> insert otherMethod (bl_seen b))"

lemma label_sound_mono: "list_all (label_sound S) ts \<Longrightarrow> S \<subseteq> S' \<Longrightarrow> list_all (label_sound S') ts"
proof (rule list.pred_mono_strong, assumption)
  fix pc assume "S \<subseteq> S'" "label_sound S pc"
  then show "label_sound S' pc" by (induction S pc rule: label_sound.induct) auto
qed

lemma label_inv_goto:
  assumes "label_inv mx k s" "label_at s i pc" "label_sound (bl_seen (ls_bounded s)) pc'"
    and "label_adding pc' = label_adding pc" "label_past_check pc' \<longrightarrow> label_past_check pc"
  shows "label_inv mx k (label_goto i pc' s)"
  using assms by (auto simp: label_inv_def label_goto_def label_at_def Let_def pcs_update list_all_update)

lemma label_step_inv: "label_step s s' \<Longrightarrow> label_inv mx k s \<Longrightarrow> label_inv mx k s'"
proof (induction rule: label_step.induct)
  case (room s i name)
  then have i: "i < length (ls_pcs s)" "ls_pcs s ! i = Label_Check name" by (simp_all add: label_at_def)
  have "pcs label_past_check (ls_pcs s) \<le> int k - 1"
    using pcs_less [OF i(1), of label_past_check] i(2) room by (simp add: label_inv_def Let_def)
  then show ?case using room i by (auto simp: label_inv_def label_goto_def Let_def pcs_update list_all_update)
next
  case (stored s i name)
  then have i: "i < length (ls_pcs s)" "ls_pcs s ! i = Label_Store name" by (simp_all add: label_at_def)
  have "list_all (label_sound (bl_seen (ls_bounded s))) (ls_pcs s)" using stored by (simp add: label_inv_def Let_def)
  then have "list_all (label_sound (insert name (bl_seen (ls_bounded s)))) (ls_pcs s)" by (rule label_sound_mono) blast
  then have "list_all (label_sound (insert name (bl_seen (ls_bounded s)))) ((ls_pcs s)[i := Label_Add name])"
    by (rule list_all_update) simp
  then show ?case using stored i by (auto simp: label_inv_def label_goto_def Let_def pcs_update)
next
  case (counted s i name)
  then have i: "i < length (ls_pcs s)" "ls_pcs s ! i = Label_Add name" by (simp_all add: label_at_def)
  moreover have "label_sound (bl_seen (ls_bounded s)) (Label_Add name)"
    using counted i by (auto simp: label_inv_def Let_def list_all_length)
  ultimately show ?case using counted by (auto simp: label_inv_def label_goto_def Let_def pcs_update list_all_update)
next
  case (observed s i l)
  then have i: "i < length (ls_pcs s)" "ls_pcs s ! i = Label_Got l" by (simp_all add: label_at_def)
  have "label_sound (bl_seen (ls_bounded s)) (ls_pcs s ! i)"
    using observed i(1) by (simp add: label_inv_def Let_def list_all_length)
  then show ?case using observed i by (auto simp: label_inv_def label_goto_def Let_def pcs_update list_all_update)
qed (rule label_inv_goto, assumption, assumption, simp_all)+

lemma label_reach_inv:
  assumes "label_step\<^sup>*\<^sup>* (label_start mx k) s"
  shows "label_inv (bl_max (newBoundedLabels mx)) k s"
  using assms
proof (induction rule: rtranclp_induct)
  case base
  have "1 \<le> bl_max (newBoundedLabels mx)" by (simp add: newBoundedLabels_def maxMethodLabels_def)
  then show ?case by (simp add: label_inv_def label_start_def Let_def list_all_length) (simp add: newBoundedLabels_def)
next
  case (step s s')
  then show ?case using label_step_inv by blast
qed

subsection \<open>Claims\<close>

text \<open>
  C32: the method labels of the request metrics are bounded, for any method names clients can invent and any interleaving of
  the requests inside the Metrics interceptor. When up to \<open>k\<close> requests are in it at once, the request counter, the
  duration histogram and the in-flight gauge carry at most \<open>mx + k - 1\<close> method names and the label \<open>other\<close>, where \<open>mx\<close> is
  the cap the interceptor was made with (\<open>maxMethodLabels\<close> in the load balancer): the cap is exact for one
  request at a time and is overrun by at most one name for each further goroutine that can be past the check.
\<close>

theorem method_labels_bounded:
  assumes "label_step\<^sup>*\<^sup>* (label_start mx k) s"
  shows "int (card (bl_seen (ls_bounded s))) \<le> bl_max (newBoundedLabels mx) + max 0 (int k - 1) \<and>
    int (card (ls_series s - {otherMethod})) \<le> bl_max (newBoundedLabels mx) + max 0 (int k - 1)"
proof -
  have inv: "label_inv (bl_max (newBoundedLabels mx)) k s" by (rule label_reach_inv [OF assms])
  let ?S = "bl_seen (ls_bounded s)"
  have "label_adding pc \<longrightarrow> label_past_check pc" for pc by (cases pc) simp_all
  then have "pcs label_adding ts \<le> pcs label_past_check ts" for ts by (induction ts) (auto simp: pcs_def)
  then have b: "int (card ?S) \<le> bl_max (newBoundedLabels mx) + max 0 (int k - 1)"
    using inv by (simp add: label_inv_def Let_def) (meson add_left_mono order_trans)
  have "card (ls_series s - {otherMethod}) \<le> card ?S" using inv by (intro card_mono) (auto simp: label_inv_def Let_def)
  then show ?thesis using b by simp
qed

text \<open>Two requests race past a cap of one: both pass the check before either is counted.\<close>

definition label_race :: label_system where
  "label_race = \<lparr>ls_bounded = \<lparr>bl_max = 1, bl_n = 0, bl_seen = {''/b'', ''/a''}\<rparr>, ls_pcs = [Label_Add ''/a'', Label_Add ''/b''], ls_series = {}\<rparr>"

lemma label_race_reach: "label_step\<^sup>*\<^sup>* (label_start 1 2) label_race"
proof -
  let ?s = "\<lambda>S p q. \<lparr>ls_bounded = \<lparr>bl_max = 1, bl_n = 0, bl_seen = S\<rparr>, ls_pcs = [p, q], ls_series = {}\<rparr>"
  note defs = label_at_def label_goto_def
  have "label_start 1 2 = ?s {} Label_Idle Label_Idle" by (simp add: label_start_def newBoundedLabels_def numeral_2_eq_2)
  moreover have "label_step (?s {} Label_Idle Label_Idle) (?s {} (Label_Load ''/a'') Label_Idle)"
    using label_step.request [of "?s {} Label_Idle Label_Idle" 0] by (simp add: defs)
  moreover have "label_step (?s {} (Label_Load ''/a'') Label_Idle) (?s {} (Label_Load ''/a'') (Label_Load ''/b''))"
    using label_step.request [of "?s {} (Label_Load ''/a'') Label_Idle" 1] by (simp add: defs)
  moreover have "label_step (?s {} (Label_Load ''/a'') (Label_Load ''/b'')) (?s {} (Label_Check ''/a'') (Label_Load ''/b''))"
    using label_step.unseen [of "?s {} (Label_Load ''/a'') (Label_Load ''/b'')" 0] by (simp add: defs)
  moreover have "label_step (?s {} (Label_Check ''/a'') (Label_Load ''/b'')) (?s {} (Label_Check ''/a'') (Label_Check ''/b''))"
    using label_step.unseen [of "?s {} (Label_Check ''/a'') (Label_Load ''/b'')" 1] by (simp add: defs)
  moreover have "label_step (?s {} (Label_Check ''/a'') (Label_Check ''/b'')) (?s {} (Label_Store ''/a'') (Label_Check ''/b''))"
    using label_step.room [of "?s {} (Label_Check ''/a'') (Label_Check ''/b'')" 0] by (simp add: defs)
  moreover have "label_step (?s {} (Label_Store ''/a'') (Label_Check ''/b'')) (?s {} (Label_Store ''/a'') (Label_Store ''/b''))"
    using label_step.room [of "?s {} (Label_Store ''/a'') (Label_Check ''/b'')" 1] by (simp add: defs)
  moreover have "label_step (?s {} (Label_Store ''/a'') (Label_Store ''/b'')) (?s {''/a''} (Label_Add ''/a'') (Label_Store ''/b''))"
    using label_step.stored [of "?s {} (Label_Store ''/a'') (Label_Store ''/b'')" 0] by (simp add: defs)
  moreover have "label_step (?s {''/a''} (Label_Add ''/a'') (Label_Store ''/b'')) label_race"
    using label_step.stored [of "?s {''/a''} (Label_Add ''/a'') (Label_Store ''/b'')" 1] by (simp add: defs label_race_def)
  ultimately show ?thesis by simp
qed

theorem method_labels_bounded_witness:
  "bl_max (ls_bounded label_race) < int (card (bl_seen (ls_bounded label_race))) \<and> int (card (bl_seen (ls_bounded label_race))) \<le> 1 + 1"
  using method_labels_bounded [OF label_race_reach] by (simp add: label_race_def newBoundedLabels_def)

end
