(* ===== verification/Proxy.thy ===== *)
theory Proxy
  imports Middleware Balancer
begin

text \<open>
  \<^verbatim>\<open>internal/proxy\<close>: one proxied RPC. What the gRPC library does during one attempt at a backend is an
  input, the record \<open>attempt\<close>: the results of opening the stream, of every send and receive, of the
  header and of the context. The handler goroutine is a function; the pump goroutine shares four
  fields with it under a mutex, and its steps are applied at the points at which the handler takes that
  mutex (what it does elsewhere commutes with the handler). What was sent upstream, with the number of the
  attempt whose stream received it, and what reached the client are kept as logs.
\<close>

subsection \<open>The codec\<close>

text \<open>
  Buffer slices by address, with the number of references to each. \<open>Marshal\<close> and \<open>Unmarshal\<close> get an
  \<open>any\<close>, of which only the two buffer types are accepted.
\<close>

type_synonym refcounts = "nat \<Rightarrow> int"

datatype any_value = Slice nat | Slice_Pointer nat | Other_Value string

definition codecName :: string where "codecName = ''proto''"

fun Codec_Marshal :: "any_value \<Rightarrow> refcounts \<Rightarrow> refcounts \<times> (go_error + nat)" where
  "Codec_Marshal (Slice s) rc = (rc(s := rc s + 1), Inr s)"
| "Codec_Marshal (Slice_Pointer s) rc = (rc(s := rc s + 1), Inr s)"
| "Codec_Marshal (Other_Value t) rc =
     (rc, Inl (Plain_Error (''proxy: codec cannot marshal '' @ t @ '', want mem.BufferSlice'')))"

text \<open>The destination of \<open>Unmarshal\<close> holds the address of the slice afterwards.\<close>

fun Codec_Unmarshal :: "nat \<Rightarrow> any_value \<Rightarrow> refcounts \<Rightarrow> refcounts \<times> (go_error + any_value)" where
  "Codec_Unmarshal s (Slice_Pointer _) rc = (rc(s := rc s + 1), Inr (Slice_Pointer s))"
| "Codec_Unmarshal s (Slice _) rc =
     (rc, Inl (Plain_Error ''proxy: codec cannot unmarshal into mem.BufferSlice, want *mem.BufferSlice''))"
| "Codec_Unmarshal s (Other_Value t) rc =
     (rc, Inl (Plain_Error (''proxy: codec cannot unmarshal into '' @ t @ '', want *mem.BufferSlice'')))"

subsection \<open>Forwarded metadata\<close>

type_synonym metadata = "string \<rightharpoonup> string list"

definition forwardedForHeader :: string where "forwardedForHeader = ''x-forwarded-for''"

definition hopByHop :: "string list" where
  "hopByHop = [''connection'', ''te'', ''trailer'', ''transfer-encoding'', ''upgrade'', ''keep-alive'', ''proxy-authorization'']"

text \<open>One entry of the incoming metadata, in the order in which Go iterates over the map.\<close>

definition forward_entry :: "string \<times> string list \<Rightarrow> metadata \<Rightarrow> metadata" where
  "forward_entry kv out =
     (let lk = ToLower (fst kv)
      in if lk \<noteq> [] \<and> hd lk = CHR '':'' then out
         else if lk \<in> set hopByHop then out
         else out(lk \<mapsto> (case out lk of Some vs \<Rightarrow> vs | None \<Rightarrow> []) @ snd kv))"

text \<open>\<open>md_append\<close> is the library's \<open>MD.Append\<close>.\<close>

definition forwardMD ::
  "(string \<Rightarrow> string \<Rightarrow> metadata \<Rightarrow> metadata) \<Rightarrow> (string \<times> string list) list \<Rightarrow> go_context \<Rightarrow> metadata" where
  "forwardMD md_append inmd ctx =
     (let out = fold forward_entry inmd Map.empty
      in if PeerIP ctx \<noteq> [] then md_append forwardedForHeader (PeerIP ctx) out else out)"

subsection \<open>The proxy and one exchange\<close>

definition errNotReplayable :: go_error where
  "errNotReplayable = Sentinel ''proxy: request is no longer replayable''"

record proxy =
  prx_m :: bool
  prx_hashHeader :: string
  prx_maxAttempts :: int
  prx_retryPolicy :: string

definition Proxy_New :: "config \<Rightarrow> bool \<Rightarrow> proxy" where
  "Proxy_New cfg m = \<lparr>prx_m = m, prx_hashHeader = rt_HashHeader (c_Routing cfg),
     prx_maxAttempts = (if rt_MaxAttempts (c_Routing cfg) < 1 then 1 else rt_MaxAttempts (c_Routing cfg)),
     prx_retryPolicy = (if rt_RetryPolicy (c_Routing cfg) = [] then RetryConnectFailure else rt_RetryPolicy (c_Routing cfg))\<rparr>"

type_synonym message = string
type_synonym header = "(string \<times> string) list"

datatype up_event = UpMsg message | UpClose
datatype down_event = DownHeader header | DownMsg message | DownTrailer header

record exchange =
  e_method :: string
  e_first :: "message option" \<comment> \<open>the buffered first message, if \<open>haveFirst\<close>\<close>
  e_sentHeader :: bool
  e_sentMsg :: bool
  e_upstreamDone :: bool
  e_cs :: "nat option" \<comment> \<open>the attempt whose stream the pump sends to\<close>
  e_pumping :: bool
  e_committed :: bool
  e_halfClosed :: bool
  e_pumpDone :: bool \<comment> \<open>whether \<open>pump\<close> has returned\<close>
  e_up :: "(nat \<times> up_event) list"
  e_down :: "down_event list"
  e_pumped :: "message list" \<comment> \<open>the messages that \<open>pump\<close> took from the client\<close>
  e_received :: nat \<comment> \<open>buffers received by \<open>relay\<close> and \<open>pump\<close>; \<open>e.first\<close>, which \<open>handle\<close> frees when it returns,
    and the buffer that \<open>firstSendError\<close> frees at once are not counted\<close>
  e_freed :: nat \<comment> \<open>how many of them were freed\<close>

datatype pump_event =
    PMsg message "go_error option" \<comment> \<open>a client message, and the result of sending it on\<close>
  | PErr go_error

record attempt =
  at_open :: "go_error option" \<comment> \<open>the error of \<open>grpc.NewClientStream\<close>\<close>
  at_firstSend :: "go_error option"
  at_firstRecv :: "go_error option" \<comment> \<open>what \<open>RecvMsg\<close> says after a failed first send\<close>
  at_msgs :: "message list" \<comment> \<open>the upstream messages, and the error that ends them\<close>
  at_end :: go_error
  at_header :: "go_error + header"
  at_trailer :: header
  at_sendHeader :: "nat \<Rightarrow> go_error option" \<comment> \<open>results of \<open>SendHeader\<close> to the client, by call\<close>
  at_sends :: "nat \<Rightarrow> go_error option" \<comment> \<open>results of \<open>SendMsg\<close> to the client, by message\<close>
  at_pump1 :: "pump_event list" \<comment> \<open>the pump up to \<open>install\<close>, and up to \<open>canRetry\<close>\<close>
  at_pump2 :: "pump_event list"
  at_ctxErr :: bool
  at_budget :: bool \<comment> \<open>no deadline, or one that has not passed\<close>

record proxy_lib =
  pl_code :: "go_error option \<Rightarrow> code" \<comment> \<open>\<open>status.Code\<close>\<close>
  pl_name :: "code \<Rightarrow> string" \<comment> \<open>\<open>codes.Code.String\<close>\<close>
  pl_from :: "go_error \<Rightarrow> go_error \<times> bool" \<comment> \<open>\<open>status.FromError\<close>, the status as an error\<close>
  pl_clock :: "nat \<Rightarrow> go_time"

record 'c proxy_world =
  pw_world :: "'c world"
  pw_calls :: "metric_call list"
  pw_info :: "request_info option"
  pw_ex :: exchange

subsection \<open>The pump\<close>

definition pump_step :: "exchange \<Rightarrow> pump_event \<Rightarrow> exchange" where
  "pump_step e ev =
     (if \<not> e_pumping e \<or> e_pumpDone e then e
      else case ev of
             PErr err \<Rightarrow>
               (if errors_Is err EOF
                then e\<lparr>e_halfClosed := True, e_pumpDone := True,
                       e_up := e_up e @ (case e_cs e of None \<Rightarrow> [] | Some s \<Rightarrow> [(s, UpClose)])\<rparr>
                else e\<lparr>e_committed := True, e_pumpDone := True\<rparr>)
           | PMsg m res \<Rightarrow>
               e\<lparr>e_committed := True, e_received := e_received e + 1, e_freed := e_freed e + 1,
                 e_pumped := e_pumped e @ [m], e_pumpDone := (res \<noteq> None),
                 e_up := e_up e @ (if res = None then case e_cs e of None \<Rightarrow> [] | Some s \<Rightarrow> [(s, UpMsg m)] else [])\<rparr>)"

definition pump :: "exchange \<Rightarrow> pump_event list \<Rightarrow> exchange" where
  "pump e evs = foldl pump_step e evs"

subsection \<open>One attempt\<close>

definition firstSendError :: "go_error \<Rightarrow> go_error option \<Rightarrow> go_error" where
  "firstSendError err rerr =
     (if \<not> errors_Is err EOF then err else case rerr of Some r \<Rightarrow> r | None \<Rightarrow> err)"

definition install :: "nat \<Rightarrow> attempt \<Rightarrow> exchange \<Rightarrow> exchange \<times> go_error option" where
  "install s a e =
     (if e_committed e then (e, Some errNotReplayable)
      else case at_open a of
             Some err \<Rightarrow> (e, Some err)
           | None \<Rightarrow>
               (case (case e_first e of None \<Rightarrow> None | Some _ \<Rightarrow> at_firstSend a) of
                  Some err \<Rightarrow> (e, Some (firstSendError err (at_firstRecv a)))
                | None \<Rightarrow>
                    (let e = e\<lparr>e_up := e_up e @ (case e_first e of None \<Rightarrow> [] | Some m \<Rightarrow> [(s, UpMsg m)]),
                               e_cs := Some s\<rparr>;
                         e = (if e_halfClosed e then e\<lparr>e_up := e_up e @ [(s, UpClose)]\<rparr>
                              else if \<not> e_pumping e then e\<lparr>e_pumping := True\<rparr>
                              else e)
                     in (e, None))))"

definition forwardHeader :: "nat \<Rightarrow> attempt \<Rightarrow> exchange \<Rightarrow> exchange" where
  "forwardHeader call a e =
     (if e_sentHeader e then e
      else case at_header a of
             Inl _ \<Rightarrow> e
           | Inr md \<Rightarrow>
               (if md = [] then e
                else if at_sendHeader a call = None
                then e\<lparr>e_sentHeader := True, e_down := e_down e @ [DownHeader md]\<rparr>
                else e))"

text \<open>The loop of \<open>relay\<close> over the upstream messages; \<open>k\<close> counts the sends to the client.\<close>

fun relay_loop :: "attempt \<Rightarrow> nat \<Rightarrow> message list \<Rightarrow> exchange \<Rightarrow> exchange \<times> go_error option" where
  "relay_loop a k [] e =
     (let e = e\<lparr>e_upstreamDone := True\<rparr>
      in if errors_Is (at_end a) EOF then (forwardHeader 0 a e, None) else (e, Some (at_end a)))"
| "relay_loop a k (m # ms) e =
     (let e = e\<lparr>e_received := e_received e + 1\<rparr>;
          (e, err) =
            (if e_sentHeader e then (e, None)
             else case at_header a of
                    Inl err \<Rightarrow> (e\<lparr>e_upstreamDone := True\<rparr>, Some err)
                  | Inr md \<Rightarrow>
                      (case at_sendHeader a 0 of
                         Some err \<Rightarrow> (e, Some err)
                       | None \<Rightarrow> (e\<lparr>e_sentHeader := True, e_down := e_down e @ [DownHeader md]\<rparr>, None)))
      in case err of
           Some err \<Rightarrow> (e\<lparr>e_freed := e_freed e + 1\<rparr>, Some err)
         | None \<Rightarrow>
             (let e = e\<lparr>e_freed := e_freed e + 1\<rparr>
              in case at_sends a k of
                   Some err \<Rightarrow> (e, Some err)
                 | None \<Rightarrow> relay_loop a (k + 1) ms (e\<lparr>e_sentMsg := True, e_down := e_down e @ [DownMsg m]\<rparr>)))"

definition relay :: "attempt \<Rightarrow> exchange \<Rightarrow> exchange \<times> go_error option" where
  "relay a e = relay_loop a 0 (at_msgs a) (e\<lparr>e_upstreamDone := False\<rparr>)"

definition canRetry :: "proxy_lib \<Rightarrow> proxy \<Rightarrow> attempt \<Rightarrow> exchange \<Rightarrow> go_error option \<Rightarrow> nat \<Rightarrow> nat \<Rightarrow> bool \<Rightarrow> bool" where
  "canRetry L p a e err i n fromSetup =
     (if i + 1 \<ge> n then False
      else if e_sentHeader e \<or> e_sentMsg e then False
      else if at_ctxErr a then False
      else if e_committed e then False
      else if prx_retryPolicy p = RetryNone then False
      else if fromSetup then pl_code L err = Unavailable
      else if prx_retryPolicy p \<noteq> RetryUnavailable then False
      else if pl_code L err \<in> {Unavailable, ResourceExhausted} then True
      else if pl_code L err = DeadlineExceeded then at_budget a
      else False)"

definition toStatus :: "proxy_lib \<Rightarrow> go_error option \<Rightarrow> go_error option" where
  "toStatus L err =
     (case err of
        None \<Rightarrow> None
      | Some e \<Rightarrow> (let (s, ok) = pl_from L e in if ok then Some e else Some s))"

definition orUnavailable :: "go_error option \<Rightarrow> go_error option" where
  "orUnavailable err =
     (case err of None \<Rightarrow> Some (Status_Error Unavailable ''no backends available'') | Some e \<Rightarrow> Some e)"

subsection \<open>The handler\<close>

definition world_clock :: "proxy_lib \<Rightarrow> 'c proxy_world \<Rightarrow> 'c proxy_world \<times> go_time" where
  "world_clock L w =
     (let v = pw_world w in (w\<lparr>pw_world := v\<lparr>w_tick := w_tick v + 1\<rparr>\<rparr>, pl_clock L (w_tick v)))"

definition px_emit :: "metric_call list \<Rightarrow> 'c proxy_world \<Rightarrow> 'c proxy_world" where
  "px_emit cs w = w\<lparr>pw_calls := pw_calls w @ cs\<rparr>"

text \<open>A call on the breaker behind a backend, and the callbacks it fires.\<close>

definition px_breaker ::
  "'c proxy_world \<Rightarrow> nat \<Rightarrow> (breaker \<Rightarrow> breaker \<times> fired) \<Rightarrow> 'c proxy_world" where
  "px_breaker w b f =
     (let v = pw_world w; (p, ev) = on_breaker (w_pool v) b f []
      in w\<lparr>pw_world := v\<lparr>w_pool := p, w_fired := w_fired v @ ev\<rparr>\<rparr>)"

definition exchange_record ::
  "proxy_lib \<Rightarrow> proxy \<Rightarrow> nat \<Rightarrow> probe \<Rightarrow> go_error option \<Rightarrow> go_time \<Rightarrow> 'c proxy_world \<Rightarrow> 'c proxy_world" where
  "exchange_record L p b probe err started w =
     (let (w, now) = world_clock L w;
          w = px_breaker w b (\<lambda>br. if IsFailure (pl_code L) err then Probe_Failure br probe now else Probe_Success br probe now)
      in if prx_m p
         then let (w, t) = world_clock L w
              in px_emit [ObserveUpstream (bk_id (backend_at (w_pool (pw_world w)) b)) (pl_name L (pl_code L err)) (time_sub t started)] w
         else w)"

definition failover :: "proxy_lib \<Rightarrow> proxy \<Rightarrow> go_error option \<Rightarrow> 'c proxy_world \<Rightarrow> 'c proxy_world" where
  "failover L p err w =
     (if prx_m p then px_emit [IncFailover (e_method (pw_ex w)) (ToLower (pl_name L (pl_code L err)))] w else w)"

text \<open>
  The body of the loop of \<open>run\<close> for candidate \<open>i\<close> of \<open>n\<close>: it either continues with the next candidate and
  \<open>lastErr\<close> (\<open>Inl\<close>) or returns (\<open>Inr\<close>). \<open>serve_attempt\<close> is the part after the reservation.
\<close>

type_synonym 'c answer = "'c proxy_world \<times> go_error option"

definition serve_attempt ::
  "proxy_lib \<Rightarrow> proxy \<Rightarrow> attempt \<Rightarrow> nat \<Rightarrow> nat \<Rightarrow> nat \<Rightarrow> probe \<Rightarrow> go_error option \<Rightarrow> 'c proxy_world \<Rightarrow> 'c answer + 'c answer" where
  "serve_attempt L p a n i b probe lastErr w =
     (let w = w\<lparr>pw_info := SetBackend (AddAttempt (pw_info w)) (bk_id (backend_at (w_pool (pw_world w)) b))\<rparr>;
          (w, started) = world_clock L w;
          (e, err) = install i a (pump (pw_ex w) (at_pump1 a));
          w = w\<lparr>pw_ex := e\<rparr>
      in case err of
           Some err \<Rightarrow>
             (if errors_Is err errNotReplayable
              then Inr (px_breaker w b (\<lambda>br. (Probe_Release br probe, [])), toStatus L (orUnavailable lastErr))
              else let w = exchange_record L p b probe (Some err) started w;
                       w = w\<lparr>pw_ex := pump (pw_ex w) (at_pump2 a)\<rparr>
                   in if canRetry L p a (pw_ex w) (Some err) i n True
                      then Inl (failover L p (Some err) w, Some err)
                      else Inr (w, toStatus L (Some err)))
         | None \<Rightarrow>
             (let (e, err) = relay a (pw_ex w);
                  w = exchange_record L p b probe err started (w\<lparr>pw_ex := e\<rparr>);
                  w = w\<lparr>pw_ex := pump (pw_ex w) (at_pump2 a)\<rparr>
              in if err \<noteq> None \<and> canRetry L p a (pw_ex w) err i n False
                 then Inl (failover L p err w, err)
                 else let e = pw_ex w;
                          e = (if e_upstreamDone e
                               then let e = forwardHeader 1 a e in e\<lparr>e_down := e_down e @ [DownTrailer (at_trailer a)]\<rparr>
                               else e)
                      in Inr (w\<lparr>pw_ex := e\<rparr>, toStatus L err)))"

definition run_body ::
  "proxy_lib \<Rightarrow> proxy \<Rightarrow> attempt \<Rightarrow> nat \<Rightarrow> nat \<Rightarrow> nat \<Rightarrow> go_error option \<Rightarrow> 'c proxy_world \<Rightarrow> 'c answer + 'c answer" where
  "run_body L p a n i b lastErr w =
     (let last = (i = n - 1);
          (w, t) = world_clock L w;
          (q, ev, probe, admitted) = Backend_Reserve (w_pool (pw_world w)) b t;
          w = w\<lparr>pw_world := (pw_world w)\<lparr>w_pool := q, w_fired := w_fired (pw_world w) @ ev\<rparr>\<rparr>
      in if \<not> admitted \<and> \<not> last then Inl (w, lastErr) else serve_attempt L p a n i b probe lastErr w)"

fun run_loop ::
  "proxy_lib \<Rightarrow> proxy \<Rightarrow> (nat \<Rightarrow> attempt) \<Rightarrow> nat \<Rightarrow> nat \<Rightarrow> nat list \<Rightarrow> go_error option \<Rightarrow> 'c proxy_world \<Rightarrow> 'c answer" where
  "run_loop L p ats n i [] lastErr w = (w, toStatus L (orUnavailable lastErr))"
| "run_loop L p ats n i (b # bs) lastErr w =
     (case run_body L p (ats i) n i b lastErr w of
        Inl (w, lastErr) \<Rightarrow> run_loop L p ats n (i + 1) bs lastErr w
      | Inr r \<Rightarrow> r)"

definition run :: "proxy_lib \<Rightarrow> proxy \<Rightarrow> (nat \<Rightarrow> attempt) \<Rightarrow> nat list \<Rightarrow> 'c proxy_world \<Rightarrow> 'c proxy_world \<times> go_error option" where
  "run L p ats candidates w = run_loop L p ats (length candidates) 0 candidates None w"

definition hashKey :: "proxy \<Rightarrow> go_context \<Rightarrow> request_info option \<Rightarrow> string" where
  "hashKey p ctx info =
     (if info \<noteq> None \<and> ResolvedHashKey info \<noteq> [] then ResolvedHashKey info else HashKey ctx (prx_hashHeader p))"

definition fresh_exchange :: "string \<Rightarrow> message option \<Rightarrow> bool \<Rightarrow> exchange" where
  "fresh_exchange method first halfClosed = \<lparr>e_method = method, e_first = first, e_sentHeader = False, e_sentMsg = False,
     e_upstreamDone = False, e_cs = None, e_pumping = False, e_committed = False, e_halfClosed = halfClosed,
     e_pumpDone = False, e_up = [], e_down = [], e_pumped = [], e_received = 0, e_freed = 0\<rparr>"

text \<open>\<open>handle\<close>: the method of the stream, the first receive from the client, and everything else as above.\<close>

definition handle ::
  "(string \<Rightarrow> 64 word) \<Rightarrow> proxy_lib \<Rightarrow> proxy \<Rightarrow> balancer \<Rightarrow> go_context \<Rightarrow> string option \<Rightarrow> go_error + message \<Rightarrow>
   (nat \<Rightarrow> attempt) \<Rightarrow> 'c proxy_world \<Rightarrow> 'c proxy_world \<times> balancer \<times> go_error option" where
  "handle h L p bal ctx method firstRecv ats w =
     (case method of
        None \<Rightarrow> (w, bal, Some (Status_Error Internal ''proxy: no method in the server stream context''))
      | Some method \<Rightarrow>
          (let (v, bal, candidates) = Pick h (pl_clock L) bal (hashKey p ctx (pw_info w)) (prx_maxAttempts p) (pw_world w);
               w = w\<lparr>pw_world := v\<rparr>
           in if candidates = [] then (w, bal, Some (Status_Error Unavailable ''no backends available''))
              else case firstRecv of
                     Inr m \<Rightarrow> (let (w, err) = run L p ats candidates (w\<lparr>pw_ex := fresh_exchange method (Some m) False\<rparr>) in (w, bal, err))
                   | Inl err \<Rightarrow>
                       (if errors_Is err EOF
                        then let (w, err) = run L p ats candidates (w\<lparr>pw_ex := fresh_exchange method None True\<rparr>) in (w, bal, err)
                        else (w, bal, Some err))))"

end
