(* ===== verification/Exchange.thy ===== *)
theory Exchange
  imports Proxy Pipeline
begin

text \<open>
  What a proxied RPC promises: the properties of \<^verbatim>\<open>internal/proxy\<close> over whole runs, for every behaviour
  of the upstreams, the client and the pump.
\<close>

subsection \<open>No reservation is left behind\<close>

abbreviation pool_of :: "'c proxy_world \<Rightarrow> 'c pool" where
  "pool_of w \<equiv> w_pool (pw_world w)"

abbreviation held_in :: "'c pool \<Rightarrow> bref \<Rightarrow> int" where
  "held_in p \<equiv> held_probes (pl_breakers p)"

lemma on_breaker_other:
  "ref \<noteq> bk_breaker (backend_at p b) \<Longrightarrow> held_in (fst (on_breaker p b f d)) ref = held_in p ref"
  by (auto simp: on_breaker_def Let_def split_beta held_put split: option.split)

lemma on_breaker_fst: "(\<And>br. fst (f br) = fst (g br)) \<Longrightarrow> fst (on_breaker p b f d) = fst (on_breaker p b g d')"
  by (simp add: on_breaker_def Let_def split_beta split: option.split)

lemma on_breaker_backends [simp]: "pl_backends (fst (on_breaker p b f d)) = pl_backends p"
  by (simp add: on_breaker_def Let_def split_beta split: option.split)

lemma Reserve_backends [simp]: "pl_backends (fst (Backend_Reserve p b t)) = pl_backends p"
  by (simp add: Backend_Reserve_def Let_def)

lemma Reserve_other:
  "ref \<noteq> bk_breaker (backend_at p b) \<Longrightarrow> held_in (fst (Backend_Reserve p b t)) ref = held_in p ref"
  by (simp add: Backend_Reserve_def Let_def on_breaker_other)

lemma reserve_then_resolve:
  assumes "pool_inv p" "b < length (pl_backends p)"
  shows "held_in (Backend_Resolve (fst (Backend_Reserve p b t)) b (fst (snd (snd (Backend_Reserve p b t)))) r u) ref \<le> held_in p ref"
proof (cases "ref = bk_breaker (backend_at p b)")
  case True
  let ?q = "Backend_Resolve (fst (Backend_Reserve p b t)) b (fst (snd (snd (Backend_Reserve p b t)))) r u"
  have "pool_held b ?q \<le> pool_held b p"
    using backend_gate.resolve_returns [of b p t r u] assms
    by (simp add: pool_ok_def backend_admit_def backend_resolve_def split_beta Let_def)
  moreover have "pl_backends ?q = pl_backends p" by (simp add: Backend_Resolve_def)
  ultimately show ?thesis using True by (simp add: pool_held_def held_probes_def split: option.splits)
next
  case False
  then show ?thesis by (simp add: Backend_Resolve_def on_breaker_other Reserve_other)
qed

lemma reserve_refused:
  assumes "pool_inv p" "b < length (pl_backends p)" "\<not> snd (snd (snd (Backend_Reserve p b t)))"
  shows "held_in (fst (Backend_Reserve p b t)) ref \<le> held_in p ref"
proof (cases "ref = bk_breaker (backend_at p b)")
  case True
  have ok: "pool_ok b p" using assms by (simp add: pool_ok_def)
  obtain br where br: "breaker_at (pl_breakers p) (bk_breaker (backend_at p b)) = Some br" "breaker_inv br"
    using pool_ok_breaker [OF ok] .
  obtain br' ev pr adm where a: "Admit br t = (br', ev, pr, adm)" by (cases "Admit br t")
  have "br_probes br' \<le> br_probes br" if "\<not> adm"
    using Admit_takes_slot [OF br(2) a] Admit_refused [OF a that] by simp
  then show ?thesis using True assms(3) br(1) a
    by (auto simp: Backend_Reserve_def on_breaker_def Let_def held_probes_def breaker_at_put [OF br(1)] split: if_splits)
qed (simp add: Reserve_other)

text \<open>The pool is as good as before, and no breaker holds more probes.\<close>

definition no_leak :: "'c pool \<Rightarrow> 'c pool \<Rightarrow> bool" where
  "no_leak p q = (pool_inv q \<and> pl_backends q = pl_backends p \<and> (\<forall>ref. held_in q ref \<le> held_in p ref))"

lemma no_leak_trans:
  assumes "no_leak p q" "no_leak q r"
  shows "no_leak p r"
proof -
  have "held_in r ref \<le> held_in p ref" for ref
    using assms order_trans [of "held_in r ref" "held_in q ref" "held_in p ref"] by (simp add: no_leak_def)
  then show ?thesis using assms by (simp add: no_leak_def)
qed

lemma reserve_no_leak:
  assumes "pool_inv p" "b < length (pl_backends p)" "Backend_Reserve p b t = (q, ev, pr, ok)"
  shows "\<not> ok \<Longrightarrow> no_leak p q" and "pool_inv q" and "pl_backends q = pl_backends p"
    and "no_leak p (Backend_Resolve q b pr r u)"
proof -
  have q: "q = fst (Backend_Reserve p b t)" "pr = fst (snd (snd (Backend_Reserve p b t)))" "ok = snd (snd (snd (Backend_Reserve p b t)))"
    using assms(3) by simp_all
  show inv: "pool_inv q" using Reserve_ok [of b p t] assms by (simp add: pool_ok_def)
  show bs: "pl_backends q = pl_backends p" unfolding q(1) by simp
  show "no_leak p q" if "\<not> ok"
    using inv bs reserve_refused [OF assms(1,2), of t] that assms(3) by (simp add: no_leak_def)
  have "pool_ok b q" using inv bs assms(2) by (simp add: pool_ok_def)
  then have "pool_inv (Backend_Resolve q b pr r u)" using Resolve_ok [of b q] by (simp add: pool_ok_def)
  moreover have "pl_backends (Backend_Resolve q b pr r u) = pl_backends q" by (simp add: Backend_Resolve_def)
  ultimately show "no_leak p (Backend_Resolve q b pr r u)"
    using reserve_then_resolve [OF assms(1,2), of t r u] bs assms(3) by (simp add: no_leak_def)
qed

text \<open>What the steps of the handler do to the pool.\<close>

lemma px_breaker_pool: "pool_of (px_breaker w b f) = fst (on_breaker (pool_of w) b f [])"
  by (simp add: px_breaker_def Let_def split_beta)

lemma record_pool:
  "\<exists>r t. pool_of (exchange_record L p b pr err st w) = Backend_Resolve (pool_of w) b pr r t"
proof -
  let ?t = "pl_clock L (w_tick (pw_world w))"
  let ?f = "\<lambda>br. if IsFailure (pl_code L) err then Probe_Failure br pr ?t else Probe_Success br pr ?t"
  have "pool_of (exchange_record L p b pr err st w) = fst (on_breaker (pool_of w) b ?f [])"
    by (simp add: exchange_record_def world_clock_def Let_def px_breaker_pool px_emit_def)
  also have "\<dots> = Backend_Resolve (pool_of w) b pr (if IsFailure (pl_code L) err then Resolved_Failure else Resolved_Success) ?t"
    unfolding Backend_Resolve_def by (rule on_breaker_fst) simp
  finally show ?thesis by blast
qed

lemma release_pool:
  "pool_of (px_breaker w b (\<lambda>br. (Probe_Release br pr, []))) = Backend_Resolve (pool_of w) b pr Resolved_Release 0"
  unfolding px_breaker_pool Backend_Resolve_def by (rule on_breaker_fst) simp

lemma pool_updates [simp]:
  "pool_of (w\<lparr>pw_ex := e\<rparr>) = pool_of w" "pool_of (w\<lparr>pw_info := i\<rparr>) = pool_of w"
  "pool_of (fst (world_clock L w)) = pool_of w" "pool_of (failover L p err w) = pool_of w"
  by (simp_all add: world_clock_def failover_def px_emit_def Let_def)

fun answer_world :: "'c answer + 'c answer \<Rightarrow> 'c proxy_world" where
  "answer_world (Inl r) = fst r"
| "answer_world (Inr r) = fst r"

lemma attempt_resolves:
  "\<exists>r u. pool_of (answer_world (serve_attempt L p a n i b pr le w)) = Backend_Resolve (pool_of w) b pr r u"
proof -
  let ?w = "fst (world_clock L (w\<lparr>pw_info := SetBackend (AddAttempt (pw_info w)) (bk_id (backend_at (pool_of w) b))\<rparr>))"
  let ?t = "snd (world_clock L (w\<lparr>pw_info := SetBackend (AddAttempt (pw_info w)) (bk_id (backend_at (pool_of w) b))\<rparr>))"
  obtain e err where ins: "install i a (pump (pw_ex ?w) (at_pump1 a)) = (e, err)"
    by (cases "install i a (pump (pw_ex ?w) (at_pump1 a))")
  obtain e' err' where rel: "relay a e = (e', err')" by (cases "relay a e")
  have q: "pool_of (?w\<lparr>pw_ex := x\<rparr>) = pool_of w" for x by simp
  have rec: "\<exists>r u. pool_of (exchange_record L p b pr er st (?w\<lparr>pw_ex := x\<rparr>)) = Backend_Resolve (pool_of w) b pr r u" for er st x
    using record_pool [of L p b pr er st "?w\<lparr>pw_ex := x\<rparr>"] unfolding q .
  have "\<exists>r u. pool_of (px_breaker (?w\<lparr>pw_ex := x\<rparr>) b (\<lambda>br. (Probe_Release br pr, []))) = Backend_Resolve (pool_of w) b pr r u" for x
    using release_pool [of "?w\<lparr>pw_ex := x\<rparr>" b pr] unfolding q by blast
  then show ?thesis using rec
    by (cases err) (simp_all add: serve_attempt_def Let_def split_beta ins rel)
qed

lemma body_no_leak:
  assumes "pool_inv (pool_of w)" "b < length (pl_backends (pool_of w))"
  shows "no_leak (pool_of w) (pool_of (answer_world (run_body L p a n i b le w)))"
proof -
  obtain q ev pr ok where res: "Backend_Reserve (pool_of w) b (snd (world_clock L w)) = (q, ev, pr, ok)"
    by (cases "Backend_Reserve (pool_of w) b (snd (world_clock L w))")
  note R = reserve_no_leak [OF assms res]
  let ?w = "(fst (world_clock L w))\<lparr>pw_world := (pw_world (fst (world_clock L w)))\<lparr>w_pool := q,
      w_fired := w_fired (pw_world (fst (world_clock L w))) @ ev\<rparr>\<rparr>"
  have "no_leak (pool_of w) (pool_of (answer_world (serve_attempt L p a n i b pr le ?w)))"
    using attempt_resolves [of L p a n i b pr le ?w] R(4) by auto
  then show ?thesis using R(1) by (simp add: run_body_def Let_def split_beta res)
qed

text \<open>Induction over the candidates: an invariant of the loop head, and what holds of the answer.\<close>

lemma run_loop_rule:
  assumes "I i le w" "\<forall>b \<in> set bs. C b"
    and step: "\<And>i b le w. I i le w \<Longrightarrow> C b \<Longrightarrow>
      (case run_body L p (ats i) n i b le w of Inl (w', le') \<Rightarrow> I (i + 1) le' w' | Inr r \<Rightarrow> Q r)"
    and stop: "\<And>i le w. I i le w \<Longrightarrow> Q (w, toStatus L (orUnavailable le))"
  shows "Q (run_loop L p ats n i bs le w)"
  using assms(1,2)
proof (induction bs arbitrary: i le w)
  case (Cons b bs)
  have *: "case run_body L p (ats i) n i b le w of Inl (w', le') \<Rightarrow> I (i + 1) le' w' | Inr r \<Rightarrow> Q r"
    using step Cons.prems by simp
  show ?case
  proof (cases "run_body L p (ats i) n i b le w")
    case (Inl r)
    then show ?thesis using * Cons by (cases r) simp
  next
    case (Inr r)
    then show ?thesis using * by simp
  qed
qed (simp add: stop)

lemma run_no_leak:
  assumes "pool_inv (pool_of w)" "\<forall>b \<in> set bs. b < length (pl_backends (pool_of w))"
  shows "no_leak (pool_of w) (pool_of (fst (run_loop L p ats n i bs le w)))"
proof (rule run_loop_rule [where I = "\<lambda>i le v. no_leak (pool_of w) (pool_of v)" and bs = bs
      and C = "\<lambda>b. b < length (pl_backends (pool_of w))"])
  show "no_leak (pool_of w) (pool_of w)" using assms(1) by (simp add: no_leak_def)
  fix i b le and v :: "'a proxy_world"
  assume v: "no_leak (pool_of w) (pool_of v)" and b: "b < length (pl_backends (pool_of w))"
  have "no_leak (pool_of w) (pool_of (answer_world (run_body L p (ats i) n i b le v)))"
    by (rule no_leak_trans [OF v body_no_leak]) (use v b in \<open>simp_all add: no_leak_def\<close>)
  then show "case run_body L p (ats i) n i b le v of
      Inl (w', le') \<Rightarrow> no_leak (pool_of w) (pool_of w') | Inr r \<Rightarrow> no_leak (pool_of w) (pool_of (fst r))"
    by (auto split: sum.split)
qed (use assms in simp_all)

subsection \<open>Induction over the attempts of an exchange\<close>

lemma ex_updates [simp]:
  "pw_ex (px_breaker w b f) = pw_ex w" "pw_ex (exchange_record L p b pr err st w) = pw_ex w"
  "pw_ex (failover L p err w) = pw_ex w" "pw_ex (fst (world_clock L w)) = pw_ex w"
  by (simp_all add: px_breaker_def exchange_record_def failover_def world_clock_def px_emit_def Let_def split_beta)

definition finish :: "attempt \<Rightarrow> exchange \<Rightarrow> exchange" where
  "finish a e =
     (if e_upstreamDone e then let e = forwardHeader 1 a e in e\<lparr>e_down := e_down e @ [DownTrailer (at_trailer a)]\<rparr> else e)"

lemma run_ex_rule:
  assumes init: "J i (pw_ex w)"
    and skip: "\<And>i e. J i e \<Longrightarrow> J (Suc i) e"
    and refused: "\<And>i e e2 er le. J i e \<Longrightarrow> install i (ats i) (pump e (at_pump1 (ats i))) = (e2, Some er) \<Longrightarrow>
      errors_Is er errNotReplayable \<Longrightarrow> K e2 (toStatus L (orUnavailable le))"
    and setup_retry: "\<And>i e e2 er e4. J i e \<Longrightarrow> install i (ats i) (pump e (at_pump1 (ats i))) = (e2, Some er) \<Longrightarrow>
      e4 = pump e2 (at_pump2 (ats i)) \<Longrightarrow> canRetry L p (ats i) e4 (Some er) i n True \<Longrightarrow> J (Suc i) e4"
    and setup_stop: "\<And>i e e2 er e4. J i e \<Longrightarrow> install i (ats i) (pump e (at_pump1 (ats i))) = (e2, Some er) \<Longrightarrow>
      e4 = pump e2 (at_pump2 (ats i)) \<Longrightarrow> K e4 (toStatus L (Some er))"
    and relay_retry: "\<And>i e e2 e3 er e4. J i e \<Longrightarrow> install i (ats i) (pump e (at_pump1 (ats i))) = (e2, None) \<Longrightarrow>
      relay (ats i) e2 = (e3, Some er) \<Longrightarrow> e4 = pump e3 (at_pump2 (ats i)) \<Longrightarrow>
      canRetry L p (ats i) e4 (Some er) i n False \<Longrightarrow> J (Suc i) e4"
    and relay_stop: "\<And>i e e2 e3 er e4. J i e \<Longrightarrow> install i (ats i) (pump e (at_pump1 (ats i))) = (e2, None) \<Longrightarrow>
      relay (ats i) e2 = (e3, er) \<Longrightarrow> e4 = pump e3 (at_pump2 (ats i)) \<Longrightarrow> K (finish (ats i) e4) (toStatus L er)"
    and stop: "\<And>i e le. J i e \<Longrightarrow> K e (toStatus L (orUnavailable le))"
  shows "K (pw_ex (fst (run_loop L p ats n i bs le w))) (snd (run_loop L p ats n i bs le w))"
proof (rule run_loop_rule [where I = "\<lambda>i le v. J i (pw_ex v)" and C = "\<lambda>_. True" and Q = "\<lambda>r. K (pw_ex (fst r)) (snd r)"])
  fix i b le and v :: "'a proxy_world"
  assume J: "J i (pw_ex v)"
  obtain q ev pr ok where res: "Backend_Reserve (pool_of v) b (snd (world_clock L v)) = (q, ev, pr, ok)"
    by (cases "Backend_Reserve (pool_of v) b (snd (world_clock L v))")
  let ?a = "ats i"
  obtain e2 err where ins: "install i ?a (pump (pw_ex v) (at_pump1 ?a)) = (e2, err)"
    by (cases "install i ?a (pump (pw_ex v) (at_pump1 ?a))")
  obtain e3 err' where rel: "relay ?a e2 = (e3, err')" by (cases "relay ?a e2")
  have at: "case serve_attempt L p ?a n i b pr le u of Inl (w', le') \<Rightarrow> J (i + 1) (pw_ex w') | Inr r \<Rightarrow> K (pw_ex (fst r)) (snd r)"
    if u: "pw_ex u = pw_ex v" for u :: "'a proxy_world"
  proof (cases err)
    case None
    have "pw_ex u = pw_ex v" by (rule u)
    then show ?thesis
      using relay_retry [OF J ins [unfolded None] _ refl, of e3] relay_stop [OF J ins [unfolded None] rel refl] rel ins None
      by (auto simp: serve_attempt_def Let_def split_beta finish_def)
  next
    case (Some er)
    then show ?thesis
      using refused [OF J ins [unfolded Some], of le] setup_retry [OF J ins [unfolded Some] refl]
        setup_stop [OF J ins [unfolded Some] refl] ins u
      by (auto simp: serve_attempt_def Let_def split_beta)
  qed
  show "case run_body L p ?a n i b le v of Inl (w', le') \<Rightarrow> J (i + 1) (pw_ex w') | Inr r \<Rightarrow> K (pw_ex (fst r)) (snd r)"
    using at skip [OF J] by (simp add: run_body_def Let_def split_beta res)
qed (use init stop in simp_all)

subsection \<open>The pump and the install\<close>

lemma pump_idle: "\<not> e_pumping e \<Longrightarrow> pump e evs = e"
  by (induction evs) (simp_all add: pump_def pump_step_def)

lemma pump_invariant:
  assumes "P e" "\<And>e ev. P e \<Longrightarrow> P (pump_step e ev)"
  shows "P (pump e evs)"
  using assms(1) by (induction evs arbitrary: e) (simp_all add: pump_def assms(2))

lemma pump_step_frame:
  "e_cs (pump_step e ev) = e_cs e" "e_down (pump_step e ev) = e_down e" "e_first (pump_step e ev) = e_first e"
  "e_sentHeader (pump_step e ev) = e_sentHeader e" "e_sentMsg (pump_step e ev) = e_sentMsg e"
  "e_upstreamDone (pump_step e ev) = e_upstreamDone e" "e_pumping (pump_step e ev) = e_pumping e"
  by (simp_all add: pump_step_def split: pump_event.split)

lemma pump_frame [simp]:
  "e_cs (pump e evs) = e_cs e" "e_down (pump e evs) = e_down e" "e_first (pump e evs) = e_first e"
  "e_sentHeader (pump e evs) = e_sentHeader e" "e_sentMsg (pump e evs) = e_sentMsg e"
  "e_upstreamDone (pump e evs) = e_upstreamDone e" "e_pumping (pump e evs) = e_pumping e"
  by (induction evs arbitrary: e) (simp_all add: pump_def pump_step_frame)

lemma install_error: "install s a e = (e', Some err) \<Longrightarrow> e' = e"
  by (auto simp: install_def Let_def split: if_splits option.splits)

lemma install_ok:
  assumes "install s a e = (e', None)"
  shows "\<not> e_committed e" "e_cs e' = Some s" "e_down e' = e_down e" "e_sentHeader e' = e_sentHeader e" "e_sentMsg e' = e_sentMsg e"
    "e_first e' = e_first e" "e_committed e' = e_committed e" "e_pumped e' = e_pumped e" "e_pumpDone e' = e_pumpDone e"
    "e_received e' = e_received e" "e_freed e' = e_freed e"
    "e_up e' = e_up e @ (case e_first e of None \<Rightarrow> [] | Some m \<Rightarrow> [(s, UpMsg m)]) @ (if e_halfClosed e then [(s, UpClose)] else [])"
  using assms by (auto simp: install_def Let_def split: if_splits option.splits)

subsection \<open>The relay\<close>

lemma forwardHeader_frame [simp]:
  "e_cs (forwardHeader c a e) = e_cs e" "e_up (forwardHeader c a e) = e_up e" "e_pumped (forwardHeader c a e) = e_pumped e"
  "e_first (forwardHeader c a e) = e_first e" "e_committed (forwardHeader c a e) = e_committed e"
  "e_pumping (forwardHeader c a e) = e_pumping e" "e_pumpDone (forwardHeader c a e) = e_pumpDone e"
  "e_sentMsg (forwardHeader c a e) = e_sentMsg e" "e_halfClosed (forwardHeader c a e) = e_halfClosed e"
  "e_received (forwardHeader c a e) = e_received e" "e_freed (forwardHeader c a e) = e_freed e"
  "e_upstreamDone (forwardHeader c a e) = e_upstreamDone e"
  by (simp_all add: forwardHeader_def split: sum.split)

lemma relay_loop_frame:
  "relay_loop a k ms e = (e', err) \<Longrightarrow>
   e_cs e' = e_cs e \<and> e_up e' = e_up e \<and> e_pumped e' = e_pumped e \<and> e_first e' = e_first e \<and> e_committed e' = e_committed e \<and>
   e_pumping e' = e_pumping e \<and> e_pumpDone e' = e_pumpDone e \<and> e_halfClosed e' = e_halfClosed e \<and>
   e_received e' + e_freed e = e_received e + e_freed e'"
proof (induction a k ms e rule: relay_loop.induct)
  case (1 a k e)
  then show ?case by (auto simp: Let_def split: if_splits)
next
  case (2 a k m ms e)
  then show ?case by (auto simp: Let_def split: if_splits sum.splits option.splits)
qed

subsection \<open>A concrete exchange\<close>

text \<open>Two candidates: the first cannot be reached, the second answers with two messages.\<close>

definition sample_plib :: proxy_lib where
  "sample_plib = \<lparr>pl_code = doc_code, pl_name = (\<lambda>_. ''x''), pl_from = (\<lambda>e. (e, True)), pl_clock = int\<rparr>"
definition sample_proxy :: proxy where
  "sample_proxy = \<lparr>prx_m = True, prx_hashHeader = [], prx_maxAttempts = 2, prx_retryPolicy = RetryConnectFailure\<rparr>"
definition good_attempt :: attempt where
  "good_attempt = \<lparr>at_open = None, at_firstSend = None, at_firstRecv = None, at_msgs = [''a'', ''b''], at_end = EOF,
     at_header = Inr [(''h'', ''1'')], at_trailer = [(''t'', ''2'')], at_sendHeader = (\<lambda>_. None), at_sends = (\<lambda>_. None),
     at_pump1 = [], at_pump2 = [PMsg ''y'' None, PErr EOF], at_ctxErr = False, at_budget = True\<rparr>"
definition sample_attempts :: "nat \<Rightarrow> attempt" where
  "sample_attempts i = (if i = 0 then good_attempt\<lparr>at_open := Some (Status_Error Unavailable [])\<rparr> else good_attempt)"
definition sample_px :: "nat proxy_world" where
  "sample_px = \<lparr>pw_world = two_world, pw_calls = [], pw_info = None, pw_ex = fresh_exchange ''m'' (Some ''x'') False\<rparr>"



abbreviation "sample_ex \<equiv> fresh_exchange ''m'' (Some ''x'') False"

lemma good_install: "snd (install 1 good_attempt (pump sample_ex (at_pump1 good_attempt))) = None"
  by code_simp
lemma good_relay: "snd (relay good_attempt (fst (install 1 good_attempt (pump sample_ex (at_pump1 good_attempt))))) = None"
  by code_simp

lemma good_finish: "e_down (finish good_attempt (pump (fst (relay good_attempt (fst (install 1 good_attempt (pump sample_ex (at_pump1 good_attempt)))))) (at_pump2 good_attempt)))
   = [DownHeader [(''h'', ''1'')], DownMsg ''a'', DownMsg ''b'', DownTrailer [(''t'', ''2'')]]"
   by code_simp

lemma good_serve:
  assumes "pw_ex w = sample_ex"
  shows "\<exists>w'. serve_attempt sample_plib sample_proxy good_attempt n 1 b pr le w = Inr (w', None) \<and>
    e_down (pw_ex w') = [DownHeader [(''h'', ''1'')], DownMsg ''a'', DownMsg ''b'', DownTrailer [(''t'', ''2'')]]"
  using assms good_install good_relay good_finish by (simp add: serve_attempt_def Let_def split_beta finish_def toStatus_def)

lemma bad_serve:
  assumes "pw_ex w = fresh_exchange m (Some ''x'') False" "i + 1 < n"
  shows "\<exists>w'. serve_attempt sample_plib sample_proxy (good_attempt\<lparr>at_open := Some (Status_Error Unavailable [])\<rparr>) n i b pr le w = Inl (w', Some (Status_Error Unavailable [])) \<and>
     pw_ex w' = pw_ex w"
  using assms by (simp add: serve_attempt_def Let_def split_beta fresh_exchange_def
   good_attempt_def install_def pump_idle canRetry_def sample_proxy_def errNotReplayable_def sample_plib_def doc_code_def
   RetryConnectFailure_def RetryNone_def)


lemma run_body_cases:
  obtains u where "pw_ex u = pw_ex w" "run_body L p a n i b le w = Inl (u, le)" "i \<noteq> n - 1"
  | u pr where "pw_ex u = pw_ex w" "run_body L p a n i b le w = serve_attempt L p a n i b pr le u"
proof -
  let ?r = "Backend_Reserve (pool_of w) b (snd (world_clock L w))"
  let ?u = "(fst (world_clock L w))\<lparr>pw_world := (pw_world (fst (world_clock L w)))\<lparr>w_pool := fst ?r,
      w_fired := w_fired (pw_world (fst (world_clock L w))) @ fst (snd ?r)\<rparr>\<rparr>"
  have "pw_ex ?u = pw_ex w" by simp
  moreover have "run_body L p a n i b le w =
    (if \<not> snd (snd (snd ?r)) \<and> i \<noteq> n - 1 then Inl (?u, le) else serve_attempt L p a n i b (fst (snd (snd ?r))) le ?u)"
    by (simp add: run_body_def Let_def split_beta)
  ultimately show ?thesis using that by metis
qed

lemma good_run:
  "\<exists>w'. run sample_plib sample_proxy sample_attempts [0, 1] sample_px = (w', None) \<and>
   e_down (pw_ex w') = [DownHeader [(''h'', ''1'')], DownMsg ''a'', DownMsg ''b'', DownTrailer [(''t'', ''2'')]]"
proof -
  have px: "pw_ex sample_px = sample_ex" by (simp add: sample_px_def)
  obtain w1 le where 1: "run_body sample_plib sample_proxy (sample_attempts 0) 2 0 0 None sample_px = Inl (w1, le)" "pw_ex w1 = sample_ex"
    using bad_serve [of _ "''m''" 0 2 0 _ None] px
    by (rule_tac run_body_cases [of sample_px sample_plib sample_proxy "sample_attempts 0" 2 0 0 None])
       (force simp: sample_attempts_def)+
  obtain w2 where 2: "run_body sample_plib sample_proxy (sample_attempts 1) 2 1 1 le w1 = Inr (w2, None)" 
   "e_down (pw_ex w2) = [DownHeader [(''h'', ''1'')], DownMsg ''a'', DownMsg ''b'', DownTrailer [(''t'', ''2'')]]"
    using good_serve [of _ 2 1 _ le] 1(2)
    by (rule_tac run_body_cases [of w1 sample_plib sample_proxy "sample_attempts 1" 2 1 1 le])
       (force simp: sample_attempts_def)+
  then show ?thesis using 1(1) by (auto simp: run_def numeral_2_eq_2)
qed

subsection \<open>What reaches the client\<close>

text \<open>The client has seen the header and the first \<open>k\<close> messages of one attempt, or nothing.\<close>

definition relayed :: "attempt \<Rightarrow> nat \<Rightarrow> exchange \<Rightarrow> bool" where
  "relayed a k e =
     (k \<le> length (at_msgs a) \<and>
      (if e_sentHeader e then \<exists>md. at_header a = Inr md \<and> e_down e = DownHeader md # map DownMsg (take k (at_msgs a))
       else k = 0 \<and> e_down e = []))"

lemma relayed_forwardHeader: "relayed a k e \<Longrightarrow> relayed a k (forwardHeader c a e)"
  by (auto simp: relayed_def forwardHeader_def split: sum.split)

lemma relayed_cong: "e_sentHeader e' = e_sentHeader e \<Longrightarrow> e_down e' = e_down e \<Longrightarrow> relayed a k e' = relayed a k e"
  by (simp add: relayed_def)

lemma relayed_next:
  assumes "relayed a k e" "e_sentHeader e" "drop k (at_msgs a) = m # ms"
  shows "relayed a (Suc k) (e\<lparr>e_freed := f, e_sentMsg := True, e_down := e_down e @ [DownMsg m]\<rparr>)"
proof -
  have k: "k < length (at_msgs a)" using assms(3) by (rule_tac ccontr) simp
  then have "take (Suc k) (at_msgs a) = take k (at_msgs a) @ [m]"
    using assms(3) by (simp add: take_Suc_conv_app_nth nth_via_drop)
  then show ?thesis using assms k by (auto simp: relayed_def)
qed

text \<open>The part of \<open>relay\<close> that sends the header before the first message.\<close>

definition header_step :: "attempt \<Rightarrow> exchange \<Rightarrow> exchange \<times> go_error option" where
  "header_step a e =
     (if e_sentHeader e then (e, None)
      else case at_header a of
             Inl err \<Rightarrow> (e\<lparr>e_upstreamDone := True\<rparr>, Some err)
           | Inr md \<Rightarrow>
               (case at_sendHeader a 0 of
                  Some err \<Rightarrow> (e, Some err)
                | None \<Rightarrow> (e\<lparr>e_sentHeader := True, e_down := e_down e @ [DownHeader md]\<rparr>, None)))"

lemma relay_loop_Cons:
  "relay_loop a k (m # ms) e =
     (let (e, err) = header_step a (e\<lparr>e_received := e_received e + 1\<rparr>); e = e\<lparr>e_freed := e_freed e + 1\<rparr>
      in case err of
           Some err \<Rightarrow> (e, Some err)
         | None \<Rightarrow>
             (case at_sends a k of
                Some err \<Rightarrow> (e, Some err)
              | None \<Rightarrow> relay_loop a (Suc k) ms (e\<lparr>e_sentMsg := True, e_down := e_down e @ [DownMsg m]\<rparr>)))"
  by (simp add: header_step_def Let_def split: option.split)

lemma header_step_view:
  assumes "relayed a k e" "header_step a (e\<lparr>e_received := n\<rparr>) = (e', err)"
  shows "relayed a k e'" "err = None \<Longrightarrow> e_sentHeader e'"
  using assms by (auto simp: header_step_def relayed_def split: sum.splits option.splits if_splits)

lemma relay_loop_view:
  "relay_loop a k ms e = (e', err) \<Longrightarrow> relayed a k e \<Longrightarrow> drop k (at_msgs a) = ms \<Longrightarrow>
   \<exists>j. relayed a j e' \<and> (err = None \<longrightarrow> j = length (at_msgs a) \<and> e_upstreamDone e')"
proof (induction ms arbitrary: k e)
  case Nil
  have "k = length (at_msgs a)" using Nil by (simp add: relayed_def)
  moreover have "relayed a k (e\<lparr>e_upstreamDone := True\<rparr>)" using Nil(2) relayed_cong [of "e\<lparr>e_upstreamDone := True\<rparr>" e] by simp
  ultimately show ?case using Nil relayed_forwardHeader [of a k "e\<lparr>e_upstreamDone := True\<rparr>"]
    by (auto simp: Let_def split: if_splits)
next
  case (Cons m ms)
  obtain f er where hs: "header_step a (e\<lparr>e_received := e_received e + 1\<rparr>) = (f, er)" by fastforce
  note f = header_step_view [OF Cons.prems(2) hs]
  note run = Cons.prems(1) [unfolded relay_loop_Cons hs Let_def prod.case]
  have stop: ?case if "e' = f\<lparr>e_freed := e_freed f + 1\<rparr>" "err \<noteq> None"
    using f(1) that relayed_cong [of e' f a k] by auto
  show ?case
  proof (cases "er = None \<and> at_sends a k = None")
    case True
    have "drop (Suc k) (at_msgs a) = ms" using Cons.prems(3) by (metis drop_Suc tl_drop list.sel(3))
    moreover have "relayed a (Suc k) (f\<lparr>e_freed := e_freed f + 1, e_sentMsg := True, e_down := e_down f @ [DownMsg m]\<rparr>)"
      using relayed_next [OF f(1) _ Cons.prems(3)] f(2) True by simp
    ultimately show ?thesis using Cons.IH [of "Suc k"] run True by simp
  next
    case False
    then show ?thesis using run stop by (cases er; cases "at_sends a k") auto
  qed
qed

text \<open>The client's view and the buffers at the head of the loop and at the end.\<close>

lemma toStatus_None: "toStatus L err = None \<longleftrightarrow> err = None"
  by (simp add: toStatus_def split_beta Let_def split: option.split)

lemma pump_buffers: "e_received e = e_freed e \<Longrightarrow> e_received (pump e evs) = e_freed (pump e evs)"
  by (rule pump_invariant) (simp_all add: pump_step_def split: pump_event.split)

definition client_saw :: "attempt \<Rightarrow> nat \<Rightarrow> exchange \<Rightarrow> bool" where
  "client_saw a k e =
     list_ex (\<lambda>(hdr, tl). e_down e = hdr @ map DownMsg (take k (at_msgs a)) @ tl)
       (List.product ((if k = 0 then [[]] else []) @ (case at_header a of Inr md \<Rightarrow> [[DownHeader md]] | Inl _ \<Rightarrow> []))
                     [[], [DownTrailer (at_trailer a)]])"

lemma finish_view:
  assumes "relayed a k e"
  shows "client_saw a k (finish a e)" and "e_upstreamDone e \<Longrightarrow> last (e_down (finish a e)) = DownTrailer (at_trailer a)"
proof -
  have "relayed a k (forwardHeader 1 a e)" by (rule relayed_forwardHeader [OF assms])
  then show "client_saw a k (finish a e)" using assms
    by (auto simp: client_saw_def finish_def relayed_def Let_def split: if_splits)
qed (simp add: finish_def Let_def)

text \<open>An exchange of which the client has seen nothing, and one whose client has seen one attempt.\<close>

definition unseen :: "exchange \<Rightarrow> bool" where
  "unseen e = (\<not> e_sentHeader e \<and> e_down e = [] \<and> e_received e = e_freed e)"

definition saw_one :: "(nat \<Rightarrow> attempt) \<Rightarrow> exchange \<Rightarrow> go_error option \<Rightarrow> bool" where
  "saw_one ats e err = (e_received e = e_freed e \<and> (\<exists>i k. client_saw (ats i) k e \<and>
     (err = None \<longrightarrow> k = length (at_msgs (ats i)) \<and> last (e_down e) = DownTrailer (at_trailer (ats i)))))"

lemma unseen_saw_one: "unseen e \<Longrightarrow> err \<noteq> None \<Longrightarrow> saw_one ats e err"
  by (auto simp: unseen_def saw_one_def client_saw_def)

lemma unseen_pump: "unseen e \<Longrightarrow> unseen (pump e evs)"
  using pump_buffers by (simp add: unseen_def)

lemma unseen_install: "unseen e \<Longrightarrow> install i a e = (e2, r) \<Longrightarrow> unseen e2"
  using install_ok [of i a e e2] install_error [of i a e e2] by (cases r) (auto simp: unseen_def)

lemma unseen_relay:
  assumes "unseen e" "install i a (pump e (at_pump1 a)) = (e2, None)" "relay a e2 = (e3, er)" "e4 = pump e3 (at_pump2 a)"
  shows "e_received e4 = e_freed e4 \<and> (\<exists>k. relayed a k e4 \<and> (er = None \<longrightarrow> k = length (at_msgs a) \<and> e_upstreamDone e4))"
proof -
  have e2: "unseen e2" by (rule unseen_install [OF unseen_pump [OF assms(1)] assms(2)])
  note run = assms(3) [unfolded relay_def]
  have "relayed a 0 (e2\<lparr>e_upstreamDone := False\<rparr>)" using e2 by (simp add: unseen_def relayed_def)
  from relay_loop_view [OF run this] obtain k where
    k: "relayed a k e3" "er = None \<longrightarrow> k = length (at_msgs a) \<and> e_upstreamDone e3" by auto
  have "e_received e3 = e_freed e3" using relay_loop_frame [OF run] e2 by (simp add: unseen_def)
  then show ?thesis using k assms(4) pump_buffers relayed_cong [of e4 e3] by auto
qed

lemma finish_saw_one:
  assumes "e_received e = e_freed e" "\<exists>k. relayed (ats i) k e \<and> (er = None \<longrightarrow> k = length (at_msgs (ats i)) \<and> e_upstreamDone e)"
  shows "saw_one ats (finish (ats i) e) (toStatus L er)"
proof -
  have "e_received (finish (ats i) e) = e_freed (finish (ats i) e)" using assms(1) by (simp add: finish_def Let_def)
  then show ?thesis using assms(2) finish_view [of "ats i" _ e] unfolding saw_one_def toStatus_None by blast
qed

text \<open>
  C2: The client sees one attempt only. Whatever the upstreams, the client and the pump do, what the
  handler sends downstream is the header, a prefix of the messages and possibly the trailer of a
  single attempt; when the RPC succeeds, it is all of its messages followed by its trailer. Every
  buffer that the pump and the relay received has been freed.
\<close>

theorem client_sees_one_attempt:
  assumes "pw_ex w = fresh_exchange method first hc"
    and "run L p ats candidates w = (w', err)"
  shows "e_received (pw_ex w') = e_freed (pw_ex w') \<and>
    (\<exists>i k. client_saw (ats i) k (pw_ex w') \<and>
      (err = None \<longrightarrow> k = length (at_msgs (ats i)) \<and> last (e_down (pw_ex w')) = DownTrailer (at_trailer (ats i))))"
proof -
  have start: "unseen (pw_ex w)" using assms(1) by (simp add: unseen_def fresh_exchange_def)
  have "saw_one ats (pw_ex (fst (run L p ats candidates w))) (snd (run L p ats candidates w))"
    unfolding run_def
  proof (rule run_ex_rule [where J = "\<lambda>i. unseen"])
    fix i e e2 e3 er e4
    assume J: "unseen e" and ins: "install i (ats i) (pump e (at_pump1 (ats i))) = (e2, None)"
      and e4: "e4 = pump e3 (at_pump2 (ats i))"
    show "unseen e4" if "relay (ats i) e2 = (e3, Some er)" "canRetry L p (ats i) e4 (Some er) i (length candidates) False"
      using unseen_relay [OF J ins that(1) e4] that(2) by (auto simp: unseen_def relayed_def canRetry_def split: if_splits)
    show "saw_one ats (finish (ats i) e4) (toStatus L er)" if "relay (ats i) e2 = (e3, er)" for er
      using unseen_relay [OF J ins that e4] by (intro finish_saw_one) blast+
  next
    fix i e e2 er e4
    assume J: "unseen e" and ins: "install i (ats i) (pump e (at_pump1 (ats i))) = (e2, Some er)" and e4: "e4 = pump e2 (at_pump2 (ats i))"
    show "unseen e4" unfolding e4 by (rule unseen_pump [OF unseen_install [OF unseen_pump [OF J] ins]])
    then show "saw_one ats e4 (toStatus L (Some er))" by (rule unseen_saw_one) (simp add: toStatus_None)
  next
    show "saw_one ats e2 (toStatus L (orUnavailable le))"
      if "unseen e" "install i (ats i) (pump e (at_pump1 (ats i))) = (e2, Some er)" for i e e2 er le
      by (rule unseen_saw_one [OF unseen_install [OF unseen_pump [OF that(1)] that(2)]])
         (simp add: toStatus_None orUnavailable_def split: option.split)
  next
    show "saw_one ats e (toStatus L (orUnavailable le))" if "unseen e" for e le
      using that by (rule unseen_saw_one) (simp add: toStatus_None orUnavailable_def split: option.split)
  qed (use start in simp_all)
  then show ?thesis using assms(2) by (simp add: saw_one_def)
qed

theorem client_sees_one_attempt_witness:
  "\<exists>w' i. run sample_plib sample_proxy sample_attempts [0, 1] sample_px = (w', None) \<and>
     client_saw (sample_attempts i) (length (at_msgs (sample_attempts i))) (pw_ex w') \<and>
     e_down (pw_ex w') = [DownHeader [(''h'', ''1'')], DownMsg ''a'', DownMsg ''b'', DownTrailer [(''t'', ''2'')]]"
proof -
  obtain w' where w': "run sample_plib sample_proxy sample_attempts [0, 1] sample_px = (w', None)"
    "e_down (pw_ex w') = [DownHeader [(''h'', ''1'')], DownMsg ''a'', DownMsg ''b'', DownTrailer [(''t'', ''2'')]]"
    using good_run by blast
  then show ?thesis
    using client_sees_one_attempt [of sample_px "''m''" "Some ''x''" False, OF _ w'(1)] by (auto simp: sample_px_def)
qed

subsection \<open>What reaches the backends\<close>

definition upstream_view :: "exchange \<Rightarrow> nat \<Rightarrow> up_event list" where
  "upstream_view e s = map snd (filter (\<lambda>x. fst x = s) (e_up e))"

definition first_events :: "exchange \<Rightarrow> up_event list" where
  "first_events e = (case e_first e of None \<Rightarrow> [] | Some m \<Rightarrow> [UpMsg m])"

text \<open>
  The state of the client-to-upstream direction: the stream of the pump has the first message and what the pump
  has sent on it, every other stream at most the replayed first message and the half-close.
\<close>

definition up_inv :: "nat \<Rightarrow> exchange \<Rightarrow> bool" where
  "up_inv n e =
     ((\<forall>x \<in> set (e_up e). fst x < n) \<and>
      (\<not> e_committed e \<longrightarrow> e_pumped e = []) \<and> (e_pumpDone e \<longrightarrow> e_pumping e) \<and>
      (\<forall>s. e_cs e \<noteq> Some s \<longrightarrow> upstream_view e s \<in> {[], first_events e, first_events e @ [UpClose]}) \<and>
      (case e_cs e of
         None \<Rightarrow> \<not> e_pumping e \<and> e_up e = []
       | Some c \<Rightarrow> c < n \<and>
           (if e_pumping e \<and> \<not> e_pumpDone e
            then \<not> e_halfClosed e \<and> upstream_view e c = first_events e @ map UpMsg (e_pumped e)
            else e_halfClosed e \<and> upstream_view e c = first_events e @ map UpMsg (e_pumped e) @ [UpClose]
               \<or> \<not> e_halfClosed e \<and> e_committed e \<and>
                 upstream_view e c \<in> {first_events e @ map UpMsg (e_pumped e), first_events e @ map UpMsg (butlast (e_pumped e))})))"

lemma upstream_view_cong: "e_up e' = e_up e \<Longrightarrow> upstream_view e' = upstream_view e"
  by (simp add: upstream_view_def fun_eq_iff)

lemma pump_step_up:
  assumes "e_pumping e" "\<not> e_pumpDone e" "e_cs e = Some c"
  shows "e_up (pump_step e ev) = e_up e @
    (case ev of PErr err \<Rightarrow> if errors_Is err EOF then [(c, UpClose)] else [] | PMsg m res \<Rightarrow> if res = None then [(c, UpMsg m)] else [])"
  using assms by (simp add: pump_step_def split: pump_event.split)

lemma pump_step_up_inv:
  assumes "up_inv n e"
  shows "up_inv n (pump_step e ev)"
proof (cases "e_pumping e \<and> \<not> e_pumpDone e")
  case True
  then obtain c where c: "e_cs e = Some c" "c < n" "\<not> e_halfClosed e" "upstream_view e c = first_events e @ map UpMsg (e_pumped e)"
    using assms by (auto simp: up_inv_def split: option.splits)
  have o: "\<forall>s. s \<noteq> c \<longrightarrow> upstream_view e s \<in> {[], first_events e, first_events e @ [UpClose]}"
    and n: "\<forall>x \<in> set (e_up e). fst x < n" and p: "\<not> e_committed e \<longrightarrow> e_pumped e = []"
    using assms c(1) by (auto simp: up_inv_def)
  have v: "upstream_view (pump_step e ev) s = upstream_view e s @ (if s = c then
      (case ev of PErr err \<Rightarrow> if errors_Is err EOF then [UpClose] else [] | PMsg m res \<Rightarrow> if res = None then [UpMsg m] else []) else [])" for s
    using True c(1) by (simp add: pump_step_up upstream_view_def split: pump_event.split)
  have fe: "first_events (pump_step e ev) = first_events e" by (simp add: first_events_def pump_step_frame)
  have n': "\<forall>x \<in> set (e_up (pump_step e ev)). fst x < n"
    using True c n by (auto simp: pump_step_up split: pump_event.split)
  show ?thesis
  proof (cases ev)
    case (PMsg m res)
    have f: "e_committed (pump_step e ev)" "e_pumpDone (pump_step e ev) = (res \<noteq> None)" "e_halfClosed (pump_step e ev) = e_halfClosed e"
      "e_pumped (pump_step e ev) = e_pumped e @ [m]" using True PMsg by (simp_all add: pump_step_def)
    show ?thesis using True c o p n' f(1) unfolding up_inv_def fe v f pump_step_frame by (auto simp: PMsg)
  next
    case (PErr err)
    have f: "e_committed (pump_step e ev) = (e_committed e \<or> \<not> errors_Is err EOF)" "e_pumpDone (pump_step e ev)"
      "e_halfClosed (pump_step e ev) = (e_halfClosed e \<or> errors_Is err EOF)"
      "e_pumped (pump_step e ev) = e_pumped e" using True PErr by (simp_all add: pump_step_def)
    show ?thesis using True c o p n' f(2) unfolding up_inv_def fe v f pump_step_frame by (simp add: PErr)
  qed
next
  case False
  then show ?thesis using assms by (auto simp: pump_step_def)
qed

lemma pump_up_inv: "up_inv n e \<Longrightarrow> up_inv n (pump e evs)"
  by (rule pump_invariant) (simp_all add: pump_step_up_inv)

lemma up_inv_mono: "up_inv n e \<Longrightarrow> n \<le> m \<Longrightarrow> up_inv m e"
  by (fastforce simp: up_inv_def split: option.splits)

text \<open>A new stream: only while nothing is committed, so the earlier ones have at most the first message.\<close>

lemma install_up_inv:
  assumes inv: "up_inv s e" and ins: "install s a e = (e', None)"
  shows "up_inv (Suc s) e'"
proof -
  note I = install_ok [OF ins]
  have fe: "first_events e' = first_events e" by (simp add: first_events_def I)
  have new: "upstream_view e s = []" using inv by (auto simp: up_inv_def upstream_view_def filter_empty_conv)
  have v: "upstream_view e' r = upstream_view e r @ (if r = s then first_events e @ (if e_halfClosed e then [UpClose] else []) else [])" for r
    using I(12) by (auto simp: upstream_view_def first_events_def split: option.split)
  have pumped: "e_pumped e = []" using inv I(1) by (simp add: up_inv_def)
  have old: "upstream_view e r \<in> {[], first_events e, first_events e @ [UpClose]}" for r
    using inv I(1) pumped by (cases "e_cs e = Some r") (auto simp: up_inv_def split: if_splits)
  have hc: "e_halfClosed e' = e_halfClosed e" "e_pumping e' = (e_pumping e \<or> \<not> e_halfClosed e)"
    using ins by (auto simp: install_def Let_def split: if_splits option.splits)
  have "e_pumpDone e \<Longrightarrow> e_pumping e \<Longrightarrow> e_halfClosed e"
    using inv I(1) by (cases "e_cs e") (auto simp: up_inv_def)
  moreover have "e_pumping e \<Longrightarrow> \<not> e_pumpDone e \<Longrightarrow> \<not> e_halfClosed e"
    using inv by (cases "e_cs e") (auto simp: up_inv_def)
  moreover have "\<forall>x \<in> set (e_up e'). fst x < Suc s"
    using inv I(12) by (auto simp: up_inv_def less_Suc_eq split: option.splits if_splits)
  moreover have "\<not> e_pumping e \<Longrightarrow> \<not> e_pumpDone e" using inv by (auto simp: up_inv_def)
  ultimately show ?thesis
    using old new pumped by (auto simp: up_inv_def I fe v hc)
qed

lemma up_inv_cong:
  assumes "e_cs e' = e_cs e" "e_up e' = e_up e" "e_pumped e' = e_pumped e" "e_first e' = e_first e" "e_committed e' = e_committed e"
    "e_pumping e' = e_pumping e" "e_pumpDone e' = e_pumpDone e" "e_halfClosed e' = e_halfClosed e"
  shows "up_inv n e' = up_inv n e"
  unfolding up_inv_def first_events_def upstream_view_def assms ..

lemma finish_up [simp]:
  "e_cs (finish a e) = e_cs e" "e_up (finish a e) = e_up e" "e_pumped (finish a e) = e_pumped e" "e_first (finish a e) = e_first e"
  "e_committed (finish a e) = e_committed e" "e_pumping (finish a e) = e_pumping e" "e_pumpDone (finish a e) = e_pumpDone e"
  "e_halfClosed (finish a e) = e_halfClosed e"
  by (simp_all add: finish_def Let_def)

text \<open>Whether only the stream of the pump has been sent anything.\<close>

definition only_current :: "exchange \<Rightarrow> bool" where
  "only_current e = list_all (\<lambda>x. e_cs e = Some (fst x)) (e_up e)"

lemma pump_only_current: "only_current e \<Longrightarrow> only_current (pump e evs)"
proof (rule pump_invariant)
  show "only_current (pump_step e ev)" if "only_current e" for e ev
    using that unfolding only_current_def pump_step_def by (simp split: pump_event.split option.split)
qed

lemma install_only_current:
  assumes "install s a e = (e', None)" "e_up e = []"
  shows "only_current e'"
  using install_ok(2,12) [OF assms(1)] assms(2) by (simp add: only_current_def split: option.split)

lemma run_upstream:
  assumes init: "pw_ex w = fresh_exchange method first hc"
  shows "\<exists>n. up_inv n (pw_ex (fst (run L p ats candidates w))) \<and> e_first (pw_ex (fst (run L p ats candidates w))) = first \<and>
    (prx_retryPolicy p \<noteq> RetryUnavailable \<longrightarrow> only_current (pw_ex (fst (run L p ats candidates w))))"
  unfolding run_def
proof (rule run_ex_rule [where
      J = "\<lambda>i e. up_inv i e \<and> e_first e = first \<and> (prx_retryPolicy p \<noteq> RetryUnavailable \<longrightarrow> e_cs e = None)" and
      K = "\<lambda>e err. \<exists>n. up_inv n e \<and> e_first e = first \<and> (prx_retryPolicy p \<noteq> RetryUnavailable \<longrightarrow> only_current e)"])
  let ?J = "\<lambda>i e. up_inv i e \<and> e_first e = first \<and> (prx_retryPolicy p \<noteq> RetryUnavailable \<longrightarrow> e_cs e = None)"
  let ?C = "\<lambda>i e. up_inv i e \<and> e_first e = first \<and> (prx_retryPolicy p \<noteq> RetryUnavailable \<longrightarrow> only_current e)"
  show "?J 0 (pw_ex w)" using init by (auto simp: fresh_exchange_def up_inv_def upstream_view_def)
  have C: "?C i e" if "?J i e" for i e
    using that by (auto simp: up_inv_def only_current_def)
  then show "\<exists>n. ?C n e" if "?J i e" for i e using that by blast
  fix i e e2
  assume J: "?J i e"
  have pump: "?J i (pump e evs)" for evs using J pump_up_inv by simp
  show "?J (Suc i) e" using J up_inv_mono [of i e "Suc i"] by simp
  have e2: "?J i e2" "?J i (pump e2 evs)" if "install i (ats i) (pump e (at_pump1 (ats i))) = (e2, Some er)" for er evs
    using install_error [OF that] pump pump_up_inv [of i e2] by auto
  show "\<exists>n. ?C n e2" if "install i (ats i) (pump e (at_pump1 (ats i))) = (e2, Some er)" for er
    using e2(1) [OF that] C [of i e2] by auto
  show "?J (Suc i) e4" "\<exists>n. ?C n e4"
    if "install i (ats i) (pump e (at_pump1 (ats i))) = (e2, Some er)" "e4 = pump e2 (at_pump2 (ats i))" for er e4
    using e2(2) [OF that(1), of "at_pump2 (ats i)"] C [of i e4] up_inv_mono [of i e4 "Suc i"] that(2) by auto
  fix e3 e4
  assume ins: "install i (ats i) (pump e (at_pump1 (ats i))) = (e2, None)" and e4: "e4 = pump e3 (at_pump2 (ats i))"
  have e2: "?C (Suc i) e2"
    using install_up_inv [OF _ ins] install_only_current [OF ins] install_ok(6) [OF ins] pump [of "at_pump1 (ats i)"]
    by (auto simp: up_inv_def [of i])
  have r: "?C (Suc i) e4" if "relay (ats i) e2 = (e3, er)" for er
  proof -
    note f = relay_loop_frame [OF that [unfolded relay_def]]
    have "?C (Suc i) e3" using e2 f up_inv_cong [of e3 e2 "Suc i"] by (simp add: only_current_def)
    then show ?thesis unfolding e4 using pump_up_inv pump_only_current by simp
  qed
  show "?J (Suc i) e4" if "relay (ats i) e2 = (e3, Some er)" "canRetry L p (ats i) e4 (Some er) i (length candidates) False" for er
    using r [OF that(1)] that(2) by (auto simp: canRetry_def split: if_splits)
  show "\<exists>n. ?C n (finish (ats i) e4)" if "relay (ats i) e2 = (e3, er)" for er
    using r [OF that] up_inv_cong [of "finish (ats i) e4" e4 "Suc i"] by (auto simp: only_current_def)
qed

text \<open>
  C3: What the backends receive. There is one attempt whose stream gets the client's messages: the
  buffered first message, then the messages the pump took from the client, in order and without
  gaps, then possibly the half-close. Every other stream got at most the first message and the
  half-close; and unless the policy is \<open>unavailable\<close>, no other stream got anything, so no message was
  handed to two backends.
\<close>

theorem upstream_at_most_once_in_order:
  assumes "pw_ex w = fresh_exchange method first hc"
    and "run L p ats candidates w = (w', err)"
    and "F = (case first of None \<Rightarrow> [] | Some m \<Rightarrow> [UpMsg m])"
  shows "\<exists>c ms. prefix ms (e_pumped (pw_ex w')) \<and>
    upstream_view (pw_ex w') c \<in> {[], F @ map UpMsg ms, F @ map UpMsg ms @ [UpClose]} \<and>
    (\<forall>s. s \<noteq> c \<longrightarrow> upstream_view (pw_ex w') s \<in> {[], F, F @ [UpClose]} \<and>
      (prx_retryPolicy p \<noteq> RetryUnavailable \<longrightarrow> upstream_view (pw_ex w') s = []))"
proof -
  let ?e = "pw_ex w'"
  obtain n where n: "up_inv n ?e" "first_events ?e = F" "prx_retryPolicy p \<noteq> RetryUnavailable \<longrightarrow> only_current ?e"
    using run_upstream [OF assms(1), of L p ats candidates] assms(2,3) by (auto simp: first_events_def)
  show ?thesis
  proof (cases "e_cs ?e")
    case None
    then have "upstream_view ?e s = []" for s using n(1) by (simp add: up_inv_def upstream_view_def)
    then show ?thesis by (intro exI [of _ 0] exI [of _ "[]"]) simp
  next
    case (Some c)
    have cur: "upstream_view ?e s = []" if "only_current ?e" "s \<noteq> c" for s
      using that Some by (auto simp: only_current_def upstream_view_def filter_empty_conv list_all_iff)
    have "\<exists>ms. prefix ms (e_pumped ?e) \<and> upstream_view ?e c \<in> {F @ map UpMsg ms, F @ map UpMsg ms @ [UpClose]}"
      using n(1,2) Some prefixeq_butlast [of "e_pumped ?e"] by (auto simp: up_inv_def split: if_splits)
    moreover have "upstream_view ?e s \<in> {[], F, F @ [UpClose]}" if "s \<noteq> c" for s
      using n(1,2) Some that by (auto simp: up_inv_def)
    ultimately show ?thesis using cur n(3) by (metis insertCI)
  qed
qed

theorem upstream_at_most_once_in_order_witness:
  "\<exists>w' c ms. run sample_plib sample_proxy sample_attempts [0, 1] sample_px = (w', None) \<and>
     upstream_view (pw_ex w') c \<in> {[], [UpMsg ''x''] @ map UpMsg ms, [UpMsg ''x''] @ map UpMsg ms @ [UpClose]} \<and>
     (\<forall>s. s \<noteq> c \<longrightarrow> upstream_view (pw_ex w') s = [])"
proof -
  obtain w' where w': "run sample_plib sample_proxy sample_attempts [0, 1] sample_px = (w', None)"
    using good_run by blast
  have "pw_ex sample_px = fresh_exchange ''m'' (Some ''x'') False" "prx_retryPolicy sample_proxy \<noteq> RetryUnavailable"
    by (simp_all add: sample_px_def sample_proxy_def RetryConnectFailure_def RetryUnavailable_def)
  then show ?thesis
    using upstream_at_most_once_in_order [of sample_px "''m''" "Some ''x''" False, OF _ w' refl] w' by auto
qed

subsection \<open>The whole handler\<close>

lemma Attempts_updates [simp]:
  "pw_info (px_breaker w b f) = pw_info w" "pw_info (exchange_record L p b pr err st w) = pw_info w"
  "pw_info (failover L p err w) = pw_info w" "pw_info (fst (world_clock L w)) = pw_info w"
  "Attempts (SetBackend i ident) = Attempts i" "Attempts (AddAttempt i) \<le> Attempts i + 1" "Attempts i \<le> Attempts (AddAttempt i)"
  by (simp_all add: px_breaker_def exchange_record_def failover_def world_clock_def px_emit_def Let_def split_beta
      Attempts_def SetBackend_def AddAttempt_def split: option.split)

lemma serve_attempts: "pw_info (answer_world (serve_attempt L p a n i b pr le w)) =
    SetBackend (AddAttempt (pw_info w)) (bk_id (backend_at (pool_of w) b))"
  by (simp add: serve_attempt_def Let_def split_beta split: option.split)

lemma body_attempts: "Attempts (pw_info (answer_world (run_body L p a n i b le w))) \<le> Attempts (pw_info w) + 1"
  by (simp add: run_body_def Let_def split_beta serve_attempts)

lemma run_attempts: "Attempts (pw_info (fst (run_loop L p ats n i bs le w))) \<le> Attempts (pw_info w) + int (length bs)"
proof (induction bs arbitrary: i le w)
  case (Cons b bs)
  show ?case
  proof (cases "run_body L p (ats i) n i b le w")
    case (Inl r)
    then show ?thesis using Cons.IH [of "i + 1" "snd r" "fst r"] body_attempts [of L p "ats i" n i b le w]
      by (simp add: split_beta)
  next
    case (Inr r)
    then show ?thesis using body_attempts [of L p "ats i" n i b le w] by simp
  qed
qed simp

lemma pool_held_held: "pl_backends q = pl_backends p \<Longrightarrow> pool_held i q = held_in q (bk_breaker (backend_at p i))"
  by (simp add: pool_held_def held_probes_def split: option.split)

text \<open>
  C1: One proxied RPC, from the choice of the candidates to the final status, whatever the
  upstreams and the client do: the pool stays well-formed, no backend's breaker is left with a probe
  slot that it did not have reserved before, and at most \<open>maxAttempts\<close> attempts are made.
\<close>

theorem handle_leaves_no_reservation:
  assumes "pool_inv (w_pool (pw_world w))" and "snap_ok (w_pool (pw_world w)) bal"
    and "handle h L p bal ctx method firstRecv ats w = (w', bal', err)"
  shows "pool_inv (w_pool (pw_world w')) \<and> snap_ok (w_pool (pw_world w')) bal' \<and>
    (\<forall>i < length (pl_backends (w_pool (pw_world w))). pool_held i (w_pool (pw_world w')) \<le> pool_held i (w_pool (pw_world w))) \<and>
    Attempts (pw_info w') \<le> Attempts (pw_info w) + max 1 (prx_maxAttempts p)"
proof -
  obtain v b1 cs where pick: "Pick h (pl_clock L) bal (hashKey p ctx (pw_info w)) (prx_maxAttempts p) (pw_world w) = (v, b1, cs)"
    by (cases "Pick h (pl_clock L) bal (hashKey p ctx (pw_info w)) (prx_maxAttempts p) (pw_world w)")
  note P = Pick_scanned [OF assms(2) pick]
  have v: "polled (pool_of w) (w_pool v)" "int (length cs) \<le> max 1 (prx_maxAttempts p)" "set cs \<subseteq> set (bs_backends (ba_snap bal))"
    using P(1) by (simp_all add: scanned_def) linarith
  have ok: "pool_inv (w_pool v)" "pl_backends (w_pool v) = pl_backends (pool_of w)"
    "\<forall>i < length (pl_backends (pool_of w)). pool_held i (w_pool v) \<le> pool_held i (pool_of w)"
    using v(1) assms(1) by (simp_all add: polled_def)
  have snap: "snap_ok q b1" if "pl_backends q = pl_backends (pool_of w)" for q :: "'a pool"
    using that assms(2) P(3) by (simp add: snap_ok_def) (metis balancer.select_convs balancer.update_convs balancer.surjective)
  have cs: "\<forall>b \<in> set cs. b < length (pl_backends (w_pool v))"
    using v(3) assms(2) ok(2) by (auto simp: snap_ok_def)
  have R: "no_leak (w_pool v) (pool_of (fst (run L p ats cs u)))" "Attempts (pw_info (fst (run L p ats cs u))) \<le> Attempts (pw_info w) + int (length cs)"
    if "pool_of u = w_pool v" "pw_info u = pw_info w" for u :: "'a proxy_world"
    using run_no_leak [of u cs] run_attempts [of L p ats "length cs" 0 cs None u] that ok(1) cs by (simp_all add: run_def)
  have fin: ?thesis if q: "no_leak (w_pool v) (pool_of w')" "Attempts (pw_info w') \<le> Attempts (pw_info w) + int (length cs)" "bal' = b1"
  proof -
    have "pool_held i (pool_of w') \<le> pool_held i (pool_of w)" if "i < length (pl_backends (pool_of w))" for i
      using that q(1) ok pool_held_held [of "pool_of w'" "w_pool v" i] pool_held_held [of "w_pool v" "w_pool v" i] order_trans
      unfolding no_leak_def by metis
    then show ?thesis using q ok(2) snap [of "pool_of w'"] v(2) by (simp add: no_leak_def)
  qed
  show ?thesis
  proof (cases "method")
    case None
    then show ?thesis using assms by (auto simp: handle_def)
  next
    case (Some m)
    have keep: "no_leak (w_pool v) (w_pool v)" using ok(1) by (simp add: no_leak_def)
    show ?thesis
      by (rule fin; use assms(3) Some pick keep R in \<open>auto simp: handle_def Let_def split_beta split: if_splits sum.splits\<close>)
  qed
qed

theorem handle_leaves_no_reservation_witness:
  "\<exists>w' bal' err. handle sample_hash sample_plib sample_proxy two_balancer None (Some ''m'') (Inr ''x'') sample_attempts sample_px = (w', bal', err) \<and>
     pool_inv (w_pool (pw_world w')) \<and> Attempts (pw_info w') \<le> 2"
proof -
  obtain w' bal' err where h: "handle sample_hash sample_plib sample_proxy two_balancer None (Some ''m'') (Inr ''x'') sample_attempts sample_px = (w', bal', err)"
    by (cases "handle sample_hash sample_plib sample_proxy two_balancer None (Some ''m'') (Inr ''x'') sample_attempts sample_px")
  have "pw_world sample_px = two_world" "pw_info sample_px = None" "prx_maxAttempts sample_proxy = 2"
    by (simp_all add: sample_px_def sample_proxy_def)
  then show ?thesis using h
    handle_leaves_no_reservation [OF _ _ h] two_pool_inv synced_snap_ok [OF two_pool_inv two_ok(2)] by (simp add: two_len Attempts_def)
qed

subsection \<open>Forwarded metadata\<close>

text \<open>What \<open>MD.Append\<close> documents: the values are added to those of the key.\<close>

definition append_doc :: "(string \<Rightarrow> string \<Rightarrow> metadata \<Rightarrow> metadata) \<Rightarrow> bool" where
  "append_doc md_append = (\<forall>k v md. md_append k v md = md(ToLower k \<mapsto> (case md (ToLower k) of Some vs \<Rightarrow> vs | None \<Rightarrow> []) @ [v]))"

definition inbound_only :: "string \<Rightarrow> bool" where
  "inbound_only k = (k \<noteq> [] \<and> hd k = CHR '':'' \<or> k \<in> set hopByHop)"

lemma forward_fold:
  assumes "distinct (map fst kvs)" "\<forall>kv \<in> set kvs. ToLower (fst kv) = fst kv" "\<forall>kv \<in> set kvs. out (fst kv) = None"
  shows "fold forward_entry kvs out k = (if inbound_only k \<or> map_of kvs k = None then out k else map_of kvs k)"
  using assms
proof (induction kvs arbitrary: out)
  case (Cons kv kvs)
  let ?o = "forward_entry kv out"
  have o: "?o k = (if k = fst kv \<and> \<not> inbound_only k then Some (snd kv) else out k)" for k
    using Cons.prems(2,3) by (auto simp: forward_entry_def Let_def inbound_only_def)
  have "\<forall>x \<in> set kvs. ?o (fst x) = None" using Cons.prems(1,3) o by (auto simp: rev_image_eqI)
  then have "fold forward_entry kvs ?o k = (if inbound_only k \<or> map_of kvs k = None then ?o k else map_of kvs k)"
    using Cons.IH [of ?o] Cons.prems(1,2) by simp
  moreover have "fst kv = k \<Longrightarrow> map_of kvs k = None" using Cons.prems(1) by (auto simp: map_of_eq_None_iff)
  moreover have "map_of (kv # kvs) k = (if k = fst kv then Some (snd kv) else map_of kvs k)" by (cases kv) auto
  ultimately show ?case unfolding fold_simps o by auto
qed simp

text \<open>
  The metadata of the upstream call: nothing that belongs to the inbound hop (pseudo-headers,
  connection-level headers) is forwarded; every other key arrives with its values unchanged and in order;
  and \<open>x-forwarded-for\<close> has the caller's address appended to whatever it held. It does not depend
  on the order in which Go iterates over the incoming metadata.
\<close>

theorem forwarded_metadata:
  assumes "append_doc md_append" "distinct (map fst inmd)" "\<forall>kv \<in> set inmd. ToLower (fst kv) = fst kv"
  shows "forwardMD md_append inmd ctx k =
    (if inbound_only k then None
     else if k = forwardedForHeader \<and> PeerIP ctx \<noteq> [] then Some ((case map_of inmd k of Some vs \<Rightarrow> vs | None \<Rightarrow> []) @ [PeerIP ctx])
     else map_of inmd k)"
proof -
  have x: "ToLower forwardedForHeader = forwardedForHeader" "\<not> inbound_only forwardedForHeader" by code_simp+
  have "fold forward_entry inmd Map.empty k = (if inbound_only k then None else map_of inmd k)" for k
    using forward_fold [of inmd Map.empty k] assms(2,3) by simp
  then show ?thesis using assms(1) x by (auto simp: forwardMD_def append_doc_def Let_def)
qed

theorem forwarded_metadata_witness:
  "forwardMD (\<lambda>k v md. md(ToLower k \<mapsto> (case md (ToLower k) of Some vs \<Rightarrow> vs | None \<Rightarrow> []) @ [v]))
     [(''te'', [''trailers'']), (''x-forwarded-for'', [''9.9.9.9''])]
     (Some \<lparr>cx_values = (\<lambda>_. []), cx_peer = Some (TCPAddr (Some ''10.0.0.1'') ''10.0.0.1:5''), cx_info = None\<rparr>) ''x-forwarded-for'' =
   Some [''9.9.9.9'', ''10.0.0.1'']"
proof -
  have "\<forall>kv \<in> set [(''te'', [''trailers'']), (''x-forwarded-for'', [''9.9.9.9''])]. ToLower (fst kv) = fst kv" by code_simp
  moreover have "\<not> inbound_only ''x-forwarded-for''" by code_simp
  ultimately show ?thesis
    by (subst forwarded_metadata) (simp_all add: append_doc_def forwardedForHeader_def PeerIP_def peerAddr_def)
qed

end
