(* ===== verification/Report.thy ===== *)
theory Report
  imports Float64 Grpc "HOL-Library.Mapping" "HOL-Library.AList_Mapping"
begin

text \<open>
  \<^verbatim>\<open>cmd/loadgen/stats.go\<close>: from the samples of a run to the report and its verdict. A \<open>map\<close> from strings to
  counts is a \<open>mapping\<close>. \<open>name\<close> is \<open>codes.Code.String\<close> and \<open>oob\<close> the conversion of a float that does not fit an
  integer. Rendering (JSON and the table) is not modelled, except for the counts.
\<close>

subsection \<open>Data\<close>

record sample =
  sm_scheduledAt :: go_time
  sm_sentAt :: go_time
  sm_completedAt :: go_time
  sm_code :: code
  sm_backendID :: string
  sm_sessionKey :: string

definition serviceTime :: "sample \<Rightarrow> duration" where
  "serviceTime s = time_sub (sm_completedAt s) (sm_sentAt s)"

definition responseTime :: "sample \<Rightarrow> duration" where
  "responseTime s = time_sub (sm_completedAt s) (sm_scheduledAt s)"

record latency_stats =
  la_P50 :: f64
  la_P90 :: f64
  la_P95 :: f64
  la_P99 :: f64
  la_P999 :: f64
  la_Max :: f64
  la_Mean :: f64

record report =
  rp_Label :: string
  rp_Target :: string
  rp_Mode :: string
  rp_Method :: string
  rp_StreamCount :: int
  rp_RPSRequested :: f64
  rp_RPSAchieved :: f64
  rp_DurationS :: f64
  rp_Scheduled :: int
  rp_Interrupted :: bool
  rp_Total :: int
  rp_OK :: int
  rp_Errors :: int
  rp_ErrorsByCode :: "(string, int) mapping"
  rp_ServiceTime :: latency_stats
  rp_ResponseTime :: latency_stats
  rp_ErrorLatency :: latency_stats
  rp_SLOMs :: f64
  rp_SLOViolations :: int
  rp_SLOFractionUnder :: f64
  rp_ErrorBudget :: f64
  rp_ErrorRatio :: f64
  rp_BackendDistribution :: "(string, int) mapping"
  rp_DistinctKeys :: int
  rp_KeysWithMultipleBackends :: int
  rp_Conns :: int
  rp_Concurrency :: int
  rp_PayloadBytes :: int
  rp_DelayMs :: int

record run_params =
  pa_Label :: string
  pa_Target :: string
  pa_Mode :: string
  pa_Method :: string
  pa_StreamCount :: int
  pa_RPSRequested :: f64
  pa_Elapsed :: duration
  pa_Scheduled :: int
  pa_Interrupted :: bool
  pa_SLO :: duration
  pa_ErrorBudget :: f64
  pa_Conns :: int
  pa_Concurrency :: int
  pa_PayloadBytes :: int
  pa_DelayMs :: int

subsection \<open>Rounding and percentiles\<close>

text \<open>\<open>math.Pow(10, d)\<close> is exact for the few decimals used here.\<close>

definition round_to :: "f64 \<Rightarrow> nat \<Rightarrow> f64" where
  "round_to f decimals =
     (if f64_isNaN f \<or> f64_isInf f then Fin 0
      else let scale = Fin (10 ^ decimals) in f64_div (f64_roundAway (f64_mul f scale)) scale)"

definition msRound :: "duration \<Rightarrow> f64" where
  "msRound d = round_to (f64_div (f64_of_int d) (f64_of_int millisecond)) 3"

definition percentileIndex :: "(f64 \<Rightarrow> int) \<Rightarrow> int \<Rightarrow> f64 \<Rightarrow> int" where
  "percentileIndex oob n p =
     (if n \<le> 0 then - 1
      else if f64_isNaN p \<or> f64_le p (Fin 0) then 0
      else if f64_le (Fin 100) p then n - 1
      else let pm = f64_toInt oob (f64_roundAway (f64_mul p (Fin 10000)));
               rank = i64 (i64 (pm * n) + 999999) sdiv 1000000;
               idx = rank - 1
           in min (max idx 0) (n - 1))"

definition percentile :: "(f64 \<Rightarrow> int) \<Rightarrow> duration list \<Rightarrow> f64 \<Rightarrow> duration" where
  "percentile oob ds p =
     (let i = percentileIndex oob (int (length ds)) p in if i < 0 then 0 else ds ! nat i)"

definition zero_stats :: latency_stats where
  "zero_stats = \<lparr>la_P50 = Fin 0, la_P90 = Fin 0, la_P95 = Fin 0, la_P99 = Fin 0, la_P999 = Fin 0, la_Max = Fin 0, la_Mean = Fin 0\<rparr>"

definition latencyStatsOf :: "(f64 \<Rightarrow> int) \<Rightarrow> duration list \<Rightarrow> latency_stats" where
  "latencyStatsOf oob ds =
     (if length ds = 0 then zero_stats
      else let total = foldl (\<lambda>s d. i64 (s + d)) 0 ds
           in \<lparr>la_P50 = msRound (percentile oob ds (Fin 50)), la_P90 = msRound (percentile oob ds (Fin 90)),
               la_P95 = msRound (percentile oob ds (Fin 95)), la_P99 = msRound (percentile oob ds (Fin 99)),
               la_P999 = msRound (percentile oob ds (f64_round (999 / 10))), la_Max = msRound (ds ! (length ds - 1)),
               la_Mean = round_to (f64_div (f64_div (f64_of_int total) (f64_of_int (int (length ds)))) (f64_of_int millisecond)) 3\<rparr>)"

subsection \<open>The report\<close>

definition mergeSamples :: "sample list list \<Rightarrow> sample list" where
  "mergeSamples perWorker = foldl (\<lambda>out w. out @ w) [] perWorker"

definition count_up :: "string \<Rightarrow> (string, int) mapping \<Rightarrow> (string, int) mapping" where
  "count_up k m = Mapping.map_default k 0 (\<lambda>n. n + 1) m"

text \<open>The local variables of the loop of \<open>buildReport\<close>, and its body.\<close>

record tallies =
  ty_OK :: int
  ty_Errors :: int
  ty_SLOViolations :: int
  ty_ErrorsByCode :: "(string, int) mapping"
  ty_Backends :: "(string, int) mapping"
  ty_service :: "duration list"
  ty_response :: "duration list"
  ty_errLatency :: "duration list"
  ty_keys :: "string set"
  ty_keyBackend :: "(string, string) mapping"
  ty_multiBackend :: "string set"

definition tally_start :: tallies where
  "tally_start = \<lparr>ty_OK = 0, ty_Errors = 0, ty_SLOViolations = 0, ty_ErrorsByCode = Mapping.empty, ty_Backends = Mapping.empty,
     ty_service = [], ty_response = [], ty_errLatency = [], ty_keys = {}, ty_keyBackend = Mapping.empty, ty_multiBackend = {}\<rparr>"

definition tally_sample :: "(code \<Rightarrow> string) \<Rightarrow> duration \<Rightarrow> tallies \<Rightarrow> sample \<Rightarrow> tallies" where
  "tally_sample name slo t s =
     (let rt = responseTime s;
          t = (if sm_code s = OK
               then t\<lparr>ty_OK := ty_OK t + 1, ty_service := ty_service t @ [serviceTime s], ty_response := ty_response t @ [rt],
                      ty_SLOViolations := ty_SLOViolations t + (if rt > slo then 1 else 0)\<rparr>
               else t\<lparr>ty_Errors := ty_Errors t + 1, ty_ErrorsByCode := count_up (name (sm_code s)) (ty_ErrorsByCode t),
                      ty_errLatency := ty_errLatency t @ [rt]\<rparr>);
          t = (if sm_backendID s \<noteq> [] then t\<lparr>ty_Backends := count_up (sm_backendID s) (ty_Backends t)\<rparr> else t)
      in if sm_sessionKey s = [] then t
         else let t = t\<lparr>ty_keys := insert (sm_sessionKey s) (ty_keys t)\<rparr>
              in if sm_backendID s = [] then t
                 else case Mapping.lookup (ty_keyBackend t) (sm_sessionKey s) of
                        None \<Rightarrow> t\<lparr>ty_keyBackend := Mapping.update (sm_sessionKey s) (sm_backendID s) (ty_keyBackend t)\<rparr>
                      | Some prev \<Rightarrow>
                          (if prev \<noteq> sm_backendID s
                           then t\<lparr>ty_multiBackend := insert (sm_sessionKey s) (ty_multiBackend t)\<rparr> else t))"

text \<open>\<open>Duration.Seconds\<close>.\<close>

definition Duration_Seconds :: "duration \<Rightarrow> f64" where
  "Duration_Seconds d =
     f64_add (f64_of_int (d sdiv second)) (f64_div (f64_of_int (d smod second)) (Fin 1000000000))"

definition buildReport :: "(code \<Rightarrow> string) \<Rightarrow> (f64 \<Rightarrow> int) \<Rightarrow> sample list \<Rightarrow> run_params \<Rightarrow> report" where
  "buildReport name oob samples p =
     (let t = foldl (tally_sample name (pa_SLO p)) tally_start samples;
          n = ty_OK t; total = int (length samples); secs = Duration_Seconds (pa_Elapsed p)
      in \<lparr>rp_Label = pa_Label p, rp_Target = pa_Target p, rp_Mode = pa_Mode p, rp_Method = pa_Method p,
          rp_StreamCount = pa_StreamCount p, rp_RPSRequested = round_to (pa_RPSRequested p) 3,
          rp_RPSAchieved = (if f64_lt (Fin 0) secs then round_to (f64_div (f64_of_int total) secs) 3 else Fin 0),
          rp_DurationS = round_to (Duration_Seconds (pa_Elapsed p)) 3,
          rp_Scheduled = pa_Scheduled p, rp_Interrupted = pa_Interrupted p, rp_Total = total,
          rp_OK = ty_OK t, rp_Errors = ty_Errors t, rp_ErrorsByCode = ty_ErrorsByCode t,
          rp_ServiceTime = latencyStatsOf oob (sort (ty_service t)),
          rp_ResponseTime = latencyStatsOf oob (sort (ty_response t)),
          rp_ErrorLatency = latencyStatsOf oob (sort (ty_errLatency t)),
          rp_SLOMs = msRound (pa_SLO p), rp_SLOViolations = ty_SLOViolations t,
          rp_SLOFractionUnder =
            (if n > 0 then round_to (f64_div (f64_of_int (n - ty_SLOViolations t)) (f64_of_int n)) 6 else Fin 0),
          rp_ErrorBudget = pa_ErrorBudget p,
          rp_ErrorRatio = (if total > 0 then round_to (f64_div (f64_of_int (ty_Errors t)) (f64_of_int total)) 6 else Fin 0),
          rp_BackendDistribution = ty_Backends t, rp_DistinctKeys = int (card (ty_keys t)),
          rp_KeysWithMultipleBackends = int (card (ty_multiBackend t)),
          rp_Conns = pa_Conns p, rp_Concurrency = pa_Concurrency p, rp_PayloadBytes = pa_PayloadBytes p,
          rp_DelayMs = pa_DelayMs p\<rparr>)"

subsection \<open>The verdict\<close>

text \<open>\<open>%.nf\<close> prints the exact binary value, rounded half to even in the last decimal.\<close>

definition pad_zeros :: "nat \<Rightarrow> string \<Rightarrow> string" where
  "pad_zeros n s = replicate (n - length s) CHR ''0'' @ s"

fun fmt_f :: "nat \<Rightarrow> f64 \<Rightarrow> string" where
  "fmt_f d NaN = ''NaN''"
| "fmt_f d (Inf neg) = (if neg then ''-Inf'' else ''+Inf'')"
| "fmt_f d (Fin r) =
     (let n = round_half_even (\<bar>r\<bar> * 10 ^ d); frac = pad_zeros d (itoa (n mod 10 ^ d))
      in (if r < 0 then ''-'' else '''') @ itoa (n div 10 ^ d) @ (if d = 0 then '''' else ''.'' @ frac))"

definition failReason :: "report \<Rightarrow> string" where
  "failReason r =
     (if rp_Total r = 0 then ''no requests''
      else if rp_Interrupted r
      then ''run interrupted after '' @ itoa (rp_Total r) @ '' of '' @ itoa (rp_Scheduled r) @ '' scheduled requests''
      else if rp_OK r = 0 then ''no successful requests''
      else if f64_lt (rp_ErrorBudget r) (rp_ErrorRatio r)
      then ''error ratio '' @ fmt_f 2 (f64_mul (rp_ErrorRatio r) (Fin 100)) @ ''% exceeds budget '' @
           fmt_f 2 (f64_mul (rp_ErrorBudget r) (Fin 100)) @ ''%''
      else if f64_lt (rp_SLOMs r) (la_P99 (rp_ResponseTime r))
      then ''p99 response '' @ fmt_f 3 (la_P99 (rp_ResponseTime r)) @ '' ms exceeds SLO '' @ fmt_f 3 (rp_SLOMs r) @ '' ms''
      else [])"

definition sloPass :: "report \<Rightarrow> bool" where
  "sloPass r = (failReason r = [])"

definition verdict :: "report \<Rightarrow> string" where
  "verdict r = (if failReason r \<noteq> [] then ''SLO: FAIL ('' @ failReason r @ '')'' else ''SLO: PASS'')"

fun join_strings :: "string \<Rightarrow> string list \<Rightarrow> string" where
  "join_strings sep [] = []"
| "join_strings sep [x] = x"
| "join_strings sep (x # xs) = x @ sep @ join_strings sep xs"

definition formatCounts :: "(string, int) mapping \<Rightarrow> string" where
  "formatCounts m =
     (if Mapping.size m = 0 then ''none''
      else join_strings ''  '' (map (\<lambda>k. k @ ''='' @ itoa (Mapping.lookup_default 0 m k)) (Mapping.ordered_keys m)))"

subsection \<open>What the loop computes\<close>

definition count_of :: "('a \<Rightarrow> bool) \<Rightarrow> 'a list \<Rightarrow> int option" where
  "count_of P xs = (let n = length (filter P xs) in if n = 0 then None else Some (int n))"

lemma count_up_lookup:
  "Mapping.lookup (count_up k m) j =
     (if j = k then Some ((case Mapping.lookup m k of None \<Rightarrow> 0 | Some n \<Rightarrow> n) + 1) else Mapping.lookup m j)"
  by (simp add: count_up_def lookup_map_default lookup_map_default_neq lookup_default_def)

lemma count_of_snoc:
  "count_of P (xs @ [x]) = (if P x then Some ((case count_of P xs of None \<Rightarrow> 0 | Some n \<Rightarrow> n) + 1) else count_of P xs)"
  by (simp add: count_of_def Let_def)

lemma count_of_mset: "mset xs = mset ys \<Longrightarrow> count_of P xs = count_of P ys"
  by (metis count_of_def mset_filter size_mset)

definition ok_samples :: "sample list \<Rightarrow> sample list" where
  "ok_samples xs = filter (\<lambda>s. sm_code s = OK) xs"

definition failed_samples :: "sample list \<Rightarrow> sample list" where
  "failed_samples xs = filter (\<lambda>s. sm_code s \<noteq> OK) xs"

text \<open>The backends that served a session key.\<close>

definition served_by :: "sample list \<Rightarrow> string \<Rightarrow> string set" where
  "served_by xs k = {sm_backendID s | s. s \<in> set xs \<and> sm_sessionKey s = k \<and> sm_backendID s \<noteq> []}"

definition several_backends :: "sample list \<Rightarrow> string set" where
  "several_backends xs = {k. k \<noteq> [] \<and> (\<exists>a \<in> served_by xs k. \<exists>b \<in> served_by xs k. a \<noteq> b)}"

lemma served_by_snoc:
  "served_by (xs @ [s]) k =
     (if k = sm_sessionKey s \<and> sm_backendID s \<noteq> [] then insert (sm_backendID s) (served_by xs k) else served_by xs k)"
  by (auto simp: served_by_def)

definition tally_of :: "(code \<Rightarrow> string) \<Rightarrow> duration \<Rightarrow> sample list \<Rightarrow> tallies \<Rightarrow> bool" where
  "tally_of name slo xs t =
     (ty_OK t = int (length (ok_samples xs)) \<and> ty_Errors t = int (length (failed_samples xs)) \<and>
      ty_SLOViolations t = int (length (filter (\<lambda>s. responseTime s > slo) (ok_samples xs))) \<and>
      (\<forall>c. Mapping.lookup (ty_ErrorsByCode t) c = count_of (\<lambda>s. name (sm_code s) = c) (failed_samples xs)) \<and>
      (\<forall>b. Mapping.lookup (ty_Backends t) b = count_of (\<lambda>s. sm_backendID s = b \<and> b \<noteq> []) xs) \<and>
      ty_service t = map serviceTime (ok_samples xs) \<and> ty_response t = map responseTime (ok_samples xs) \<and>
      ty_errLatency t = map responseTime (failed_samples xs) \<and>
      ty_keys t = sm_sessionKey ` set xs - {[]})"

definition affine :: "sample list \<Rightarrow> tallies \<Rightarrow> string \<Rightarrow> bool" where
  "affine xs t k =
     (case Mapping.lookup (ty_keyBackend t) k of
        None \<Rightarrow> served_by xs k = {} \<and> k \<notin> ty_multiBackend t
      | Some b \<Rightarrow> b \<in> served_by xs k \<and> (k \<in> ty_multiBackend t \<longleftrightarrow> served_by xs k \<noteq> {b}))"

definition affinity_of :: "sample list \<Rightarrow> tallies \<Rightarrow> bool" where
  "affinity_of xs t = ([] \<notin> ty_multiBackend t \<and> (\<forall>k. k \<noteq> [] \<longrightarrow> affine xs t k))"

lemma tally_sample_of:
  assumes "tally_of name slo xs t"
  shows "tally_of name slo (xs @ [s]) (tally_sample name slo t s)"
  using assms
  by (auto simp: tally_of_def tally_sample_def Let_def ok_samples_def failed_samples_def count_up_lookup count_of_snoc
      split: option.split)

lemma tally_sample_affinity:
  assumes "affinity_of xs t"
  shows "affinity_of (xs @ [s]) (tally_sample name slo t s)"
proof -
  let ?t = "tally_sample name slo t s"
  let ?k = "sm_sessionKey s" and ?b = "sm_backendID s"
  have kb: "ty_keyBackend ?t = (if ?k \<noteq> [] \<and> ?b \<noteq> [] \<and> Mapping.lookup (ty_keyBackend t) ?k = None
      then Mapping.update ?k ?b (ty_keyBackend t) else ty_keyBackend t)"
    by (simp add: tally_sample_def Let_def split: option.split)
  have mb: "ty_multiBackend ?t = (if ?k \<noteq> [] \<and> ?b \<noteq> [] \<and> (\<exists>p. Mapping.lookup (ty_keyBackend t) ?k = Some p \<and> p \<noteq> ?b)
      then insert ?k (ty_multiBackend t) else ty_multiBackend t)"
    by (simp add: tally_sample_def Let_def split: option.split)
  have "affine (xs @ [s]) ?t k" if "k \<noteq> []" for k
  proof (cases "k = ?k \<and> ?b \<noteq> []")
    case True
    have "affine xs t ?k" using assms that True by (simp add: affinity_of_def)
    then show ?thesis using True that
      by (cases "Mapping.lookup (ty_keyBackend t) k") (auto simp: affine_def kb mb served_by_snoc lookup_update)
  next
    case False
    have "affine xs t k" using assms that by (simp add: affinity_of_def)
    moreover have "Mapping.lookup (ty_keyBackend ?t) k = Mapping.lookup (ty_keyBackend t) k"
      "(k \<in> ty_multiBackend ?t) = (k \<in> ty_multiBackend t)" "served_by (xs @ [s]) k = served_by xs k"
      using False by (auto simp: kb mb served_by_snoc lookup_update_neq)
    ultimately show ?thesis by (simp add: affine_def cong: option.case_cong)
  qed
  moreover have "[] \<notin> ty_multiBackend ?t" using assms by (auto simp: affinity_of_def mb)
  ultimately show ?thesis by (simp add: affinity_of_def)
qed

lemma tally_fold:
  "tally_of name slo xs (foldl (tally_sample name slo) tally_start xs) \<and> affinity_of xs (foldl (tally_sample name slo) tally_start xs)"
proof (induction xs rule: rev_induct)
  case Nil
  show ?case by (simp add: tally_of_def affinity_of_def affine_def tally_start_def ok_samples_def failed_samples_def count_of_def served_by_def)
next
  case (snoc s xs)
  then show ?case using tally_sample_of tally_sample_affinity by simp
qed

lemma tally_several:
  assumes "affinity_of xs t"
  shows "ty_multiBackend t = several_backends xs"
proof -
  have two: "b \<in> S \<Longrightarrow> S \<noteq> {b} \<longleftrightarrow> (\<exists>a \<in> S. \<exists>c \<in> S. a \<noteq> c)" for b and S :: "string set" by blast
  have "k \<in> ty_multiBackend t \<longleftrightarrow> (\<exists>a \<in> served_by xs k. \<exists>b \<in> served_by xs k. a \<noteq> b)" if "k \<noteq> []" for k
  proof -
    have "affine xs t k" using assms that by (simp add: affinity_of_def)
    then show ?thesis using two [of _ "served_by xs k"]
      by (cases "Mapping.lookup (ty_keyBackend t) k") (simp_all add: affine_def)
  qed
  moreover have "[] \<notin> ty_multiBackend t" using assms by (simp add: affinity_of_def)
  ultimately have "k \<in> ty_multiBackend t \<longleftrightarrow> k \<noteq> [] \<and> (\<exists>a \<in> served_by xs k. \<exists>b \<in> served_by xs k. a \<noteq> b)" for k
    by (cases "k = []") simp_all
  then show ?thesis by (simp add: several_backends_def set_eq_iff)
qed

lemma count_of_sum:
  assumes "finite A" "\<forall>s \<in> set xs. f s \<in> A"
  shows "(\<Sum>c\<in>A. case count_of (\<lambda>s. f s = c) xs of None \<Rightarrow> 0 | Some n \<Rightarrow> n) = int (length xs)"
  using assms(2)
proof (induction xs rule: rev_induct)
  case Nil
  show ?case by (simp add: count_of_def)
next
  case (snoc x xs)
  let ?g = "\<lambda>xs c. case count_of (\<lambda>s. f s = c) xs of None \<Rightarrow> 0 | Some n \<Rightarrow> n"
  have "?g (xs @ [x]) c = ?g xs c + (if c = f x then 1 else 0)" for c
    by (simp add: count_of_snoc split: option.split)
  then show ?case using snoc assms(1) by (simp add: sum.distrib)
qed

subsection \<open>Percentiles\<close>

lemma sort_mset_eq: "mset xs = mset ys \<Longrightarrow> sort xs = (sort ys :: duration list)"
  by (metis properties_for_sort mset_sort sorted_sort)

text \<open>The rank in the exact arithmetic that the comment of \<open>percentileIndex\<close> has in mind.\<close>

definition permillion :: "f64 \<Rightarrow> int" where
  "permillion p = (case f64_roundAway (f64_mul p (Fin 10000)) of Fin r \<Rightarrow> \<lfloor>r\<rfloor> | _ \<Rightarrow> 0)"

lemma permillion_range:
  assumes "f64_lt (Fin 0) p" "f64_lt p (Fin 100)"
  shows "f64_toInt oob (f64_roundAway (f64_mul p (Fin 10000))) = permillion p" "0 \<le> permillion p" "permillion p \<le> 1000000"
proof -
  obtain r where p: "p = Fin r" "0 < r" "r < 100" using assms by (cases p) auto
  have big: "\<bar>r * 10000\<bar> \<le> 1000000" using p by simp
  then have "\<bar>r * 10000\<bar> \<le> 2 ^ 200" by (rule order_trans) simp
  then obtain y where y: "f64_mul p (Fin 10000) = Fin y" and e: "\<bar>y - r * 10000\<bar> \<le> \<bar>r * 10000\<bar> / 2 ^ 53 + 1 / 2 ^ 1075"
    using f64_round_error p(1) by fastforce
  have "\<bar>r * 10000\<bar> / 2 ^ 53 + 1 / 2 ^ 1075 \<le> 1 / 4" using big by simp
  then have "\<bar>y - r * 10000\<bar> \<le> 1 / 4" using e by linarith
  then have "- 1 / 4 \<le> y" "y \<le> 1000000 + 1 / 4" using p big by linarith+
  then have "\<lfloor>y + 1 / 2\<rfloor> \<le> 1000000" "0 \<le> \<lfloor>y + 1 / 2\<rfloor>" "y < 0 \<Longrightarrow> \<lfloor>- y + 1 / 2\<rfloor> = 0" by linarith+
  then show "f64_toInt oob (f64_roundAway (f64_mul p (Fin 10000))) = permillion p" "0 \<le> permillion p" "permillion p \<le> 1000000"
    using y by (simp_all add: permillion_def i64_min_def i64_max_def Let_def)
qed

end
