(* ===== verification/Verdict.thy ===== *)
theory Verdict
  imports Report
begin

text \<open>
  What the statistics of \<^verbatim>\<open>cmd/loadgen/stats.go\<close> mean: nearest-rank percentiles, the rounding to milliseconds, and
  what a passing verdict says about the samples.
\<close>

subsection \<open>Percentiles\<close>

lemma count_le_nth:
  fixes ds :: "duration list"
  assumes "sorted ds" "i < length ds"
  shows "i + 1 \<le> length (filter (\<lambda>y. y \<le> ds ! i) ds)"
proof -
  have "filter (\<lambda>y. y \<le> ds ! i) (take (i + 1) ds) = take (i + 1) ds"
    using assms by (auto simp: filter_id_conv in_set_conv_nth sorted_iff_nth_mono)
  then have "length (filter (\<lambda>y. y \<le> ds ! i) ds) = i + 1 + length (filter (\<lambda>y. y \<le> ds ! i) (drop (i + 1) ds))"
    using assms(2) by (subst append_take_drop_id [of "i + 1", symmetric]) (simp del: append_take_drop_id take_Suc)
  then show ?thesis by simp
qed

lemma count_less_nth:
  fixes ds :: "duration list"
  assumes "sorted ds" "i < length ds" "x < ds ! i"
  shows "length (filter (\<lambda>y. y \<le> x) ds) \<le> i"
proof -
  have "filter (\<lambda>y. y \<le> x) (drop i ds) = []"
  proof -
    have "x < ds ! (i + j)" if "i + j < length ds" for j
      using sorted_nth_mono [OF assms(1), of i "i + j"] that assms(3) by simp
    then have "list_all (\<lambda>y. x < y) (drop i ds)" by (simp add: list_all_length less_diff_conv add.commute)
    then show ?thesis by (simp add: filter_empty_conv list_all_iff not_le)
  qed
  then have "length (filter (\<lambda>y. y \<le> x) ds) = length (filter (\<lambda>y. y \<le> x) (take i ds))"
    by (subst append_take_drop_id [of i, symmetric]) (simp del: append_take_drop_id)
  also have "\<dots> \<le> i" by (rule order_trans [OF length_filter_le]) simp
  finally show ?thesis .
qed

lemma percentileIndex_rank:
  assumes "0 < n" "n \<le> 2 ^ 43" "f64_lt (Fin 0) p" "f64_lt p (Fin 100)"
  shows "percentileIndex oob n p = max ((permillion p * n + 999999) div 1000000 - 1) 0"
    and "percentileIndex oob n p < n"
proof -
  let ?m = "permillion p"
  note m = permillion_range(1) [OF assms(3,4), of oob] permillion_range(2,3) [OF assms(3,4)]
  have nn: "f64_isNaN p = False" "f64_le p (Fin 0) = False" "f64_le (Fin 100) p = False"
    using assms(3,4) by (cases p; simp)+
  have "?m * n \<le> 1000000 * 2 ^ 43" using assms(1,2) m by (intro mult_mono) simp_all
  moreover have "0 \<le> ?m * n" using assms(1) m by simp
  ultimately have wrap: "i64 (?m * n) = ?m * n" "i64 (?m * n + 999999) = ?m * n + 999999"
    by (simp_all add: i64_min_def i64_max_def)
  have sd: "(?m * n + 999999) sdiv 1000000 = (?m * n + 999999) div 1000000"
    using \<open>0 \<le> ?m * n\<close> by (simp add: signed_divide_int_def)
  have "?m * n \<le> 1000000 * n" using assms(1) m by (intro mult_right_mono) simp_all
  then have "(?m * n + 999999) div 1000000 \<le> n" by linarith
  then show "percentileIndex oob n p = max ((permillion p * n + 999999) div 1000000 - 1) 0" "percentileIndex oob n p < n"
    using assms(1) by (simp_all add: percentileIndex_def nn m(1) wrap sd Let_def)
qed

text \<open>The nearest rank: the least element that at least the given share of the sample does not exceed.\<close>

lemma percentile_least:
  assumes "sorted ds" "ds \<noteq> []" "int (length ds) \<le> 2 ^ 43" "f64_lt (Fin 0) p" "f64_lt p (Fin 100)" "d = percentile oob ds p"
  shows "d \<in> set ds"
    and "permillion p * int (length ds) \<le> 1000000 * int (length (filter (\<lambda>y. y \<le> d) ds))"
    and "x \<in> set ds \<Longrightarrow> permillion p * int (length ds) \<le> 1000000 * int (length (filter (\<lambda>y. y \<le> x) ds)) \<Longrightarrow> d \<le> x"
proof -
  let ?n = "int (length ds)" and ?m = "permillion p"
  have n: "0 < ?n" "?n \<le> 2 ^ 43" using assms(2,3) by simp_all
  define r where "r = (?m * ?n + 999999) div 1000000"
  define i where "i = nat (max (r - 1) 0)"
  note R = percentileIndex_rank [OF n assms(4,5), of oob, folded r_def]
  have "percentileIndex oob ?n p = int i" using R(1) by (simp add: i_def)
  then have i: "i < length ds" "d = ds ! i" using R(2) assms(6) by (simp_all add: percentile_def Let_def)
  show "d \<in> set ds" using i by simp
  have c: "i + 1 \<le> length (filter (\<lambda>y. y \<le> d) ds)" using count_le_nth [OF assms(1) i(1)] i(2) by simp
  have "?m * ?n \<le> 1000000 * r" unfolding r_def by linarith
  moreover have "r \<le> int (i + 1)" by (simp add: i_def)
  ultimately show "?m * ?n \<le> 1000000 * int (length (filter (\<lambda>y. y \<le> d) ds))" using c by linarith
  assume x: "x \<in> set ds" "?m * ?n \<le> 1000000 * int (length (filter (\<lambda>y. y \<le> x) ds))"
  show "d \<le> x"
  proof (rule ccontr)
    assume "\<not> d \<le> x"
    then have le: "length (filter (\<lambda>y. y \<le> x) ds) \<le> i" using count_less_nth [OF assms(1) i(1)] i(2) by simp
    have "0 < length (filter (\<lambda>y. y \<le> x) ds)" using x(1) by (auto simp: filter_empty_conv)
    with le have "0 < i" by linarith
    then have "r = int i + 1" by (simp add: i_def)
    moreover have "r \<le> int (length (filter (\<lambda>y. y \<le> x) ds))" using x(2) unfolding r_def by linarith
    ultimately show False using le by linarith
  qed
qed

subsection \<open>Rounding\<close>

lemma f64_round_abs:
  assumes "\<bar>x\<bar> \<le> b" "b \<le> 2 ^ 200"
  shows "\<exists>y. f64_round x = Fin y \<and> \<bar>y - x\<bar> \<le> b / 2 ^ 53 + 1 / 2 ^ 1075"
proof -
  have "\<bar>x\<bar> \<le> 2 ^ 200" using assms by linarith
  then obtain y where y: "f64_round x = Fin y" "\<bar>y - x\<bar> \<le> \<bar>x\<bar> / 2 ^ 53 + 1 / 2 ^ 1075"
    using f64_round_error by blast
  have "\<bar>x\<bar> / 2 ^ 53 \<le> b / 2 ^ 53" using assms(1) by (rule divide_right_mono) simp
  then show ?thesis using y by (intro exI [of _ y]) linarith
qed

lemma roundAway_near: "\<exists>n. f64_roundAway (Fin x) = Fin (of_int n) \<and> \<bar>of_int n - x\<bar> \<le> 1 / 2"
proof (cases "0 \<le> x")
  case True
  then have "\<bar>of_int \<lfloor>x + 1 / 2\<rfloor> - x\<bar> \<le> 1 / 2" by linarith
  then show ?thesis using True by auto
next
  case False
  have "of_int \<lfloor>- x + 1 / 2\<rfloor> \<le> - x + 1 / 2" "- x + 1 / 2 < of_int \<lfloor>- x + 1 / 2\<rfloor> + 1" by linarith+
  then have "\<bar>of_int (- \<lfloor>- x + 1 / 2\<rfloor>) - x\<bar> \<le> 1 / 2" unfolding of_int_minus by linarith
  then show ?thesis using False by (intro exI [of _ "- \<lfloor>- x + 1 / 2\<rfloor>"]) simp
qed

lemma round_to_near:
  assumes k: "10 ^ k \<le> (1000000 :: rat)" and x: "\<bar>x\<bar> * 10 ^ k \<le> 2 ^ 41"
  shows "\<exists>y. round_to (Fin x) k = Fin y \<and> \<bar>y - x\<bar> * 10 ^ k \<le> 501 / 1000"
proof -
  let ?s = "(10 :: rat) ^ k"
  have s: "1 \<le> ?s" by simp
  have "\<bar>x * ?s\<bar> \<le> 2 ^ 41" using x by (simp add: abs_mult)
  then obtain m where m: "f64_round (x * ?s) = Fin m" "\<bar>m - x * ?s\<bar> \<le> 2 ^ 41 / 2 ^ 53 + 1 / 2 ^ 1075"
    using f64_round_abs [of "x * ?s" "2 ^ 41"] by auto
  obtain n where n: "f64_roundAway (Fin m) = Fin (of_int n)" "\<bar>of_int n - m\<bar> \<le> 1 / 2" using roundAway_near by blast
  have mb: "\<bar>m - x * ?s\<bar> \<le> 1 / 4000" using m(2) by (rule order_trans) simp
  have nb: "\<bar>of_int n\<bar> \<le> (2 ^ 41 + 1 :: rat)" using mb n(2) \<open>\<bar>x * ?s\<bar> \<le> 2 ^ 41\<close> by linarith
  define q where "q = of_int n / ?s"
  have q: "\<bar>q\<bar> * ?s \<le> 2 ^ 41 + 1" using nb s by (simp add: q_def abs_divide)
  have "\<bar>q\<bar> \<le> 2 ^ 41 + 1" using q s mult_left_mono [OF s, of "\<bar>q\<bar>"] by simp
  then have "\<bar>q\<bar> \<le> 2 ^ 200" by (rule order_trans) simp
  then obtain y where y: "f64_round q = Fin y" "\<bar>y - q\<bar> \<le> \<bar>q\<bar> / 2 ^ 53 + 1 / 2 ^ 1075" using f64_round_error by blast
  have "\<bar>y - q\<bar> * ?s \<le> (\<bar>q\<bar> / 2 ^ 53 + 1 / 2 ^ 1075) * ?s" using y(2) s by (intro mult_right_mono) simp_all
  also have "\<dots> = \<bar>q\<bar> * ?s / 2 ^ 53 + ?s / 2 ^ 1075" by (simp add: distrib_right)
  also have "\<dots> \<le> (2 ^ 41 + 1) / 2 ^ 53 + 1000000 / 2 ^ 1075" using q k by (intro add_mono divide_right_mono) simp_all
  also have "\<dots> \<le> 1 / 2000" by simp
  finally have yb: "\<bar>y - q\<bar> * ?s \<le> 1 / 2000" .
  have "(y - x) * ?s = (y - q) * ?s + (of_int n - m) + (m - x * ?s)" using s by (simp add: q_def algebra_simps)
  moreover have "\<bar>(y - q) * ?s\<bar> \<le> 1 / 2000" "\<bar>y - x\<bar> * ?s = \<bar>(y - x) * ?s\<bar>" using yb s by (simp_all add: abs_mult)
  ultimately have "\<bar>y - x\<bar> * ?s \<le> 501 / 1000" using n(2) mb by linarith
  moreover have "round_to (Fin x) k = Fin y" using m(1) n(1) y(1) s by (simp add: round_to_def Let_def q_def)
  ultimately show ?thesis by blast
qed

text \<open>Milliseconds to three decimals: off by at most 502 nanoseconds.\<close>

lemma msRound_near:
  assumes "0 \<le> d" "d \<le> 2 ^ 50"
  shows "\<exists>y. msRound d = Fin y \<and> \<bar>y * 1000000 - of_int d\<bar> \<le> 502"
proof -
  have d: "f64_of_int d = Fin (of_int d)" using assms by (intro f64_of_int_exact) simp
  have dr: "(of_int d :: rat) \<le> 2 ^ 50" using assms(2) by (metis of_int_le_iff of_int_numeral of_int_power)
  define q where "q = (of_int d :: rat) / 1000000"
  have q: "0 \<le> q" "q \<le> 2 ^ 50 / 1000000" using assms(1) dr by (simp_all add: q_def)
  then have "\<bar>q\<bar> \<le> 2 ^ 50 / 1000000" by simp
  then obtain x where x: "f64_round q = Fin x" "\<bar>x - q\<bar> \<le> 2 ^ 50 / 1000000 / 2 ^ 53 + 1 / 2 ^ 1075"
    using f64_round_abs [of q "2 ^ 50 / 1000000"] by auto
  have xb: "\<bar>x - q\<bar> \<le> 1 / 2000000" using x(2) by (rule order_trans) simp
  have "\<bar>x\<bar> \<le> q + 1" using xb q(1) by linarith
  then have "\<bar>x\<bar> * 10 ^ 3 \<le> 2 ^ 41" using q(2) by simp
  then obtain y where y: "round_to (Fin x) 3 = Fin y" "\<bar>y - x\<bar> * 10 ^ 3 \<le> 501 / 1000" using round_to_near [of 3 x] by auto
  have "msRound d = Fin y" using x(1) y(1) by (simp add: msRound_def d q_def)
  moreover have "\<bar>y * 1000000 - of_int d\<bar> \<le> 502"
  proof -
    have "\<bar>y - x\<bar> \<le> 501 / 1000000" using y(2) by simp
    moreover have "of_int d = q * 1000000" by (simp add: q_def)
    ultimately show ?thesis using xb by linarith
  qed
  ultimately show ?thesis by blast
qed

lemma msRound_le:
  assumes "0 \<le> d" "d \<le> 2 ^ 50" "0 \<le> e" "e \<le> 2 ^ 50" "\<not> f64_lt (msRound e) (msRound d)"
  shows "d \<le> e + 1004"
proof -
  obtain y z where y: "msRound d = Fin y" "\<bar>y * 1000000 - of_int d\<bar> \<le> 502" and z: "msRound e = Fin z" "\<bar>z * 1000000 - of_int e\<bar> \<le> 502"
    using msRound_near assms(1-4) by blast
  have "y \<le> z" using assms(5) y(1) z(1) by simp
  then have "(of_int d :: rat) \<le> of_int e + 1004" using y(2) z(2) by linarith
  then show ?thesis by (metis of_int_add of_int_le_iff of_int_numeral)
qed

lemma ratio_near:
  assumes "0 \<le> a" "a \<le> b" "0 < b" "b \<le> 2 ^ 50"
  shows "\<exists>y. round_to (f64_div (f64_of_int a) (f64_of_int b)) 6 = Fin y \<and> \<bar>y - of_int a / of_int b\<bar> \<le> 1 / 1000000"
proof -
  have ex: "f64_of_int a = Fin (of_int a)" "f64_of_int b = Fin (of_int b)" using assms by (simp_all add: f64_of_int_exact)
  define q where "q = (of_int a :: rat) / of_int b"
  have q: "0 \<le> q" "q \<le> 1" using assms by (simp_all add: q_def)
  then obtain x where x: "f64_round q = Fin x" "\<bar>x - q\<bar> \<le> 1 / 2 ^ 53 + 1 / 2 ^ 1075" using f64_round_abs [of q 1] by auto
  have xb: "\<bar>x - q\<bar> \<le> 1 / 10000000" using x(2) by (rule order_trans) simp
  have "\<bar>x\<bar> \<le> q + 1" using xb q(1) by linarith
  then have "\<bar>x\<bar> * 10 ^ 6 \<le> 2 ^ 41" using q(2) by simp
  then obtain y where y: "round_to (Fin x) 6 = Fin y" "\<bar>y - x\<bar> * 10 ^ 6 \<le> 501 / 1000" using round_to_near [of 6 x] by auto
  have "\<bar>y - x\<bar> \<le> 501 / 1000000000" using y(2) by simp
  then have "\<bar>y - q\<bar> \<le> 1 / 1000000" using xb by linarith
  then show ?thesis using x(1) y(1) assms(3) by (simp add: ex q_def)
qed

subsection \<open>Claims\<close>

lemma report_tally:
  obtains t where "t = foldl (tally_sample name (pa_SLO p)) tally_start xs" "tally_of name (pa_SLO p) xs t" "ty_multiBackend t = several_backends xs"
  using tally_fold [of name "pa_SLO p" xs] tally_several by blast

text \<open>
  The report is an exact census of the samples: every sample is counted once as ok or as an error,
  the errors by code and the backend counts are the numbers of such samples, the violations are the
  successful requests slower than the objective, and the keys with several backends are those for
  which two samples name different backends, whatever the order of the samples.
\<close>

theorem report_is_census:
  "let r = buildReport name oob xs p
   in rp_Total r = int (length xs) \<and> rp_OK r + rp_Errors r = rp_Total r \<and>
      rp_OK r = int (length (ok_samples xs)) \<and>
      rp_SLOViolations r = int (length (filter (\<lambda>s. responseTime s > pa_SLO p) (ok_samples xs))) \<and>
      (\<forall>c. Mapping.lookup (rp_ErrorsByCode r) c = count_of (\<lambda>s. name (sm_code s) = c) (failed_samples xs)) \<and>
      (\<forall>b. Mapping.lookup (rp_BackendDistribution r) b = count_of (\<lambda>s. sm_backendID s = b \<and> b \<noteq> []) xs) \<and>
      rp_DistinctKeys r = int (card (sm_sessionKey ` set xs - {[]})) \<and>
      rp_KeysWithMultipleBackends r = int (card (several_backends xs))"
proof -
  obtain t where t: "t = foldl (tally_sample name (pa_SLO p)) tally_start xs" "tally_of name (pa_SLO p) xs t"
    "ty_multiBackend t = several_backends xs" by (rule report_tally)
  have "int (length (ok_samples xs)) + int (length (failed_samples xs)) = int (length xs)"
    using sum_length_filter_compl [of "\<lambda>s. sm_code s = OK" xs] by (simp add: ok_samples_def failed_samples_def flip: of_nat_add)
  then show ?thesis using t(2,3) by (simp add: buildReport_def Let_def t(1) [symmetric] tally_of_def)
qed

text \<open>
  C37: The report does not depend on which worker took which request, nor on the order in which
  the samples are merged.
\<close>

theorem report_ignores_order:
  assumes "mset (concat ws) = mset (concat vs)"
  shows "buildReport name oob (mergeSamples ws) p = buildReport name oob (mergeSamples vs) p"
proof -
  have merge: "mergeSamples us = concat us" for us
  proof -
    have "foldl (\<lambda>out w. out @ w) acc us = acc @ concat us" for acc by (induction us arbitrary: acc) simp_all
    then show ?thesis by (simp add: mergeSamples_def)
  qed
  let ?xs = "concat ws" and ?ys = "concat vs"
  obtain t where t: "t = foldl (tally_sample name (pa_SLO p)) tally_start ?xs" "tally_of name (pa_SLO p) ?xs t"
    "ty_multiBackend t = several_backends ?xs" by (rule report_tally)
  obtain u where u: "u = foldl (tally_sample name (pa_SLO p)) tally_start ?ys" "tally_of name (pa_SLO p) ?ys u"
    "ty_multiBackend u = several_backends ?ys" by (rule report_tally)
  have f: "mset (filter P ?xs) = mset (filter P ?ys)" for P using assms by simp
  then have len: "length (filter P ?xs) = length (filter P ?ys)" for P by (metis size_mset)
  have s: "set ?xs = set ?ys" using assms by (metis set_mset_mset)
  have "several_backends ?xs = several_backends ?ys" unfolding several_backends_def served_by_def s ..
  moreover have "ty_ErrorsByCode t = ty_ErrorsByCode u" "ty_Backends t = ty_Backends u"
    using t(2) u(2) count_of_mset [OF assms] count_of_mset [OF f]
    by (auto simp: tally_of_def failed_samples_def intro!: mapping_eqI)
  moreover have "ty_OK t = ty_OK u" "ty_Errors t = ty_Errors u" "ty_SLOViolations t = ty_SLOViolations u" "ty_keys t = ty_keys u"
    using t(2) u(2) len s by (simp_all add: tally_of_def ok_samples_def failed_samples_def)
  moreover have "mset (map g (filter P ?xs)) = mset (map g (filter P ?ys))" for g :: "sample \<Rightarrow> duration" and P
    unfolding mset_map f ..
  then have "sort (map g (filter P ?xs)) = sort (map g (filter P ?ys))" for g :: "sample \<Rightarrow> duration" and P
    by (rule sort_mset_eq)
  then have "sort (ty_service t) = sort (ty_service u)" "sort (ty_response t) = sort (ty_response u)"
    "sort (ty_errLatency t) = sort (ty_errLatency u)"
    using t(2) u(2) by (simp_all add: tally_of_def ok_samples_def failed_samples_def)
  moreover have "length ?xs = length ?ys" using assms by (metis size_mset)
  ultimately show ?thesis
    unfolding merge buildReport_def t(1) [symmetric] u(1) [symmetric] t(3) u(3) Let_def by simp
qed

definition sample_run :: "sample list" where
  "sample_run = [\<lparr>sm_scheduledAt = 0, sm_sentAt = 5, sm_completedAt = 1000000, sm_code = OK, sm_backendID = ''a'', sm_sessionKey = ''k''\<rparr>,
     \<lparr>sm_scheduledAt = 0, sm_sentAt = 5, sm_completedAt = 2000000, sm_code = OK, sm_backendID = ''b'', sm_sessionKey = ''k''\<rparr>]"

definition sample_params :: run_params where
  "sample_params = \<lparr>pa_Label = [], pa_Target = [], pa_Mode = [], pa_Method = [], pa_StreamCount = 0, pa_RPSRequested = Fin 1,
     pa_Elapsed = second, pa_Scheduled = 2, pa_Interrupted = False, pa_SLO = 200 * millisecond, pa_ErrorBudget = Fin 0,
     pa_Conns = 1, pa_Concurrency = 1, pa_PayloadBytes = 0, pa_DelayMs = 0\<rparr>"

theorem report_ignores_order_witness:
  "buildReport (\<lambda>_. ''e'') (\<lambda>_. 0) (mergeSamples [[sample_run ! 0], [sample_run ! 1]]) sample_params =
   buildReport (\<lambda>_. ''e'') (\<lambda>_. 0) (mergeSamples [[sample_run ! 1, sample_run ! 0], []]) sample_params"
  by (rule report_ignores_order) simp

text \<open>
  C36: A percentile is a nearest rank: a latency that some request had, which at least the asked
  share of the requests did not exceed, and the least such latency. The share is the percentage in
  parts per million, computed without float error in the rank.
\<close>

theorem percentile_is_nearest_rank:
  assumes "ds \<noteq> []" "int (length ds) \<le> 2 ^ 43" "f64_lt (Fin 0) p" "f64_lt p (Fin 100)" "d = percentile oob (sort ds) p"
  shows "d \<in> set ds \<and> permillion p * int (length ds) \<le> 1000000 * int (length (filter (\<lambda>y. y \<le> d) ds)) \<and>
    (\<forall>x \<in> set ds. permillion p * int (length ds) \<le> 1000000 * int (length (filter (\<lambda>y. y \<le> x) ds)) \<longrightarrow> d \<le> x)"
proof -
  have s: "sorted (sort ds)" "sort ds \<noteq> []" "int (length (sort ds)) \<le> 2 ^ 43"
    using assms(1,2) by (simp_all, metis length_0_conv length_sort)
  have len: "length (filter P (sort ds)) = length (filter P ds)" for P
    by (metis mset_filter mset_sort size_mset)
  note R = percentile_least [OF s assms(3,4,5)]
  show ?thesis using R by (simp add: len)
qed

lemma permillion_p99: "permillion (Fin 99) = 990000"
  by code_simp

lemma permillion_p999: "permillion (f64_round (999 / 10)) = 999000" "f64_lt (Fin 0) (f64_round (999 / 10))" "f64_lt (f64_round (999 / 10)) (Fin 100)"
  by code_simp+

theorem percentile_is_nearest_rank_witness:
  "999000 * 2 \<le> 1000000 * int (length (filter (\<lambda>y. y \<le> percentile (\<lambda>_. 0) (sort [7, 3]) (f64_round (999 / 10))) [7, 3]))"
  using percentile_is_nearest_rank [of "[7, 3]" "f64_round (999 / 10)"] permillion_p999 by simp

lemma length_filter_le_mono: "(\<And>x. P x \<Longrightarrow> Q x) \<Longrightarrow> length (filter P xs) \<le> length (filter Q xs)"
  by (induction xs) auto

text \<open>The two comparisons behind the verdict, on the samples.\<close>

lemma budget_met:
  assumes "\<not> f64_lt (Fin b) (round_to (f64_div (f64_of_int a) (f64_of_int n)) 6)" "0 \<le> a" "a \<le> n" "0 < n" "n \<le> 2 ^ 50"
  shows "of_int a \<le> (b + 1 / 1000000) * of_int n"
proof -
  obtain y where y: "round_to (f64_div (f64_of_int a) (f64_of_int n)) 6 = Fin y" "\<bar>y - of_int a / of_int n\<bar> \<le> 1 / 1000000"
    using ratio_near assms(2-5) by blast
  have "y \<le> b" using assms(1) y(1) by simp
  then have "(of_int a :: rat) / of_int n \<le> b + 1 / 1000000" using y(2) by linarith
  then show ?thesis using assms(4) by (simp add: pos_divide_le_eq)
qed

lemma objective_met:
  assumes "\<not> f64_lt (msRound slo) (msRound d)" "d = percentile oob (sort ds) (Fin 99)" "ds \<noteq> []" "int (length ds) \<le> 2 ^ 43"
    and "\<forall>x \<in> set ds. 0 \<le> x \<and> x \<le> 2 ^ 50" "0 \<le> slo" "slo \<le> 2 ^ 50"
  shows "99 * int (length ds) \<le> 100 * int (length (filter (\<lambda>x. x \<le> slo + 1004) ds))"
proof -
  have len: "length (filter P (sort ds)) = length (filter P ds)" for P by (metis mset_filter mset_sort size_mset)
  have "sort ds \<noteq> []" using assms(3) by (metis length_0_conv length_sort)
  then have d: "d \<in> set ds" "990000 * int (length ds) \<le> 1000000 * int (length (filter (\<lambda>y. y \<le> d) ds))"
    using percentile_least(1,2) [of "sort ds" "Fin 99" d oob] assms(2,4) by (simp_all add: len permillion_p99)
  have "d \<le> slo + 1004" using msRound_le [OF _ _ assms(6,7,1)] d(1) assms(5) by blast
  then have "length (filter (\<lambda>y. y \<le> d) ds) \<le> length (filter (\<lambda>x. x \<le> slo + 1004) ds)" by (intro length_filter_le_mono) simp
  then show ?thesis using d(2) by linarith
qed

text \<open>
  C25: What \<open>SLO: PASS\<close> means: the run was not cut short, some request succeeded, at least 99 per cent of
  the successful requests finished within the objective, counted from their scheduled start, and the
  share of failures is within the budget. Both comparisons are made on rounded figures, so the
  objective is met up to one microsecond and the budget up to one millionth.
\<close>

theorem pass_means_objective_met:
  assumes "sloPass (buildReport name oob xs p)" "int (length xs) \<le> 2 ^ 43" "0 \<le> pa_SLO p" "pa_SLO p \<le> 2 ^ 50"
    and "\<forall>s \<in> set xs. 0 \<le> responseTime s \<and> responseTime s \<le> 2 ^ 50"
  shows "\<not> pa_Interrupted p \<and> ok_samples xs \<noteq> [] \<and>
    99 * int (length (ok_samples xs)) \<le> 100 * int (length (filter (\<lambda>s. responseTime s \<le> pa_SLO p + 1004) (ok_samples xs))) \<and>
    (\<forall>b. pa_ErrorBudget p = Fin b \<longrightarrow>
       of_int (int (length (failed_samples xs))) \<le> (b + 1 / 1000000) * of_int (int (length xs)))"
proof -
  obtain t where t: "t = foldl (tally_sample name (pa_SLO p)) tally_start xs" "tally_of name (pa_SLO p) xs t" by (rule report_tally)
  let ?r = "buildReport name oob xs p" and ?ok = "ok_samples xs" and ?ds = "map responseTime (ok_samples xs)"
  have f: "rp_Total ?r = int (length xs)" "rp_OK ?r = int (length ?ok)" "rp_Interrupted ?r = pa_Interrupted p"
    "rp_SLOMs ?r = msRound (pa_SLO p)" "rp_ErrorBudget ?r = pa_ErrorBudget p" "rp_ResponseTime ?r = latencyStatsOf oob (sort ?ds)"
    "0 < length xs \<Longrightarrow> rp_ErrorRatio ?r =
      round_to (f64_div (f64_of_int (int (length (failed_samples xs)))) (f64_of_int (int (length xs)))) 6"
    using t(2) by (simp_all add: buildReport_def Let_def t(1) [symmetric] tally_of_def)
  have pass: "0 < length xs" "\<not> pa_Interrupted p" "?ok \<noteq> []" "\<not> f64_lt (pa_ErrorBudget p) (rp_ErrorRatio ?r)"
    "\<not> f64_lt (msRound (pa_SLO p)) (la_P99 (rp_ResponseTime ?r))"
    using assms(1) f(1-5) by (auto simp: sloPass_def failReason_def split: if_splits)
  have sub: "set ?ok \<subseteq> set xs" "length ?ok \<le> length xs" "length (failed_samples xs) \<le> length xs"
    by (auto simp: ok_samples_def failed_samples_def)
  have "la_P99 (rp_ResponseTime ?r) = msRound (percentile oob (sort ?ds) (Fin 99))"
    using pass(3) by (simp add: f(6) latencyStatsOf_def Let_def)
  then have "99 * int (length ?ok) \<le> 100 * int (length (filter (\<lambda>s. responseTime s \<le> pa_SLO p + 1004) ?ok))"
    using objective_met [of "pa_SLO p" _ oob ?ds, OF _ refl] pass(3,5) assms(2-5) sub by (simp add: filter_map o_def subset_iff)
  moreover have "of_int (int (length (failed_samples xs))) \<le> (b + 1 / 1000000) * of_int (int (length xs))" if "pa_ErrorBudget p = Fin b" for b
    using budget_met [of b "int (length (failed_samples xs))" "int (length xs)"] pass(1,4) f(7) that assms(2) sub(3) by simp
  ultimately show ?thesis using pass by simp
qed

theorem pass_means_objective_met_witness:
  "99 * int (length (ok_samples sample_run)) \<le>
    100 * int (length (filter (\<lambda>s. responseTime s \<le> 200 * millisecond + 1004) (ok_samples sample_run)))"
proof -
  let ?r = "buildReport (\<lambda>_. ''e'') (\<lambda>_. 0) sample_run sample_params"
  have v: "percentile (\<lambda>_. 0) [1000000, 2000000] (Fin 99) = 2000000" "msRound 2000000 = Fin 2" "msRound 200000000 = Fin 200"
    "round_to (f64_div (f64_of_int 0) (f64_of_int 2)) 6 = Fin 0" by code_simp+
  have ds: "map responseTime (ok_samples sample_run) = [1000000, 2000000]" "failed_samples sample_run = []"
    "length (ok_samples sample_run) = 2" by code_simp+
  have len: "length sample_run = 2" by (simp add: sample_run_def)
  obtain t where t: "t = foldl (tally_sample (\<lambda>_. ''e'') (pa_SLO sample_params)) tally_start sample_run"
    "tally_of (\<lambda>_. ''e'') (pa_SLO sample_params) sample_run t" by (rule report_tally)
  have "ty_response t = [1000000, 2000000]" "ty_OK t = 2" "ty_Errors t = 0"
    using t(2) ds by (simp_all add: tally_of_def)
  then have "la_P99 (rp_ResponseTime ?r) = Fin 2" "rp_ErrorRatio ?r = Fin 0" "rp_OK ?r = 2"
    using v len by (simp_all add: buildReport_def Let_def t(1) [symmetric] latencyStatsOf_def)
  moreover have "rp_Total ?r = 2" "\<not> rp_Interrupted ?r" "rp_SLOMs ?r = Fin 200" "rp_ErrorBudget ?r = Fin 0"
    using v(3) by (simp_all add: buildReport_def Let_def sample_run_def sample_params_def)
  ultimately have "sloPass ?r" by (simp add: sloPass_def failReason_def)
  moreover have "\<forall>s \<in> set sample_run. 0 \<le> responseTime s \<and> responseTime s \<le> 2 ^ 50" by code_simp
  ultimately show ?thesis
    using pass_means_objective_met [of "\<lambda>_. ''e''" "\<lambda>_. 0" sample_run sample_params]
    by (simp add: sample_run_def sample_params_def)
qed

end
