(* ===== verification/Flags.thy ===== *)
theory Flags
  imports Go_Strings
begin

text \<open>
  What the three commands use of the \<open>flag\<close> package: \<open>FlagSet.Parse\<close> over flags that take a value. A flag is
  the function that parses its value and stores it in the options, \<open>None\<close> when the value is refused. The names
  of the flags that were present are collected for \<open>FlagSet.Visit\<close>.
\<close>

datatype flag_error =
    ErrHelp
  | Bad_Syntax string
  | Not_Defined string
  | Needs_Argument string
  | Invalid_Value string string

type_synonym 'o flag_setter = "string \<Rightarrow> 'o \<Rightarrow> 'o option"

type_synonym 'o parsed_flags = "flag_error + 'o \<times> string set \<times> string list"

definition flag_set :: "'o flag_setter \<Rightarrow> string \<Rightarrow> string \<Rightarrow> 'o \<Rightarrow> flag_error + 'o" where
  "flag_set f name v opts = (case f v opts of None \<Rightarrow> Inl (Invalid_Value v name) | Some opts \<Rightarrow> Inr opts)"

text \<open>\<open>parseOne\<close> up to the call of \<open>Set\<close>: an error, the end of the flags, or a flag with its value.\<close>

datatype flag_token = Token_Error flag_error | Token_End "string list" | Token_Flag string string "string list"

definition parse_token :: "(string \<Rightarrow> bool) \<Rightarrow> string \<Rightarrow> string list \<Rightarrow> flag_token" where
  "parse_token known s args =
     (if length s < 2 \<or> hd s \<noteq> CHR ''-'' then Token_End (s # args)
      else let two = (s ! 1 = CHR ''-''); name = drop (if two then 2 else 1) s
           in if two \<and> length s = 2 then Token_End args
              else if name = [] \<or> hd name = CHR ''-'' \<or> hd name = CHR ''='' then Token_Error (Bad_Syntax s)
              else let (name, v, hasValue) = cut_at CHR ''='' name
                   in if \<not> known name then Token_Error (if name = ''help'' \<or> name = ''h'' then ErrHelp else Not_Defined name)
                      else if hasValue then Token_Flag name v args
                      else case args of [] \<Rightarrow> Token_Error (Needs_Argument name) | v # args \<Rightarrow> Token_Flag name v args)"

lemma parse_token_flag: "parse_token known s args = Token_Flag name v rest \<Longrightarrow> known name \<and> length rest \<le> length args"
  by (auto simp: parse_token_def Let_def split_beta split: if_splits list.splits)

function flag_parse :: "(string \<rightharpoonup> 'o flag_setter) \<Rightarrow> string list \<Rightarrow> 'o \<Rightarrow> string set \<Rightarrow> 'o parsed_flags" where
  "flag_parse flags [] opts present = Inr (opts, present, [])"
| "flag_parse flags (s # args) opts present =
     (case parse_token (\<lambda>n. flags n \<noteq> None) s args of
        Token_Error e \<Rightarrow> Inl e
      | Token_End rest \<Rightarrow> Inr (opts, present, rest)
      | Token_Flag name v rest \<Rightarrow>
          (case flag_set (the (flags name)) name v opts of
             Inl e \<Rightarrow> Inl e
           | Inr opts \<Rightarrow> flag_parse flags rest opts (insert name present)))"
  by pat_completeness auto
termination by (relation "measure (\<lambda>(flags, args, _). length args)") (auto dest!: parse_token_flag)

text \<open>\<open>strconv.ParseInt(s, 0, 64)\<close>, which integer flags use: a base prefix and underscores are allowed.\<close>

definition ParseInt0 :: "string \<Rightarrow> int option" where
  "ParseInt0 s =
     (let (neg, d) = split_sign s; p = map lower_char (take 2 d);
          prefixed = (3 \<le> length d \<and> p \<in> {''0b'', ''0o'', ''0x''});
          base = (if prefixed then if p = ''0b'' then 2 else if p = ''0o'' then 8 else 16
                  else if d \<noteq> [] \<and> hd d = CHR ''0'' then 8 else (10 :: int));
          rest = (if prefixed then drop 2 d else d);
          ds = filter (\<lambda>c. c \<noteq> CHR ''_'') rest;
          v = based_value base ds; v = (if neg then - v else v)
      in if d \<noteq> [] \<and> list_all (\<lambda>c. case hex_of c of None \<Rightarrow> False | Some n \<Rightarrow> n < base) ds \<and> underscores_ok prefixed rest \<and>
            i64_min \<le> v \<and> v \<le> i64_max
         then Some v else None)"

text \<open>The kinds of flags.\<close>

definition string_flag :: "((string \<Rightarrow> string) \<Rightarrow> 'o \<Rightarrow> 'o) \<Rightarrow> 'o flag_setter" where
  "string_flag upd v opts = Some (upd (\<lambda>_. v) opts)"

definition int_flag :: "((int \<Rightarrow> int) \<Rightarrow> 'o \<Rightarrow> 'o) \<Rightarrow> 'o flag_setter" where
  "int_flag upd v opts = map_option (\<lambda>n. upd (\<lambda>_. n) opts) (ParseInt0 v)"

definition float_flag :: "((f64 \<Rightarrow> f64) \<Rightarrow> 'o \<Rightarrow> 'o) \<Rightarrow> 'o flag_setter" where
  "float_flag upd v opts = map_option (\<lambda>x. upd (\<lambda>_. x) opts) (ParseFloat v)"

definition duration_flag :: "((duration \<Rightarrow> duration) \<Rightarrow> 'o \<Rightarrow> 'o) \<Rightarrow> 'o flag_setter" where
  "duration_flag upd v opts = map_option (\<lambda>d. upd (\<lambda>_. d) opts) (ParseDuration v)"

text \<open>What a successful parse has done: every flag present has been stored, in order, and nothing else.\<close>

lemma flag_parse_invariant:
  assumes "flag_parse flags args opts present = Inr (opts', present', rest)" "I present opts"
    and step: "\<And>name f v x p y. flags name = Some f \<Longrightarrow> I p x \<Longrightarrow> f v x = Some y \<Longrightarrow> I (insert name p) y"
  shows "I present' opts'"
  using assms(1,2)
proof (induction args arbitrary: opts present rule: length_induct)
  case (1 args)
  show ?case
  proof (cases args)
    case Nil
    then show ?thesis using 1 by simp
  next
    case (Cons s ss)
    show ?thesis
    proof (cases "parse_token (\<lambda>n. flags n \<noteq> None) s ss")
      case (Token_Flag name v r)
      from parse_token_flag [OF this] obtain f where f: "flags name = Some f" "length r < length args" using Cons by auto
      then show ?thesis using 1 Cons Token_Flag step [OF f(1)]
        by (auto simp: flag_set_def split: option.splits)
    qed (use 1 Cons in auto)
  qed
qed

end
