(* ===== verification/Loadgen.thy ===== *)
theory Loadgen
  imports Report Flags
begin

text \<open>
  \<^verbatim>\<open>cmd/loadgen/main.go\<close>: options, session keys, calls and the two ways of generating load. The open loop is a
  transition system: a dispatcher that sends the slots of a fixed schedule into a bounded channel, workers that
  take them, a clock and a signal. \<open>oob\<close> is the conversion of a float that does not fit an integer, \<open>cpus\<close> is
  \<open>runtime.NumCPU\<close>. What a call returns is an input.
\<close>

subsection \<open>Options\<close>

definition modeOpen :: string where "modeOpen = ''open''"
definition modeClosed :: string where "modeClosed = ''closed''"
definition methodUnary :: string where "methodUnary = ''unary''"
definition methodStream :: string where "methodStream = ''server_stream''"

record options =
  o_target :: string
  o_rps :: f64
  o_duration :: duration
  o_concurrency :: int
  o_mode :: string
  o_warmup :: int
  o_payload :: int
  o_delayMs :: int
  o_keys :: int
  o_conns :: int
  o_method :: string
  o_streamCount :: int
  o_out :: string
  o_label :: string
  o_slo :: duration
  o_errorBudget :: f64

definition default_options :: "(string \<Rightarrow> string option) \<Rightarrow> options" where
  "default_options env = \<lparr>
     o_target = (case env ''LOADGEN_TARGET'' of Some v \<Rightarrow> if v \<noteq> [] then v else ''127.0.0.1:8080'' | None \<Rightarrow> ''127.0.0.1:8080''),
     o_rps = Fin 500, o_duration = 10 * second, o_concurrency = 50, o_mode = modeOpen, o_warmup = 100, o_payload = 128,
     o_delayMs = 0, o_keys = 1000, o_conns = 0, o_method = methodUnary, o_streamCount = 5, o_out = [], o_label = ''loadgen'',
     o_slo = 200 * millisecond, o_errorBudget = f64_round (1 / 1000)\<rparr>"

definition loadgen_flags :: "string \<rightharpoonup> options flag_setter" where
  "loadgen_flags = map_of
     [(''target'', string_flag o_target_update), (''rps'', float_flag o_rps_update), (''duration'', duration_flag o_duration_update),
      (''concurrency'', int_flag o_concurrency_update), (''mode'', string_flag o_mode_update), (''warmup'', int_flag o_warmup_update),
      (''payload'', int_flag o_payload_update), (''delay-ms'', int_flag o_delayMs_update), (''keys'', int_flag o_keys_update),
      (''conns'', int_flag o_conns_update), (''method'', string_flag o_method_update), (''stream-count'', int_flag o_streamCount_update),
      (''out'', string_flag o_out_update), (''label'', string_flag o_label_update), (''slo'', duration_flag o_slo_update),
      (''error-budget'', float_flag o_errorBudget_update)]"

datatype options_error = Flags_Refused flag_error | Bad_Option string | Bad_Choice string string

definition check_method :: "options \<Rightarrow> options_error + options" where
  "check_method c =
     (if o_method c = methodUnary then Inr (c\<lparr>o_streamCount := 0\<rparr>)
      else if o_method c = methodStream
      then if o_streamCount c < 1 then Inl (Bad_Option ''-stream-count must be >= 1'') else Inr c
      else Inl (Bad_Choice ''-method'' (o_method c)))"

definition validate :: "int \<Rightarrow> options \<Rightarrow> options_error + options" where
  "validate cpus c =
     (if o_target c = [] then Inl (Bad_Option ''-target is required'')
      else if o_mode c = modeOpen \<and> f64_le (o_rps c) (Fin 0) then Inl (Bad_Option ''-rps must be > 0 in open mode'')
      else if o_mode c \<noteq> modeOpen \<and> o_mode c \<noteq> modeClosed then Inl (Bad_Choice ''-mode'' (o_mode c))
      else case check_method c of
             Inl e \<Rightarrow> Inl e
           | Inr c \<Rightarrow>
               (if o_duration c \<le> 0 then Inl (Bad_Option ''-duration must be > 0'')
                else if o_concurrency c < 1 then Inl (Bad_Option ''-concurrency must be >= 1'')
                else if o_warmup c < 0 then Inl (Bad_Option ''-warmup must be >= 0'')
                else if o_payload c < 0 then Inl (Bad_Option ''-payload must be >= 0'')
                else if o_delayMs c < 0 then Inl (Bad_Option ''-delay-ms must be >= 0'')
                else if o_keys c < 0 then Inl (Bad_Option ''-keys must be >= 0'')
                else if f64_lt (o_errorBudget c) (Fin 0) \<or> f64_lt (Fin 1) (o_errorBudget c)
                then Inl (Bad_Option ''-error-budget must be in [0,1]'')
                else if o_slo c \<le> 0 then Inl (Bad_Option ''-slo must be > 0'')
                else Inr (if o_conns c \<le> 0 then c\<lparr>o_conns := max 1 (min (o_concurrency c) cpus)\<rparr> else c)))"

definition parseFlags :: "int \<Rightarrow> (string \<Rightarrow> string option) \<Rightarrow> string list \<Rightarrow> options_error + options" where
  "parseFlags cpus env args =
     (case flag_parse loadgen_flags args (default_options env) {} of
        Inl e \<Rightarrow> Inl (Flags_Refused e)
      | Inr (c, _) \<Rightarrow> validate cpus c)"

subsection \<open>Keys and calls\<close>

definition buildKeyTable :: "int \<Rightarrow> string list" where
  "buildKeyTable n = (if n \<le> 0 then [] else map (\<lambda>i. ''key-'' @ itoa (int i)) [0..<nat n])"

definition keyAt :: "string list \<Rightarrow> nat \<Rightarrow> string" where
  "keyAt keys i = (if length keys = 0 then [] else keys ! (i mod length keys))"

text \<open>
  A caller with the request message it reuses; the payload is known by its length. \<open>uint32\<close> conversions keep the low
  32 bits. \<open>echo\<close> and \<open>stream\<close> are what the service answers to the request and its metadata: an error or the
  serving backend; for a stream, the backends named by the messages received and the error that ends them.
\<close>

definition sessionHeader :: string where "sessionHeader = ''x-session-id''"

record echo_request =
  er_payload :: int
  er_delayMs :: "32 word"
  er_streamCount :: "32 word"
  er_sessionKey :: string

record caller =
  cl_conn :: nat
  cl_method :: string
  cl_req :: echo_request
  cl_streamCount :: "32 word"

definition newCaller :: "nat \<Rightarrow> options \<Rightarrow> int \<Rightarrow> caller" where
  "newCaller cc c payload =
     \<lparr>cl_conn = cc, cl_method = o_method c,
      cl_req = \<lparr>er_payload = payload, er_delayMs = word_of_int (o_delayMs c), er_streamCount = word_of_int (o_streamCount c),
                er_sessionKey = []\<rparr>,
      cl_streamCount = word_of_int (o_streamCount c)\<rparr>"

type_synonym metadata_list = "(string \<times> string) list"

fun recv_loop :: "(go_error option \<Rightarrow> code) \<Rightarrow> string \<Rightarrow> string list \<Rightarrow> go_error \<Rightarrow> string \<times> code" where
  "recv_loop code_of backend [] err =
     (if errors_Is err EOF then (backend, OK) else (backend, code_of (Some err)))"
| "recv_loop code_of backend (b # bs) err = recv_loop code_of (if backend = [] then b else backend) bs err"

definition caller_do ::
  "(go_error option \<Rightarrow> code) \<Rightarrow> (echo_request \<Rightarrow> metadata_list \<Rightarrow> go_error + string) \<Rightarrow>
   (echo_request \<Rightarrow> metadata_list \<Rightarrow> go_error + string list \<times> go_error) \<Rightarrow> caller \<Rightarrow> string \<Rightarrow> caller \<times> string \<times> code" where
  "caller_do code_of echo stream c key =
     (let req = (cl_req c)\<lparr>er_sessionKey := key\<rparr>; md = (if key \<noteq> [] then [(sessionHeader, key)] else [])
      in (c\<lparr>cl_req := req\<rparr>,
          if cl_method c = methodUnary
          then case echo req md of Inl err \<Rightarrow> ([], code_of (Some err)) | Inr b \<Rightarrow> (b, OK)
          else case stream req md of Inl err \<Rightarrow> ([], code_of (Some err)) | Inr (bs, err) \<Rightarrow> recv_loop code_of [] bs err))"

text \<open>
  \<open>waitReady\<close> on the states it reads, each with the answer of \<open>WaitForStateChange\<close>: still waiting, or returned with
  or without an error.
\<close>

datatype conn_state = Conn_Ready | Conn_Shutdown | Conn_Other string

datatype wait_result = Still_Waiting | Wait_Returned "string option"

fun waitReady :: "(conn_state \<times> bool) list \<Rightarrow> wait_result" where
  "waitReady [] = Still_Waiting"
| "waitReady ((s, changed) # obs) =
     (case s of
        Conn_Ready \<Rightarrow> Wait_Returned None
      | Conn_Shutdown \<Rightarrow> Wait_Returned (Some ''connection is shut down'')
      | Conn_Other n \<Rightarrow> if \<not> changed then Wait_Returned (Some (''still '' @ n)) else waitReady obs)"

text \<open>It returns without an error only when the last state it has read is ready.\<close>

lemma waitReady_ready: "waitReady obs = Wait_Returned None \<Longrightarrow> Conn_Ready \<in> fst ` set obs"
  by (induction obs rule: waitReady.induct) (auto split: conn_state.splits if_splits)

subsection \<open>Rates\<close>

definition rpsRequested :: "options \<Rightarrow> f64" where
  "rpsRequested c = (if o_mode c = modeClosed then Fin 0 else o_rps c)"

definition scheduled_count :: "(f64 \<Rightarrow> int) \<Rightarrow> options \<Rightarrow> int" where
  "scheduled_count oob c = (let n = f64_toInt oob (f64_mul (o_rps c) (Duration_Seconds (o_duration c))) in if n < 0 then 0 else n)"

definition warmupExcludedTotal :: "(f64 \<Rightarrow> int) \<Rightarrow> options \<Rightarrow> int" where
  "warmupExcludedTotal oob c = (if o_mode c \<noteq> modeOpen then 0 else scheduled_count oob c)"

text \<open>The start of slot \<open>i\<close>.\<close>

definition slot_at :: "(f64 \<Rightarrow> int) \<Rightarrow> options \<Rightarrow> go_time \<Rightarrow> nat \<Rightarrow> go_time" where
  "slot_at oob c start i = start + f64_toInt oob (f64_mul (f64_div (f64_of_int (int i)) (o_rps c)) (f64_of_int second))"

subsection \<open>Warm-up and the closed loop\<close>

text \<open>The indices \<open>i, i + step, \<dots>\<close> below \<open>n\<close>.\<close>

function stride :: "nat \<Rightarrow> nat \<Rightarrow> nat \<Rightarrow> nat list" where
  "stride i step n = (if i < n \<and> 0 < step then i # stride (i + step) step n else [])"
  by pat_completeness auto
termination by (relation "measure (\<lambda>(i, step, n). n - i)") auto

declare stride.simps [simp del]

text \<open>The keys the warm-up sends, by worker; \<open>stopped w i\<close> is what \<open>ctx.Err() != nil\<close> says to worker \<open>w\<close> before request \<open>i\<close>.\<close>

definition warmup_indices :: "options \<Rightarrow> (nat \<Rightarrow> nat \<Rightarrow> bool) \<Rightarrow> nat list list" where
  "warmup_indices c stopped =
     (if o_warmup c \<le> 0 then []
      else let workers = nat (min (o_concurrency c) (o_warmup c))
           in map (\<lambda>w. takeWhile (\<lambda>i. \<not> stopped w i) (stride w workers (nat (o_warmup c)))) [0..<workers])"

definition warmup :: "options \<Rightarrow> string list \<Rightarrow> (nat \<Rightarrow> nat \<Rightarrow> bool) \<Rightarrow> string list list" where
  "warmup c keys stopped = map (map (keyAt keys)) (warmup_indices c stopped)"

text \<open>One worker of the closed loop on the calls it makes until the deadline or a signal.\<close>

definition closed_sample :: "string list \<Rightarrow> nat \<Rightarrow> nat \<Rightarrow> nat \<Rightarrow> go_time \<times> go_time \<times> string \<times> code \<Rightarrow> sample" where
  "closed_sample keys conc w i r =
     (case r of (sent, completed, backend, code) \<Rightarrow>
        \<lparr>sm_scheduledAt = sent, sm_sentAt = sent, sm_completedAt = completed, sm_code = code,
         sm_backendID = backend, sm_sessionKey = keyAt keys (w + i * conc)\<rparr>)"

definition runClosed :: "options \<Rightarrow> string list \<Rightarrow> (go_time \<times> go_time \<times> string \<times> code) list list \<Rightarrow> sample list list" where
  "runClosed c keys calls =
     map (\<lambda>w. map (\<lambda>i. closed_sample keys (nat (o_concurrency c)) w i (calls ! w ! i)) [0..<length (calls ! w)])
       [0..<nat (o_concurrency c)]"

subsection \<open>The open loop\<close>

type_synonym slot = "nat \<times> go_time"

text \<open>
  Where a worker is: waiting for a slot, holding one it has taken, past the check of the context, in the call with the
  time it was sent, or gone.
\<close>

datatype worker = Receiving | Holding slot | Sending slot | Calling slot go_time | Exited

text \<open>
  The parameters of a run: the number of slots, the capacity of the channel, the schedule and the keys. The
  samples are kept with the index of their slot; \<open>os_lost\<close> are the slots a worker took and threw away after a signal.
\<close>

record open_params =
  pn_slots :: nat
  pn_cap :: nat
  pn_at :: "nat \<Rightarrow> go_time"
  pn_keys :: "string list"

record open_state =
  os_now :: go_time
  os_done :: bool
  os_next :: nat
  os_chan :: "slot list"
  os_closed :: bool
  os_workers :: "worker list"
  os_log :: "(nat \<times> sample) list list"
  os_lost :: "slot list"

definition open_params_of :: "(f64 \<Rightarrow> int) \<Rightarrow> options \<Rightarrow> string list \<Rightarrow> go_time \<Rightarrow> open_params" where
  "open_params_of oob c keys start = \<lparr>pn_slots = nat (scheduled_count oob c), pn_cap = 2 * nat (o_concurrency c),
     pn_at = slot_at oob c start, pn_keys = keys\<rparr>"

definition open_sample :: "string list \<Rightarrow> slot \<Rightarrow> go_time \<Rightarrow> go_time \<Rightarrow> string \<Rightarrow> code \<Rightarrow> sample" where
  "open_sample keys s sent completed backend code =
     \<lparr>sm_scheduledAt = snd s, sm_sentAt = sent, sm_completedAt = completed, sm_code = code,
      sm_backendID = backend, sm_sessionKey = keyAt keys (fst s)\<rparr>"

inductive open_step :: "open_params \<Rightarrow> open_state \<Rightarrow> open_state \<Rightarrow> bool" for P where
  dispatch: "\<not> os_closed s \<Longrightarrow> os_next s < pn_slots P \<Longrightarrow> pn_at P (os_next s) \<le> os_now s \<Longrightarrow> length (os_chan s) < pn_cap P \<Longrightarrow>
    open_step P s (s\<lparr>os_chan := os_chan s @ [(os_next s, pn_at P (os_next s))], os_next := os_next s + 1\<rparr>)"
| dispatched: "\<not> os_closed s \<Longrightarrow> os_next s = pn_slots P \<Longrightarrow> open_step P s (s\<lparr>os_closed := True\<rparr>)"
| abandon: "\<not> os_closed s \<Longrightarrow> os_done s \<Longrightarrow> open_step P s (s\<lparr>os_closed := True\<rparr>)"
| receive: "w < length (os_workers s) \<Longrightarrow> os_workers s ! w = Receiving \<Longrightarrow> os_chan s = x # xs \<Longrightarrow>
    open_step P s (s\<lparr>os_chan := xs, os_workers := (os_workers s)[w := Holding x]\<rparr>)"
| proceed: "w < length (os_workers s) \<Longrightarrow> os_workers s ! w = Holding x \<Longrightarrow> \<not> os_done s \<Longrightarrow>
    open_step P s (s\<lparr>os_workers := (os_workers s)[w := Sending x]\<rparr>)"
| break: "w < length (os_workers s) \<Longrightarrow> os_workers s ! w = Holding x \<Longrightarrow> os_done s \<Longrightarrow>
    open_step P s (s\<lparr>os_workers := (os_workers s)[w := Exited], os_lost := x # os_lost s\<rparr>)"
| send: "w < length (os_workers s) \<Longrightarrow> os_workers s ! w = Sending x \<Longrightarrow>
    open_step P s (s\<lparr>os_workers := (os_workers s)[w := Calling x (os_now s)]\<rparr>)"
| drained: "w < length (os_workers s) \<Longrightarrow> os_workers s ! w = Receiving \<Longrightarrow> os_chan s = [] \<Longrightarrow> os_closed s \<Longrightarrow>
    open_step P s (s\<lparr>os_workers := (os_workers s)[w := Exited]\<rparr>)"
| complete: "w < length (os_workers s) \<Longrightarrow> os_workers s ! w = Calling x sent \<Longrightarrow>
    open_step P s (s\<lparr>os_workers := (os_workers s)[w := Receiving],
      os_log := (os_log s)[w := os_log s ! w @ [(fst x, open_sample (pn_keys P) x sent (os_now s) backend code)]]\<rparr>)"
| interrupt: "\<not> os_done s \<Longrightarrow> open_step P s (s\<lparr>os_done := True\<rparr>)"
| clock: "os_now s < t \<Longrightarrow> open_step P s (s\<lparr>os_now := t\<rparr>)"

definition open_start :: "nat \<Rightarrow> go_time \<Rightarrow> open_state" where
  "open_start conc now = \<lparr>os_now = now, os_done = False, os_next = 0, os_chan = [], os_closed = False,
     os_workers = replicate conc Receiving, os_log = replicate conc [], os_lost = []\<rparr>"

inductive open_reach :: "open_params \<Rightarrow> nat \<Rightarrow> open_state \<Rightarrow> bool" for P conc where
  start: "open_reach P conc (open_start conc now)"
| step: "open_reach P conc s \<Longrightarrow> open_step P s s' \<Longrightarrow> open_reach P conc s'"

definition run_over :: "open_state \<Rightarrow> bool" where
  "run_over s = list_all (\<lambda>w. w = Exited) (os_workers s)"

text \<open>What \<open>runOpen\<close> returns when the workers have exited.\<close>

definition runOpen_result :: "open_state \<Rightarrow> sample list list" where
  "runOpen_result s = map (map snd) (os_log s)"

inductive_cases open_stepE: "open_step P s s'"

end
