(* ===== verification/Open_Loop.thy ===== *)
theory Open_Loop
  imports Loadgen
begin

text \<open>
  The open loop of \<^verbatim>\<open>cmd/loadgen/main.go\<close>, for every interleaving of the dispatcher, the workers, the clock and a
  signal: who owns which slot, what the samples record, and that the run ends.
\<close>

subsection \<open>Updating one element of a list of lists\<close>

lemma mset_concat_update:
  "i < length xs \<Longrightarrow> mset (concat (map f (xs[i := y]))) + mset (f (xs ! i)) = mset (concat (map f xs)) + mset (f y)"
proof (induction xs arbitrary: i)
  case (Cons x xs)
  then show ?case by (cases i) (simp_all add: union_ac)
qed simp

lemma sum_list_update_le:
  "i < length xs \<Longrightarrow> sum_list (map f (xs[i := y])) + f (xs ! i) = sum_list (map f xs) + (f y :: nat)"
proof (induction xs arbitrary: i)
  case (Cons x xs)
  then show ?case by (cases i) simp_all
qed simp

subsection \<open>Who owns a slot\<close>

fun calling :: "worker \<Rightarrow> nat list" where
  "calling (Holding x) = [fst x]"
| "calling (Sending x) = [fst x]"
| "calling (Calling x _) = [fst x]"
| "calling _ = []"

definition owned :: "open_state \<Rightarrow> nat multiset" where
  "owned s = mset (concat (map (map fst) (os_log s))) + mset (concat (map calling (os_workers s))) +
     mset (map fst (os_chan s)) + mset (map fst (os_lost s))"

text \<open>Every slot that was dispatched is owned once: by a sample, a call, the channel, or lost to a signal.\<close>

definition open_flow :: "open_params \<Rightarrow> nat \<Rightarrow> open_state \<Rightarrow> bool" where
  "open_flow P conc s =
     (length (os_workers s) = conc \<and> length (os_log s) = conc \<and> owned s = mset [0..<os_next s] \<and> os_next s \<le> pn_slots P \<and>
      length (os_chan s) \<le> pn_cap P \<and>
      (os_closed s \<longrightarrow> os_done s \<or> os_next s = pn_slots P) \<and> (os_lost s \<noteq> [] \<longrightarrow> os_done s) \<and>
      (Exited \<in> set (os_workers s) \<and> \<not> os_done s \<longrightarrow> os_closed s \<and> os_chan s = []))"

lemma open_flow_step:
  assumes "open_step P s s'" "open_flow P conc s"
  shows "open_flow P conc s'"
  using assms
proof (induction rule: open_step.induct)
  case (receive w s x xs)
  have "mset (concat (map calling ((os_workers s)[w := Holding x]))) = add_mset (fst x) (mset (concat (map calling (os_workers s))))"
    using mset_concat_update [OF receive(1), of calling "Holding x"] receive(2) by simp
  then show ?case using receive by (auto simp: open_flow_def owned_def dest!: subsetD [OF set_update_subset_insert])
next
  case (proceed w s x)
  have "mset (concat (map calling ((os_workers s)[w := Sending x]))) = mset (concat (map calling (os_workers s)))"
    using mset_concat_update [OF proceed(1), of calling "Sending x"] proceed(2) by simp
  then show ?case using proceed by (auto simp: open_flow_def owned_def dest!: subsetD [OF set_update_subset_insert])
next
  case (send w s x)
  have "mset (concat (map calling ((os_workers s)[w := Calling x (os_now s)]))) = mset (concat (map calling (os_workers s)))"
    using mset_concat_update [OF send(1), of calling "Calling x (os_now s)"] send(2) by simp
  then show ?case using send by (auto simp: open_flow_def owned_def dest!: subsetD [OF set_update_subset_insert])
next
  case (break w s x)
  have "mset (concat (map calling (os_workers s))) = add_mset (fst x) (mset (concat (map calling ((os_workers s)[w := Exited]))))"
    using mset_concat_update [OF break(1), of calling Exited] break(2) by simp
  then show ?case using break by (auto simp: open_flow_def owned_def)
next
  case (drained w s)
  have "mset (concat (map calling ((os_workers s)[w := Exited]))) = mset (concat (map calling (os_workers s)))"
    using mset_concat_update [OF drained(1), of calling Exited] drained(2) by simp
  then show ?case using drained by (simp add: open_flow_def owned_def)
next
  case (complete w s x sent backend code)
  let ?l = "os_log s ! w @ [(fst x, open_sample (pn_keys P) x sent (os_now s) backend code)]"
  have w: "w < length (os_log s)" using complete by (simp add: open_flow_def)
  have "add_mset (fst x) (mset (concat (map calling ((os_workers s)[w := Receiving])))) = mset (concat (map calling (os_workers s)))"
    using mset_concat_update [OF complete(1), of calling Receiving] complete(2) by simp
  moreover have "mset (concat (map (map fst) ((os_log s)[w := ?l]))) = add_mset (fst x) (mset (concat (map (map fst) (os_log s))))"
    using mset_concat_update [OF w, of "map fst" ?l] by simp
  ultimately have "owned (s\<lparr>os_workers := (os_workers s)[w := Receiving], os_log := (os_log s)[w := ?l]\<rparr>) = owned s"
    by (simp add: owned_def)
  moreover have "Exited \<in> set ((os_workers s)[w := Receiving]) \<Longrightarrow> Exited \<in> set (os_workers s)"
    using set_update_subset_insert [of "os_workers s" w Receiving] by auto
  ultimately show ?case using complete(3) by (auto simp: open_flow_def)
qed (auto simp: open_flow_def owned_def)

lemma open_reach_flow: "open_reach P conc s \<Longrightarrow> open_flow P conc s"
proof (induction rule: open_reach.induct)
  case (start now)
  have "concat (map calling (replicate conc Receiving)) = []" "concat (map (map fst) (replicate conc [])) = []" by simp_all
  then show ?case unfolding open_flow_def owned_def open_start_def by simp
next
  case (step s s')
  then show ?case using open_flow_step by blast
qed

subsection \<open>What a sample records\<close>

fun call_ok :: "open_params \<Rightarrow> go_time \<Rightarrow> worker \<Rightarrow> bool" where
  "call_ok P now (Holding x) = (snd x = pn_at P (fst x) \<and> snd x \<le> now)"
| "call_ok P now (Sending x) = (snd x = pn_at P (fst x) \<and> snd x \<le> now)"
| "call_ok P now (Calling x t) = (snd x = pn_at P (fst x) \<and> snd x \<le> t \<and> t \<le> now)"
| "call_ok P now _ = True"

definition sample_ok :: "open_params \<Rightarrow> nat \<times> sample \<Rightarrow> bool" where
  "sample_ok P r = (sm_scheduledAt (snd r) = pn_at P (fst r) \<and> sm_sessionKey (snd r) = keyAt (pn_keys P) (fst r) \<and>
     sm_scheduledAt (snd r) \<le> sm_sentAt (snd r) \<and> sm_sentAt (snd r) \<le> sm_completedAt (snd r))"

definition open_times :: "open_params \<Rightarrow> open_state \<Rightarrow> bool" where
  "open_times P s =
     (list_all (\<lambda>x. snd x = pn_at P (fst x) \<and> snd x \<le> os_now s) (os_chan s) \<and>
      list_all (call_ok P (os_now s)) (os_workers s) \<and> list_all (list_all (sample_ok P)) (os_log s))"

lemma list_all_nth: "list_all Q xs \<Longrightarrow> i < length xs \<Longrightarrow> Q (xs ! i)"
  by (simp add: list_all_length)

lemma open_times_step:
  assumes "open_step P s s'" "open_times P s"
  shows "open_times P s'"
  using assms
proof (induction rule: open_step.induct)
  case (complete w s x sent backend code)
  have ok: "call_ok P (os_now s) (Calling x sent)"
    using complete unfolding open_times_def list_all_length by metis
  have "sample_ok P (fst x, open_sample (pn_keys P) x sent (os_now s) backend code)"
    using ok by (simp add: sample_ok_def open_sample_def)
  then have "w < length (os_log s) \<Longrightarrow> list_all (sample_ok P) (os_log s ! w @ [(fst x, open_sample (pn_keys P) x sent (os_now s) backend code)])"
    using complete(3) list_all_nth [of "list_all (sample_ok P)" "os_log s" w] by (simp add: open_times_def)
  then show ?case using complete(3)
    by (cases "w < length (os_log s)") (simp_all add: open_times_def list_all_update list_update_beyond)
next
  case (proceed w s x)
  have "call_ok P (os_now s) (Holding x)" using proceed unfolding open_times_def list_all_length by metis
  then show ?case using proceed by (simp add: open_times_def list_all_update)
next
  case (send w s x)
  have "call_ok P (os_now s) (Sending x)" using send unfolding open_times_def list_all_length by metis
  then show ?case using send by (simp add: open_times_def list_all_update)
next
  case (clock s t)
  have "call_ok P t w" if "call_ok P (os_now s) w" for w using that clock(1) by (cases w) auto
  then show ?case using clock unfolding open_times_def by (fastforce simp: list_all_iff)
qed (auto simp: open_times_def list_all_update)

lemma open_reach_times: "open_reach P conc s \<Longrightarrow> open_times P s"
proof (induction rule: open_reach.induct)
  case (start now)
  show ?case by (simp add: open_times_def open_start_def list_all_iff)
next
  case (step s s')
  then show ?case using open_times_step by blast
qed

lemma sample_ok_times: "sample_ok P r \<Longrightarrow> 0 \<le> serviceTime (snd r) \<and> serviceTime (snd r) \<le> responseTime (snd r)"
  by (auto simp: sample_ok_def serviceTime_def responseTime_def time_sub_def i64_min_def i64_max_def min_def max_def)

lemma merge_length: "length (mergeSamples (runOpen_result s)) = size (mset (concat (map (map fst) (os_log s))))"
proof -
  have "foldl (\<lambda>out w. out @ w) acc us = acc @ concat us" for acc and us :: "sample list list"
    by (induction us arbitrary: acc) simp_all
  then show ?thesis by (simp add: mergeSamples_def runOpen_result_def length_concat comp_def)
qed

subsection \<open>The run ends\<close>

fun worker_work :: "worker \<Rightarrow> nat" where
  "worker_work Receiving = 1"
| "worker_work (Holding _) = 5"
| "worker_work (Sending _) = 4"
| "worker_work (Calling _ _) = 3"
| "worker_work Exited = 0"

definition open_work :: "open_params \<Rightarrow> open_state \<Rightarrow> nat" where
  "open_work P s = 6 * (pn_slots P - os_next s) + 5 * length (os_chan s) + sum_list (map worker_work (os_workers s)) +
     (if os_closed s then 0 else 1) + (if os_done s then 0 else 1)"

text \<open>Every step other than the passing of time uses up work.\<close>

lemma open_step_work:
  assumes "open_step P s s'"
  shows "open_work P s' < open_work P s \<or> (\<exists>t. s' = s\<lparr>os_now := t\<rparr> \<and> os_now s < t)"
  using assms
proof (induction rule: open_step.induct)
  case (receive w s x xs)
  then show ?case using sum_list_update_le [of w "os_workers s" worker_work "Holding x"] by (simp add: open_work_def)
next
  case (proceed w s x)
  then show ?case using sum_list_update_le [of w "os_workers s" worker_work "Sending x"] by (simp add: open_work_def)
next
  case (send w s x)
  then show ?case using sum_list_update_le [of w "os_workers s" worker_work "Calling x (os_now s)"] by (simp add: open_work_def)
next
  case (break w s x)
  then show ?case using sum_list_update_le [of w "os_workers s" worker_work Exited] by (simp add: open_work_def)
next
  case (drained w s)
  then show ?case using sum_list_update_le [of w "os_workers s" worker_work Exited] by (simp add: open_work_def)
next
  case (complete w s x sent backend code)
  then show ?case using sum_list_update_le [of w "os_workers s" worker_work Receiving] by (simp add: open_work_def)
next
  case (clock s t)
  then show ?case by blast
qed (auto simp: open_work_def)

text \<open>Until the run is over some step other than a signal uses up work, possibly once the next slot is due.\<close>

lemma open_progress:
  assumes inv: "open_flow P conc s" and "0 < pn_cap P" "\<not> run_over s"
  shows "\<exists>t s'. os_now s \<le> t \<and> open_step P (s\<lparr>os_now := t\<rparr>) s' \<and> open_work P s' < open_work P s \<and> os_done s' = os_done s"
proof -
  obtain w where w: "w < length (os_workers s)" "os_workers s ! w \<noteq> Exited"
    using assms(3) by (auto simp: run_over_def list_all_length)
  have now: "\<exists>t s'. os_now s \<le> t \<and> open_step P (s\<lparr>os_now := t\<rparr>) s' \<and> open_work P s' < open_work P s \<and> os_done s' = os_done s"
    if "open_step P s s'" "os_done s' = os_done s" "os_now s' = os_now s" for s'
    using that open_step_work [OF that(1)] by (intro exI [of _ "os_now s"] exI [of _ s']) auto
  show ?thesis
  proof (cases "os_workers s ! w")
    case (Calling x sent)
    show ?thesis by (rule now [OF open_step.complete [OF w(1) Calling]]) simp_all
  next
    case (Sending x)
    show ?thesis by (rule now [OF open_step.send [OF w(1) Sending]]) simp_all
  next
    case (Holding x)
    show ?thesis
    proof (cases "os_done s")
      case True
      show ?thesis by (rule now [OF open_step.break [OF w(1) Holding True]]) simp_all
    next
      case False
      show ?thesis by (rule now [OF open_step.proceed [OF w(1) Holding False]]) simp_all
    qed
  next
    case Receiving
    show ?thesis
    proof (cases "os_chan s")
      case (Cons x xs)
      show ?thesis by (rule now [OF open_step.receive [OF w(1) Receiving Cons]]) simp_all
    next
      case Nil
      consider "os_closed s" | "\<not> os_closed s" "os_next s = pn_slots P" | "\<not> os_closed s" "os_next s < pn_slots P"
        using inv by (fastforce simp: open_flow_def)
      then show ?thesis
      proof cases
        case 1
        show ?thesis by (rule now [OF open_step.drained [OF w(1) Receiving Nil 1]]) simp_all
      next
        case 2
        show ?thesis by (rule now [OF open_step.dispatched [OF 2]]) simp_all
      next
        case 3
        let ?t = "max (os_now s) (pn_at P (os_next s))"
        have "open_step P (s\<lparr>os_now := ?t\<rparr>) (s\<lparr>os_now := ?t, os_chan := [(os_next s, pn_at P (os_next s))], os_next := os_next s + 1\<rparr>)"
          using open_step.dispatch [of "s\<lparr>os_now := ?t\<rparr>" P] 3 Nil assms(2) by simp
        then show ?thesis using 3 Nil
          by (intro exI [of _ ?t] exI [of _ "s\<lparr>os_now := ?t, os_chan := [(os_next s, pn_at P (os_next s))], os_next := os_next s + 1\<rparr>"])
             (simp add: open_work_def)
      qed
    qed
  qed (use w in simp)
qed

lemma open_finishes:
  assumes "open_flow P conc s" "0 < pn_cap P"
  shows "\<exists>s'. (open_step P)\<^sup>*\<^sup>* s s' \<and> run_over s' \<and> os_done s' = os_done s"
  using assms(1)
proof (induction "open_work P s" arbitrary: s rule: less_induct)
  case less
  show ?case
  proof (cases "run_over s")
    case False
    obtain t s1 where s1: "os_now s \<le> t" "open_step P (s\<lparr>os_now := t\<rparr>) s1" "open_work P s1 < open_work P s" "os_done s1 = os_done s"
      using open_progress [OF less.prems assms(2) False] by blast
    have c: "(open_step P)\<^sup>*\<^sup>* s (s\<lparr>os_now := t\<rparr>)"
      using s1(1) open_step.clock [of s t P] by (cases "os_now s = t") auto
    have flow: "open_flow P conc (s\<lparr>os_now := t\<rparr>)" using less.prems by (simp add: open_flow_def owned_def)
    obtain s2 where "(open_step P)\<^sup>*\<^sup>* s1 s2" "run_over s2" "os_done s2 = os_done s1"
      using less.hyps [OF s1(3) open_flow_step [OF s1(2) flow]] by blast
    then show ?thesis using c s1(2,4) by (metis (no_types) converse_rtranclp_into_rtranclp rtranclp_trans)
  qed blast
qed

lemma open_reach_steps: "(open_step P)\<^sup>*\<^sup>* a b \<Longrightarrow> open_reach P conc a \<Longrightarrow> open_reach P conc b"
  by (induction rule: rtranclp_induct) (auto intro: open_reach.step)

text \<open>A run that ends without a signal has one sample per slot.\<close>

lemma open_run_complete:
  assumes "open_reach P conc s" "0 < conc" "run_over s" "\<not> os_done s"
  shows "mset (concat (map (map fst) (os_log s))) = mset [0..<pn_slots P]" "length (mergeSamples (runOpen_result s)) = pn_slots P"
proof -
  have flow: "open_flow P conc s" by (rule open_reach_flow [OF assms(1)])
  have "Exited \<in> set (os_workers s)" using assms flow by (cases "os_workers s") (auto simp: run_over_def open_flow_def)
  then have "os_chan s = []" "os_next s = pn_slots P" "os_lost s = []" using flow assms(4) by (auto simp: open_flow_def)
  moreover have calls: "concat (map calling (os_workers s)) = []" using assms(3) by (auto simp: run_over_def list_all_iff)
  moreover have "owned s = mset [0..<os_next s]" using flow by (simp add: open_flow_def)
  ultimately show eq: "mset (concat (map (map fst) (os_log s))) = mset [0..<pn_slots P]" unfolding owned_def calls by simp
  show "length (mergeSamples (runOpen_result s)) = pn_slots P" using merge_length [of s] eq by simp
qed

subsection \<open>Claims\<close>

text \<open>
  C11: The open loop measures every request of its schedule. However the dispatcher, the workers and the clock
  interleave, no slot gives two samples; a run that ends without a signal has exactly one sample per slot, so
  that \<open>Total\<close> is \<open>Scheduled\<close>; and each sample carries the start its slot had in the schedule, which the request never
  precedes, so that the response time includes the wait for a worker.
\<close>

theorem open_loop_exactly_once:
  assumes "open_reach P conc s"
  shows "mset (concat (map (map fst) (os_log s))) \<subseteq># mset [0..<pn_slots P] \<and>
    (0 < conc \<and> run_over s \<and> \<not> os_done s \<longrightarrow>
       mset (concat (map (map fst) (os_log s))) = mset [0..<pn_slots P] \<and>
       length (mergeSamples (runOpen_result s)) = pn_slots P) \<and>
    (\<forall>r \<in> set (concat (os_log s)). sample_ok P r \<and> 0 \<le> serviceTime (snd r) \<and> serviceTime (snd r) \<le> responseTime (snd r))"
proof -
  have flow: "open_flow P conc s" by (rule open_reach_flow [OF assms])
  have own: "owned s = mset [0..<os_next s]" and le: "os_next s \<le> pn_slots P" using flow by (simp_all add: open_flow_def)
  have "mset (concat (map (map fst) (os_log s))) \<subseteq># owned s" by (simp add: owned_def)
  also have "owned s \<subseteq># mset [0..<pn_slots P]"
    unfolding own using le upt_add_eq_append [of 0 "os_next s" "pn_slots P - os_next s"] by (simp add: mset_subset_eq_add_left)
  finally have sub: "mset (concat (map (map fst) (os_log s))) \<subseteq># mset [0..<pn_slots P]" .
  have "sample_ok P r" if "r \<in> set (concat (os_log s))" for r
    using open_reach_times [OF assms] that by (auto simp: open_times_def list_all_iff)
  then show ?thesis using sub open_run_complete [OF assms] sample_ok_times by blast
qed

text \<open>
  C26: The open loop ends. From every reachable state, whatever happened before, there is a way to the end of the
  run on which no further signal occurs: nothing deadlocks on the channel. And no schedule can avoid the end
  forever, since every step other than the passing of time strictly decreases the work that is left.
\<close>

theorem open_loop_terminates:
  assumes "open_reach P conc s" "0 < pn_cap P"
  shows "(\<exists>s'. (open_step P)\<^sup>*\<^sup>* s s' \<and> run_over s' \<and> os_done s' = os_done s) \<and>
    (\<forall>s'. open_step P s s' \<longrightarrow> open_work P s' < open_work P s \<or> (\<exists>t. s' = s\<lparr>os_now := t\<rparr> \<and> os_now s < t))"
  using open_finishes [OF open_reach_flow [OF assms(1)] assms(2)] open_step_work by blast

definition one_slot :: open_params where
  "one_slot = \<lparr>pn_slots = 1, pn_cap = 2, pn_at = (\<lambda>i. int i), pn_keys = [''k'']\<rparr>"

lemma one_slot_run:
  "\<exists>s. open_reach one_slot 1 s \<and> run_over s \<and> \<not> os_done s"
proof -
  have r: "open_reach one_slot 1 (open_start 1 0)" by (rule open_reach.start)
  then show ?thesis using open_finishes [OF open_reach_flow [OF r]] open_reach_steps by (fastforce simp: one_slot_def open_start_def)
qed

theorem open_loop_exactly_once_witness:
  "\<exists>s. open_reach one_slot 1 s \<and> run_over s \<and> length (mergeSamples (runOpen_result s)) = 1"
proof -
  obtain s where s: "open_reach one_slot 1 s" "run_over s" "\<not> os_done s" using one_slot_run by blast
  then show ?thesis using open_loop_exactly_once [OF s(1)] by (auto simp: one_slot_def)
qed

theorem open_loop_terminates_witness:
  "\<exists>s'. (open_step one_slot)\<^sup>*\<^sup>* (open_start 1 0) s' \<and> run_over s'"
proof -
  have r: "open_reach one_slot 1 (open_start 1 0)" by (rule open_reach.start)
  have "0 < pn_cap one_slot" by (simp add: one_slot_def)
  then show ?thesis using open_loop_terminates [OF r] by blast
qed

end
