(* ===== verification/Loadgen_Run.thy ===== *)
theory Loadgen_Run
  imports Open_Loop Verdict
begin

text \<open>
  The rest of \<^verbatim>\<open>cmd/loadgen\<close>: the table of \<^verbatim>\<open>stats.go\<close> and \<open>run\<close> of \<^verbatim>\<open>main.go\<close>, from the options to the exit, as a
  trace of effects; the keys of the closed loop and of the warm-up; what an unchecked option does. \<open>tab\<close> is
  \<open>text/tabwriter\<close> (left or right aligned) on the text written to it, and the encoder of the report is an input.
\<close>

subsection \<open>The table\<close>

definition nl :: string where "nl = [CHR 0x0A]"
definition ht :: string where "ht = [CHR 0x09]"

definition writeLatencyRow :: "string \<Rightarrow> latency_stats \<Rightarrow> string" where
  "writeLatencyRow name s =
     name @ ht @ fmt_f 3 (la_P50 s) @ ht @ fmt_f 3 (la_P90 s) @ ht @ fmt_f 3 (la_P95 s) @ ht @ fmt_f 3 (la_P99 s) @ ht @
     fmt_f 3 (la_P999 s) @ ht @ fmt_f 3 (la_Max s) @ ht @ fmt_f 3 (la_Mean s) @ ht @ nl"

definition table_summary :: "report \<Rightarrow> string" where
  "table_summary r =
     ''target'' @ ht @ rp_Target r @ nl @
     ''mode'' @ ht @ rp_Mode r @ '', method '' @ rp_Method r @
     (if rp_Method r = methodStream then '' ('' @ itoa (rp_StreamCount r) @ '' messages)'' else []) @ nl @
     ''load'' @ ht @ itoa (rp_Conns r) @ '' conns, '' @ itoa (rp_Concurrency r) @ '' workers, '' @ itoa (rp_PayloadBytes r) @
     '' B payload, '' @ itoa (rp_DelayMs r) @ '' ms server delay'' @ nl @
     ''duration'' @ ht @ fmt_f 3 (rp_DurationS r) @ '' s'' @ nl @
     (if rp_Mode r = modeClosed
      then ''rps'' @ ht @ ''n/a requested (closed loop), '' @ fmt_f 3 (rp_RPSAchieved r) @ '' achieved'' @ nl
      else ''rps'' @ ht @ fmt_f 3 (rp_RPSRequested r) @ '' requested, '' @ fmt_f 3 (rp_RPSAchieved r) @ '' achieved'' @ nl) @
     ''requests'' @ ht @ itoa (rp_Total r) @ '' total, '' @ itoa (rp_OK r) @ '' ok, '' @ itoa (rp_Errors r) @ '' errors'' @
     (if rp_Interrupted r \<or> rp_Scheduled r > 0 \<and> rp_Total r < rp_Scheduled r
      then '' (INTERRUPTED: '' @ itoa (rp_Total r) @ '' of '' @ itoa (rp_Scheduled r) @ '' scheduled completed)'' else []) @ nl @
     ''errors'' @ ht @ formatCounts (rp_ErrorsByCode r) @ nl @
     ''backends'' @ ht @ formatCounts (rp_BackendDistribution r) @ nl @
     ''keys'' @ ht @ itoa (rp_DistinctKeys r) @ '' distinct, '' @ itoa (rp_KeysWithMultipleBackends r) @
     '' with more than one backend'' @ nl"

definition table_latency :: "report \<Rightarrow> string" where
  "table_latency r =
     ''timer (ms)'' @ ht @ ''p50'' @ ht @ ''p90'' @ ht @ ''p95'' @ ht @ ''p99'' @ ht @ ''p99.9'' @ ht @ ''max'' @ ht @ ''mean'' @ ht @ nl @
     writeLatencyRow ''service'' (rp_ServiceTime r) @ writeLatencyRow ''response'' (rp_ResponseTime r) @
     (if rp_Errors r > 0 then writeLatencyRow ''errors'' (rp_ErrorLatency r) else [])"

definition Table :: "(bool \<Rightarrow> string \<Rightarrow> string) \<Rightarrow> report \<Rightarrow> string" where
  "Table tab r =
     ''=== '' @ rp_Label r @ '' ==='' @ nl @ tab False (table_summary r) @ nl @ tab True (table_latency r) @ nl @
     verdict r @ nl @
     ''  latency  p99 response '' @ fmt_f 3 (la_P99 (rp_ResponseTime r)) @ '' ms vs SLO '' @ fmt_f 3 (rp_SLOMs r) @ '' ms; '' @
     itoa (rp_OK r - rp_SLOViolations r) @ ''/'' @ itoa (rp_OK r) @ '' ok requests under SLO ('' @
     fmt_f 4 (f64_mul (rp_SLOFractionUnder r) (Fin 100)) @ ''%), '' @ itoa (rp_SLOViolations r) @ '' violations'' @ nl @
     ''  errors   '' @ itoa (rp_Errors r) @ ''/'' @ itoa (rp_Total r) @ '' ('' @ fmt_f 4 (f64_mul (rp_ErrorRatio r) (Fin 100)) @
     ''%) vs budget '' @ fmt_f 4 (f64_mul (rp_ErrorBudget r) (Fin 100)) @ ''%'' @ nl @
     (if rp_Total r = 0 then ''no samples were recorded'' @ nl else [])"

subsection \<open>The run\<close>

text \<open>
  What a run meets: the results of \<open>grpc.NewClient\<close> and \<open>waitReady\<close> for each connection, whether a signal had
  arrived at the points where the code asks, the samples measured, the time taken, the encoder and the writers.
\<close>

record run_world =
  rw_newClient :: "nat \<Rightarrow> go_error option"
  rw_ready :: "nat \<Rightarrow> string option"
  rw_early :: bool
  rw_measured :: "sample list list"
  rw_elapsed :: duration
  rw_interrupted :: bool
  rw_json :: "report \<Rightarrow> string option"
  rw_writeFile :: "string \<Rightarrow> bool"
  rw_stdout :: bool
  rw_late :: bool

datatype run_error =
    Bad_Command_Line options_error
  | No_Client string go_error
  | Interrupted_Before
  | Not_Accepting string string
  | No_Encoding
  | No_File string
  | No_Stdout

datatype run_effect =
    Dialled nat
  | Measured "caller list" "string list"
  | Wrote string string
  | Printed string
  | Notice string
  | Closed_Conn nat

definition run_params_of :: "(f64 \<Rightarrow> int) \<Rightarrow> options \<Rightarrow> duration \<Rightarrow> bool \<Rightarrow> run_params" where
  "run_params_of oob c elapsed interrupted =
     \<lparr>pa_Label = o_label c, pa_Target = o_target c, pa_Mode = o_mode c, pa_Method = o_method c, pa_StreamCount = o_streamCount c,
      pa_RPSRequested = rpsRequested c, pa_Elapsed = elapsed, pa_Scheduled = warmupExcludedTotal oob c,
      pa_Interrupted = interrupted, pa_SLO = o_slo c, pa_ErrorBudget = o_errorBudget c, pa_Conns = o_conns c,
      pa_Concurrency = o_concurrency c, pa_PayloadBytes = o_payload c, pa_DelayMs = o_delayMs c\<rparr>"

text \<open>The loop over \<open>grpc.NewClient\<close>: how many connections exist after it, and the error that ended it.\<close>

fun dial_loop :: "(nat \<Rightarrow> go_error option) \<Rightarrow> nat \<Rightarrow> nat \<Rightarrow> nat \<times> go_error option" where
  "dial_loop newClient i 0 = (i, None)"
| "dial_loop newClient i (Suc n) = (case newClient i of Some err \<Rightarrow> (i, Some err) | None \<Rightarrow> dial_loop newClient (Suc i) n)"

fun ready_loop :: "(nat \<Rightarrow> string option) \<Rightarrow> nat list \<Rightarrow> string option" where
  "ready_loop ready [] = None"
| "ready_loop ready (i # is) = (case ready i of Some msg \<Rightarrow> Some msg | None \<Rightarrow> ready_loop ready is)"

definition run_report :: "(code \<Rightarrow> string) \<Rightarrow> (f64 \<Rightarrow> int) \<Rightarrow> options \<Rightarrow> run_world \<Rightarrow> report" where
  "run_report name oob c w =
     buildReport name oob (mergeSamples (rw_measured w)) (run_params_of oob c (rw_elapsed w) (rw_interrupted w))"

text \<open>The end of \<open>run\<close>: the report to its file, the table to standard output, a notice after a signal.\<close>

definition run_output :: "(bool \<Rightarrow> string \<Rightarrow> string) \<Rightarrow> options \<Rightarrow> run_world \<Rightarrow> report \<Rightarrow> run_error option \<times> run_effect list" where
  "run_output tab c w rep =
     (let file = (if o_out c = [] then Inr []
                  else case rw_json w rep of
                         None \<Rightarrow> Inl No_Encoding
                       | Some b \<Rightarrow> if rw_writeFile w (o_out c) then Inr [Wrote (o_out c) (b @ nl)] else Inl (No_File (o_out c)))
      in case file of
           Inl e \<Rightarrow> (Some e, [])
         | Inr wrote \<Rightarrow>
             (if \<not> rw_stdout w then (Some No_Stdout, wrote)
              else (None, wrote @ [Printed (Table tab rep)] @
                          (if rw_late w then [Notice ''loadgen: interrupted; the report covers only what was collected''] else []))))"

definition run_callers :: "options \<Rightarrow> nat \<Rightarrow> caller list" where
  "run_callers c conns = map (\<lambda>w. newCaller (w mod conns) c (o_payload c)) [0..<nat (o_concurrency c)]"

definition loadgen_body ::
  "(code \<Rightarrow> string) \<Rightarrow> (f64 \<Rightarrow> int) \<Rightarrow> (bool \<Rightarrow> string \<Rightarrow> string) \<Rightarrow> options \<Rightarrow> run_world \<Rightarrow> nat \<Rightarrow> run_error option \<times> run_effect list" where
  "loadgen_body name oob tab c w conns =
     (case ready_loop (rw_ready w) [0..<conns] of
        Some msg \<Rightarrow> (Some (if rw_early w then Interrupted_Before else Not_Accepting (o_target c) msg), [])
      | None \<Rightarrow>
          (let (err, out) = run_output tab c w (run_report name oob c w)
           in (err, Measured (run_callers c conns) (buildKeyTable (o_keys c)) # out)))"

definition loadgen_run ::
  "(code \<Rightarrow> string) \<Rightarrow> (f64 \<Rightarrow> int) \<Rightarrow> (bool \<Rightarrow> string \<Rightarrow> string) \<Rightarrow> int \<Rightarrow> (string \<Rightarrow> string option) \<Rightarrow> string list \<Rightarrow> run_world \<Rightarrow>
   run_error option \<times> run_effect list" where
  "loadgen_run name oob tab cpus env args w =
     (case parseFlags cpus env args of
        Inl e \<Rightarrow> (Some (Bad_Command_Line e), [])
      | Inr c \<Rightarrow>
          (let (conns, failed) = dial_loop (rw_newClient w) 0 (nat (o_conns c));
               (err, out) = (case failed of Some err \<Rightarrow> (Some (No_Client (o_target c) err), [])
                                          | None \<Rightarrow> loadgen_body name oob tab c w conns)
           in (err, map Dialled [0..<conns] @ out @ map Closed_Conn [0..<conns])))"

text \<open>\<open>main\<close>: the exit status, and what it prints to standard error; asking for help is not an error.\<close>

definition loadgen_main :: "(run_error \<Rightarrow> string) \<Rightarrow> run_error option \<Rightarrow> int \<times> string" where
  "loadgen_main message err =
     (case err of
        None \<Rightarrow> (0, [])
      | Some e \<Rightarrow> if e = Bad_Command_Line (Flags_Refused ErrHelp) then (0, []) else (1, ''loadgen: '' @ message e @ nl))"

subsection \<open>Lemmas\<close>

lemma dial_loop_le: "dial_loop newClient i n = (m, e) \<Longrightarrow> i \<le> m \<and> m \<le> i + n \<and> (e = None \<longrightarrow> m = i + n)"
proof (induction n arbitrary: i)
  case (Suc n)
  show ?case
  proof (cases "newClient i")
    case None
    then show ?thesis using Suc.IH [of "Suc i"] Suc.prems by auto
  next
    case (Some err)
    then show ?thesis using Suc.prems by (cases e) simp_all
  qed
qed simp

lemma ready_loop_none: "ready_loop ready is = None \<longleftrightarrow> list_all (\<lambda>i. ready i = None) is"
  by (induction "is") (auto split: option.split)

text \<open>What \<open>validate\<close> guarantees.\<close>

definition options_ok :: "options \<Rightarrow> bool" where
  "options_ok c =
     (o_target c \<noteq> [] \<and> (o_mode c = modeOpen \<and> \<not> f64_le (o_rps c) (Fin 0) \<or> o_mode c = modeClosed) \<and>
      (o_method c = methodUnary \<and> o_streamCount c = 0 \<or> o_method c = methodStream \<and> 1 \<le> o_streamCount c) \<and>
      0 < o_duration c \<and> 1 \<le> o_concurrency c \<and> 0 \<le> o_warmup c \<and> 0 \<le> o_payload c \<and> 0 \<le> o_delayMs c \<and> 0 \<le> o_keys c \<and>
      0 < o_slo c \<and> 1 \<le> o_conns c)"

lemma check_method_ok:
  "check_method c = Inr d \<Longrightarrow> (\<exists>n. d = c\<lparr>o_streamCount := n\<rparr>) \<and>
     (o_method d = methodUnary \<and> o_streamCount d = 0 \<or> o_method d = methodStream \<and> 1 \<le> o_streamCount d)"
  by (cases c) (auto simp: check_method_def split: if_splits)

lemma validate_options_ok:
  assumes "validate cpus c = Inr d"
  shows "options_ok d"
proof -
  obtain e where e: "check_method c = Inr e" using assms by (auto simp: validate_def split: if_splits sum.splits)
  obtain n where n: "e = c\<lparr>o_streamCount := n\<rparr>" using check_method_ok [OF e] by blast
  have d: "d = (if o_conns e \<le> 0 then e\<lparr>o_conns := max 1 (min (o_concurrency e) cpus)\<rparr> else e)"
    using assms unfolding validate_def e sum.case by (simp split: if_splits)
  have "o_target c \<noteq> []" "o_mode c = modeOpen \<and> \<not> f64_le (o_rps c) (Fin 0) \<or> o_mode c = modeClosed"
    using assms unfolding validate_def by (simp_all split: if_splits) blast
  moreover have "0 < o_duration e" "1 \<le> o_concurrency e" "0 \<le> o_warmup e" "0 \<le> o_payload e" "0 \<le> o_delayMs e"
    "0 \<le> o_keys e" "0 < o_slo e"
    using assms unfolding validate_def e sum.case by (simp_all split: if_splits)
  ultimately show ?thesis using check_method_ok [OF e] by (auto simp: options_ok_def d n)
qed

lemma parseFlags_options_ok: "parseFlags cpus env args = Inr c \<Longrightarrow> options_ok c"
  by (auto simp: parseFlags_def split: sum.splits dest: validate_options_ok)

subsection \<open>Keys\<close>

definition digits_value :: "string \<Rightarrow> int" where
  "digits_value s = foldl (\<lambda>v c. 10 * v + (of_char c - 48)) 0 s"

lemma dec_digits_value: "0 \<le> n \<Longrightarrow> digits_value (dec_digits n) = n"
proof (induction n rule: dec_digits.induct)
  case (1 n)
  then show ?case by (subst dec_digits.simps) (simp add: digits_value_def)
qed

lemma itoa_nat_inj: "itoa (int i) = itoa (int j) \<longleftrightarrow> i = j"
  by (metis dec_digits_value itoa_def linorder_not_less of_nat_0_le_iff of_nat_eq_iff)

lemma keyAt_table: "0 < n \<Longrightarrow> keyAt (buildKeyTable n) i = ''key-'' @ itoa (int (i mod nat n))"
  by (simp add: keyAt_def buildKeyTable_def)

lemma keyAt_eq: "0 < n \<Longrightarrow> keyAt (buildKeyTable n) i = keyAt (buildKeyTable n) j \<longleftrightarrow> i mod nat n = j mod nat n"
  by (simp add: keyAt_table itoa_nat_inj)

text \<open>The residues modulo \<open>K\<close> that a stride of \<open>c\<close> visits from \<open>w\<close>.\<close>

lemma stride_residue:
  fixes w c K j :: nat
  assumes "0 < K" "j < K"
  shows "(\<exists>i. (w + i * c) mod K = j) \<longleftrightarrow> j mod gcd c K = w mod gcd c K"
proof
  assume "\<exists>i. (w + i * c) mod K = j"
  then obtain i where i: "(w + i * c) mod K = j" by blast
  have "j mod gcd c K = (w + i * c) mod gcd c K" using i by (metis gcd_dvd2 mod_mod_cancel)
  also have "\<dots> = w mod gcd c K" by (metis gcd_dvd1 dvd_mult mod_add_self2 dvd_imp_mod_0 mod_add_right_eq add_0_right)
  finally show "j mod gcd c K = w mod gcd c K" .
next
  assume eq: "j mod gcd c K = w mod gcd c K"
  obtain u v where uv: "u * int c + v * int K = gcd (int c) (int K)" using bezout_int by blast
  have "int j mod int (gcd c K) = int w mod int (gcd c K)" using eq by (metis of_nat_mod)
  then have "int (gcd c K) dvd int j - int w" by (simp add: mod_eq_dvd_iff)
  then obtain t where t: "int j - int w = gcd (int c) (int K) * t" by (auto simp: gcd_int_int_eq)
  let ?i = "nat ((t * u) mod int K)"
  have i: "int ?i = (t * u) mod int K" using assms(1) by simp
  have "int ((w + ?i * c) mod K) = (int w + (t * u) mod int K * int c) mod int K"
    by (simp only: of_nat_mod of_nat_add of_nat_mult i)
  also have "\<dots> = (int w + t * u * int c) mod int K" by (metis mod_add_right_eq mod_mult_left_eq)
  also have "int w + t * u * int c = int j + (- (t * v)) * int K"
    using t unfolding uv [symmetric] by (simp add: algebra_simps)
  also have "\<dots> mod int K = int j" using assms(2) by (simp only: mod_mult_self1) simp
  finally show "\<exists>i. (w + i * c) mod K = j" by (metis of_nat_eq_iff)
qed

text \<open>The keys that worker \<open>w\<close> of the closed loop can send.\<close>

definition worker_keys :: "options \<Rightarrow> nat \<Rightarrow> string set" where
  "worker_keys c w =
     {sm_sessionKey (closed_sample (buildKeyTable (o_keys c)) (nat (o_concurrency c)) w i r) | i r. True}"

lemma worker_keys_keyAt: "worker_keys c w = {keyAt (buildKeyTable (o_keys c)) (w + i * nat (o_concurrency c)) | i. True}"
  by (auto simp: worker_keys_def closed_sample_def split_beta)

lemma worker_keys_residues:
  assumes "0 < o_keys c"
  shows "worker_keys c w =
    (\<lambda>j. ''key-'' @ itoa (int j)) ` {j. j < nat (o_keys c) \<and>
       j mod gcd (nat (o_concurrency c)) (nat (o_keys c)) = w mod gcd (nat (o_concurrency c)) (nat (o_keys c))}"
proof -
  let ?K = "nat (o_keys c)"
  have K: "0 < ?K" using assms by simp
  have "worker_keys c w = (\<lambda>j. ''key-'' @ itoa (int j)) ` {j. j < ?K \<and> (\<exists>i. (w + i * nat (o_concurrency c)) mod ?K = j)}"
    using K unfolding worker_keys_keyAt keyAt_table [OF assms] by auto
  moreover have "{j. j < ?K \<and> (\<exists>i. (w + i * nat (o_concurrency c)) mod ?K = j)} =
      {j. j < ?K \<and> j mod gcd (nat (o_concurrency c)) ?K = w mod gcd (nat (o_concurrency c)) ?K}"
    using stride_residue [OF K] by blast
  ultimately show ?thesis by simp
qed

subsection \<open>The warm-up\<close>

lemma stride_set: "0 < k \<Longrightarrow> set (stride i k n) = {j. i \<le> j \<and> j < n \<and> j mod k = i mod k}"
proof (induction i k n rule: stride.induct)
  case (1 i k n)
  have next_res: "j = i \<or> i + k \<le> j" if "i \<le> j" "j mod k = i mod k" for j
  proof -
    have "k dvd j - i" using that mod_eq_dvd_iff_nat [OF that(1), of k] by simp
    then obtain q where "j - i = k * q" by (rule dvdE)
    then have "j = i + k * q" using that(1) by simp
    then show ?thesis by (cases q) simp_all
  qed
  show ?case
  proof (cases "i < n")
    case True
    then have "set (stride i k n) = insert i {j. i + k \<le> j \<and> j < n \<and> j mod k = i mod k}"
      using 1 by (subst stride.simps) simp
    then show ?thesis using True next_res by fastforce
  next
    case False
    then show ?thesis by (subst stride.simps) auto
  qed
qed

lemma stride_distinct: "0 < k \<Longrightarrow> distinct (stride i k n)"
proof (induction i k n rule: stride.induct)
  case (1 i k n)
  then show ?case using stride_set [of k "i + k" n] by (subst stride.simps) auto
qed

text \<open>Without a signal the warm-up sends each of its requests exactly once, whatever the number of workers.\<close>

lemma warmup_once:
  assumes "options_ok c"
  shows "mset (concat (warmup_indices c (\<lambda>_ _. False))) = mset [0..<nat (o_warmup c)]"
proof (cases "o_warmup c \<le> 0")
  case False
  let ?k = "nat (min (o_concurrency c) (o_warmup c))" and ?n = "nat (o_warmup c)"
  have k: "0 < ?k" using assms False by (simp add: options_ok_def)
  have all: "warmup_indices c (\<lambda>_ _. False) = map (\<lambda>w. stride w ?k ?n) [0..<?k]"
    using False takeWhile_eq_all_conv [of "\<lambda>_. True"] by (simp add: warmup_indices_def Let_def)
  have set_w: "set (stride w ?k ?n) = {j. j < ?n \<and> j mod ?k = w}" if "w < ?k" for w
    using stride_set [OF k, of w ?n] that by (auto intro: le_trans [OF mod_less_eq_dividend])
  have "distinct (concat (map (\<lambda>w. stride w ?k ?n) [0..<m]))" if "m \<le> ?k" for m
    using that
  proof (induction m)
    case (Suc m)
    have "set (stride w ?k ?n) \<inter> set (stride m ?k ?n) = {}" if "w < m" for w
      using set_w [of w] set_w [of m] that Suc.prems by auto
    then have "x \<notin> set (stride m ?k ?n)" if "x \<in> set (stride w ?k ?n)" "w < m" for x w using that by blast
    then show ?case using Suc stride_distinct [OF k] by auto
  qed simp
  moreover have "set (concat (map (\<lambda>w. stride w ?k ?n) [0..<?k])) = {0..<?n}"
    using set_w k by (auto intro!: bexI [of _ "_ mod ?k"])
  ultimately show ?thesis unfolding all by (intro set_eq_iff_mset_eq_distinct [THEN iffD1]) auto
qed (simp add: warmup_indices_def)

subsection \<open>Claims\<close>

lemma run_output_effects:
  assumes "run_output tab c w rep = (err, out)"
  shows "(\<forall>e \<in> set out. (\<exists>s. e = Printed s \<or> e = Notice s \<or> e = Wrote (o_out c) s)) \<and>
    (err = None \<longleftrightarrow> Printed (Table tab rep) \<in> set out) \<and>
    (err = None \<longrightarrow> (o_out c \<noteq> [] \<longleftrightarrow> (\<exists>b. rw_json w rep = Some b \<and> Wrote (o_out c) (b @ nl) \<in> set out)))"
  using assms by (auto simp: run_output_def Let_def split: if_splits option.splits)

lemma loadgen_body_effects:
  assumes "loadgen_body name oob tab c w n = (err, body)"
  shows "(\<forall>i. Dialled i \<notin> set body \<and> Closed_Conn i \<notin> set body) \<and>
    (err = None \<longleftrightarrow> Printed (Table tab (run_report name oob c w)) \<in> set body) \<and>
    (err = None \<longrightarrow> (\<forall>i < n. rw_ready w i = None) \<and>
      (o_out c \<noteq> [] \<longleftrightarrow> (\<exists>b. rw_json w (run_report name oob c w) = Some b \<and> Wrote (o_out c) (b @ nl) \<in> set body)))"
proof (cases "ready_loop (rw_ready w) [0..<n]")
  case None
  obtain err' out where o': "run_output tab c w (run_report name oob c w) = (err', out)" by fastforce
  have b: "err = err'" "body = Measured (run_callers c n) (buildKeyTable (o_keys c)) # out"
    using assms by (auto simp: loadgen_body_def None o')
  have "\<forall>i < n. rw_ready w i = None" using None by (simp add: ready_loop_none list_all_iff)
  then show ?thesis using run_output_effects [OF o'] unfolding b by fastforce
next
  case (Some msg)
  then show ?thesis using assms by (auto simp: loadgen_body_def)
qed

text \<open>
  Whatever the command line, the target, the signals and the file system do, \<open>run\<close> of the load generator
  closes every connection it has dialled, once, after everything else; it succeeds exactly when it has printed
  the table of the report, and then all the connections asked for were dialled and ready and the report has been
  written when \<open>-out\<close> asks for it.
\<close>

theorem loadgen_run_outcomes:
  "\<exists>n body. snd (loadgen_run name oob tab cpus env args w) = map Dialled [0..<n] @ body @ map Closed_Conn [0..<n] \<and>
     (\<forall>i. Dialled i \<notin> set body \<and> Closed_Conn i \<notin> set body) \<and>
     (case parseFlags cpus env args of
        Inl e \<Rightarrow> n = 0 \<and> body = [] \<and> fst (loadgen_run name oob tab cpus env args w) = Some (Bad_Command_Line e)
      | Inr c \<Rightarrow>
          (fst (loadgen_run name oob tab cpus env args w) = None \<longleftrightarrow> Printed (Table tab (run_report name oob c w)) \<in> set body) \<and>
          (fst (loadgen_run name oob tab cpus env args w) = None \<longrightarrow>
             int n = o_conns c \<and> (\<forall>i < n. rw_ready w i = None) \<and>
             (o_out c \<noteq> [] \<longleftrightarrow> (\<exists>b. rw_json w (run_report name oob c w) = Some b \<and> Wrote (o_out c) (b @ nl) \<in> set body))))"
proof (cases "parseFlags cpus env args")
  case (Inl e)
  then show ?thesis by (intro exI [of _ 0] exI [of _ "[]"]) (simp add: loadgen_run_def)
next
  case (Inr c)
  obtain n failed where n: "dial_loop (rw_newClient w) 0 (nat (o_conns c)) = (n, failed)" by fastforce
  show ?thesis
  proof (cases failed)
    case None
    obtain err body where b: "loadgen_body name oob tab c w n = (err, body)" by fastforce
    have "int n = o_conns c" using dial_loop_le [OF n] None parseFlags_options_ok [OF Inr] by (simp add: options_ok_def)
    then show ?thesis using loadgen_body_effects [OF b]
      by (intro exI [of _ n] exI [of _ body]) (simp add: loadgen_run_def Inr n None b)
  next
    case (Some e)
    then show ?thesis by (intro exI [of _ n] exI [of _ "[]"]) (simp add: loadgen_run_def Inr n)
  qed
qed

definition quiet_world :: run_world where
  "quiet_world = \<lparr>rw_newClient = \<lambda>_. None, rw_ready = \<lambda>_. None, rw_early = False, rw_measured = [], rw_elapsed = second,
     rw_interrupted = False, rw_json = \<lambda>_. None, rw_writeFile = \<lambda>_. True, rw_stdout = True, rw_late = False\<rparr>"

definition small_run :: options where
  "small_run = (default_options (\<lambda>_. None))\<lparr>o_rps := Fin 1, o_duration := second, o_conns := 2, o_streamCount := 0\<rparr>"

lemma small_run_parsed: "parseFlags 4 (\<lambda>_. None) [''-rps'', ''1'', ''-duration=1s'', ''-conns'', ''2''] = Inr small_run"
  by code_simp

theorem loadgen_run_outcomes_witness:
  "\<exists>body. snd (loadgen_run (\<lambda>_. []) (\<lambda>_. 0) (\<lambda>_ s. s) 4 (\<lambda>_. None) [''-rps'', ''1'', ''-duration=1s'', ''-conns'', ''2''] quiet_world) =
     [Dialled 0, Dialled 1] @ body @ [Closed_Conn 0, Closed_Conn 1] \<and>
     Printed (Table (\<lambda>_ s. s) (run_report (\<lambda>_. []) (\<lambda>_. 0) small_run quiet_world)) \<in> set body"
proof -
  have u: "[0..<2] = [0, 1 :: nat]" by (simp add: upt_rec)
  have "fst (loadgen_run (\<lambda>_. []) (\<lambda>_. 0) (\<lambda>_ s. s) 4 (\<lambda>_. None) [''-rps'', ''1'', ''-duration=1s'', ''-conns'', ''2''] quiet_world) = None"
    unfolding loadgen_run_def small_run_parsed sum.case
    by (simp add: small_run_def default_options_def numeral_2_eq_2 quiet_world_def loadgen_body_def run_output_def upt_rec)
  moreover have "int n = o_conns small_run \<longleftrightarrow> n = 2" for n by (auto simp: small_run_def)
  ultimately show ?thesis
    using loadgen_run_outcomes [of "\<lambda>_. []" "\<lambda>_. 0" "\<lambda>_ s. s" 4 "\<lambda>_. None" "[''-rps'', ''1'', ''-duration=1s'', ''-conns'', ''2'']" quiet_world]
    unfolding small_run_parsed sum.case by (auto simp: u)
qed

text \<open>
  An open run that ends without a signal is complete: its report counts exactly the requests that were
  scheduled, so that neither the table nor the verdict calls it interrupted.
\<close>

theorem uninterrupted_run_is_complete:
  assumes "parseFlags cpus env args = Inr c" "o_mode c = modeOpen"
    and "open_reach (open_params_of oob c (buildKeyTable (o_keys c)) start) (nat (o_concurrency c)) s" "run_over s" "\<not> os_done s"
    and "rw_measured w = runOpen_result s" "\<not> rw_interrupted w"
  shows "rp_Total (run_report name oob c w) = rp_Scheduled (run_report name oob c w) \<and>
    (rp_Scheduled (run_report name oob c w) = scheduled_count oob c)"
proof -
  have "0 < nat (o_concurrency c)" using parseFlags_options_ok [OF assms(1)] by (simp add: options_ok_def)
  then have "length (mergeSamples (runOpen_result s)) = nat (scheduled_count oob c)"
    using open_run_complete [OF assms(3)] assms(4,5) by (simp add: open_params_of_def)
  moreover have "0 \<le> scheduled_count oob c" by (simp add: scheduled_count_def Let_def)
  ultimately show ?thesis using assms(2,6)
    by (simp add: run_report_def buildReport_def Let_def run_params_of_def warmupExcludedTotal_def)
qed

theorem uninterrupted_run_is_complete_witness:
  "\<exists>s. open_reach (open_params_of (\<lambda>_. 0) small_run (buildKeyTable 1000) 0) 50 s \<and>
     rp_Total (run_report (\<lambda>_. []) (\<lambda>_. 0) small_run (quiet_world\<lparr>rw_measured := runOpen_result s\<rparr>)) = 1"
proof -
  let ?P = "open_params_of (\<lambda>_. 0) small_run (buildKeyTable (o_keys small_run)) 0"
  have one: "scheduled_count (\<lambda>_. 0) small_run = 1" by code_simp
  have f: "nat (o_concurrency small_run) = 50" "o_mode small_run = modeOpen" "o_keys small_run = 1000"
    by (simp_all add: small_run_def default_options_def)
  have r: "open_reach ?P 50 (open_start 50 0)" by (rule open_reach.start)
  obtain s where s: "(open_step ?P)\<^sup>*\<^sup>* (open_start 50 0) s" "run_over s" "os_done s = os_done (open_start 50 0)"
    using open_finishes [OF open_reach_flow [OF r]] by (auto simp: open_params_of_def f)
  have "open_reach ?P 50 s" by (rule open_reach_steps [OF s(1) r])
  then show ?thesis
    using uninterrupted_run_is_complete [OF small_run_parsed f(2), of "\<lambda>_. 0" 0 s "quiet_world\<lparr>rw_measured := runOpen_result s\<rparr>" "\<lambda>_. []"] s
    by (auto simp: f one open_start_def quiet_world_def)
qed

text \<open>
  C38: The keys of the closed loop. Together the workers use every session key. Two workers have no key in common
  exactly when their numbers differ modulo the greatest common divisor of the number of workers and the number
  of keys; so every worker has keys of its own only when the number of workers divides the number of keys.
\<close>

theorem closed_loop_keys:
  assumes "options_ok c" "0 < o_keys c"
  shows "(\<Union>w < nat (o_concurrency c). worker_keys c w) = set (buildKeyTable (o_keys c)) \<and>
    (\<forall>w w'. worker_keys c w \<inter> worker_keys c w' = {} \<longleftrightarrow>
       w mod gcd (nat (o_concurrency c)) (nat (o_keys c)) \<noteq> w' mod gcd (nat (o_concurrency c)) (nat (o_keys c))) \<and>
    ((\<forall>w < nat (o_concurrency c). \<forall>w' < nat (o_concurrency c). w \<noteq> w' \<longrightarrow> worker_keys c w \<inter> worker_keys c w' = {}) \<longleftrightarrow>
       nat (o_concurrency c) dvd nat (o_keys c))"
proof -
  let ?c = "nat (o_concurrency c)" and ?K = "nat (o_keys c)" and ?f = "\<lambda>j. ''key-'' @ itoa (int j)"
  let ?g = "gcd ?c ?K"
  have c: "0 < ?c" and K: "0 < ?K" using assms by (simp_all add: options_ok_def)
  have g: "0 < ?g" "?g \<le> ?c" "?g \<le> ?K" using c K by (simp_all add: gcd_le1_nat gcd_le2_nat)
  note wk = worker_keys_residues [OF assms(2)]
  have table: "set (buildKeyTable (o_keys c)) = ?f ` {..<?K}" using assms(2) by (auto simp: buildKeyTable_def)
  have "?f j \<in> (\<Union>w < ?c. worker_keys c w)" if "j < ?K" for j
  proof (rule UN_I [of "j mod ?g"])
    show "j mod ?g \<in> {..<?c}" using less_le_trans [OF mod_less_divisor [OF g(1), of j] g(2)] by simp
    show "?f j \<in> worker_keys c (j mod ?g)" using that by (simp add: wk)
  qed
  then have all: "(\<Union>w < ?c. worker_keys c w) = set (buildKeyTable (o_keys c))" unfolding table by (auto simp: wk)
  have disj: "worker_keys c w \<inter> worker_keys c w' = {} \<longleftrightarrow> w mod ?g \<noteq> w' mod ?g" for w w'
  proof
    assume "worker_keys c w \<inter> worker_keys c w' = {}"
    moreover have "?f (v mod ?g) \<in> worker_keys c v" for v
      using less_le_trans [OF mod_less_divisor [OF g(1), of v] g(3)] unfolding wk by (intro imageI) simp
    ultimately show "w mod ?g \<noteq> w' mod ?g" by (metis disjoint_iff)
  qed (auto simp: wk itoa_nat_inj)
  have "(\<forall>w < ?c. \<forall>w' < ?c. w \<noteq> w' \<longrightarrow> w mod ?g \<noteq> w' mod ?g) \<longleftrightarrow> ?c dvd ?K"
  proof
    assume inj: "\<forall>w < ?c. \<forall>w' < ?c. w \<noteq> w' \<longrightarrow> w mod ?g \<noteq> w' mod ?g"
    have "\<not> ?g < ?c" using inj c g(1) by (metis mod_self mod_0 less_not_refl)
    then have "?g = ?c" using g(2) by simp
    then show "?c dvd ?K" by (metis gcd_dvd2)
  next
    assume "?c dvd ?K"
    then have "?g = ?c" by (simp add: gcd_nat.absorb1)
    then show "\<forall>w < ?c. \<forall>w' < ?c. w \<noteq> w' \<longrightarrow> w mod ?g \<noteq> w' mod ?g" by simp
  qed
  then show ?thesis using all disj by simp
qed

definition thirty_keys :: options where
  "thirty_keys = (default_options (\<lambda>_. None))\<lparr>o_keys := 30, o_conns := 1, o_streamCount := 0\<rparr>"

theorem closed_loop_keys_witness: "worker_keys thirty_keys 0 \<inter> worker_keys thirty_keys 10 \<noteq> {}"
proof -
  have "gcd (50 :: nat) 30 = 10" by code_simp
  moreover have k: "options_ok thirty_keys" "o_keys thirty_keys = 30" "o_concurrency thirty_keys = 50"
    by (simp_all add: thirty_keys_def options_ok_def default_options_def modeOpen_def modeClosed_def methodUnary_def methodStream_def)
  ultimately have "worker_keys thirty_keys w \<inter> worker_keys thirty_keys w' = {} \<longleftrightarrow> w mod 10 \<noteq> w' mod 10" for w w'
    using closed_loop_keys [OF k(1)] by simp
  then show ?thesis by simp
qed

text \<open>
  C39: An error budget of NaN passes the check of \<open>-error-budget\<close>, whose message demands a value in \<open>[0,1]\<close>, and
  then no share of failed requests fails the run.
\<close>

theorem nan_error_budget_accepted:
  "\<exists>c. parseFlags cpus (\<lambda>_. None) [''-error-budget'', ''NaN''] = Inr c \<and> o_errorBudget c = NaN \<and>
    (\<forall>name oob w. let r = run_report name oob c w in
       \<not> rp_Interrupted r \<and> 0 < rp_OK r \<and> \<not> f64_lt (rp_SLOMs r) (la_P99 (rp_ResponseTime r)) \<longrightarrow> sloPass r)"
proof -
  let ?d = "(default_options (\<lambda>_. None))\<lparr>o_errorBudget := NaN\<rparr>"
  let ?c = "?d\<lparr>o_streamCount := 0, o_conns := max 1 (min 50 cpus)\<rparr>"
  have "flag_parse loadgen_flags [''-error-budget'', ''NaN''] (default_options (\<lambda>_. None)) {} = Inr (?d, {''error-budget''}, [])"
    by code_simp
  then have "parseFlags cpus (\<lambda>_. None) [''-error-budget'', ''NaN''] = Inr ?c"
    by (simp add: parseFlags_def validate_def check_method_def default_options_def modeOpen_def modeClosed_def
        methodUnary_def methodStream_def)
  moreover have "sloPass (run_report name oob ?c w)"
    if "\<not> rp_Interrupted (run_report name oob ?c w)" "0 < rp_OK (run_report name oob ?c w)"
      "\<not> f64_lt (rp_SLOMs (run_report name oob ?c w)) (la_P99 (rp_ResponseTime (run_report name oob ?c w)))" for name oob w
  proof -
    have "rp_Total (run_report name oob ?c w) \<noteq> 0"
      using that(2) by (auto simp: run_report_def buildReport_def Let_def tally_start_def)
    moreover have "rp_ErrorBudget (run_report name oob ?c w) = NaN"
      by (simp add: run_report_def buildReport_def Let_def run_params_of_def)
    ultimately show ?thesis using that by (simp add: sloPass_def failReason_def)
  qed
  ultimately show ?thesis unfolding Let_def by (intro exI [of _ ?c]) auto
qed

definition half_failed :: run_world where
  "half_failed = quiet_world\<lparr>rw_measured :=
     [[\<lparr>sm_scheduledAt = 0, sm_sentAt = 0, sm_completedAt = millisecond, sm_code = OK, sm_backendID = ''b'', sm_sessionKey = []\<rparr>,
       \<lparr>sm_scheduledAt = 0, sm_sentAt = 0, sm_completedAt = millisecond, sm_code = Unavailable, sm_backendID = [], sm_sessionKey = []\<rparr>]]\<rparr>"

theorem nan_error_budget_accepted_witness:
  "\<exists>c. parseFlags 4 (\<lambda>_. None) [''-error-budget'', ''NaN''] = Inr c \<and> sloPass (run_report (\<lambda>_. ''x'') (\<lambda>_. 0) c half_failed) \<and>
     rp_Errors (run_report (\<lambda>_. ''x'') (\<lambda>_. 0) c half_failed) = rp_OK (run_report (\<lambda>_. ''x'') (\<lambda>_. 0) c half_failed)"
proof -
  obtain c where c: "parseFlags 4 (\<lambda>_. None) [''-error-budget'', ''NaN''] = Inr c"
    and p: "\<not> rp_Interrupted (run_report (\<lambda>_. ''x'') (\<lambda>_. 0) c half_failed) \<and> 0 < rp_OK (run_report (\<lambda>_. ''x'') (\<lambda>_. 0) c half_failed) \<and>
      \<not> f64_lt (rp_SLOMs (run_report (\<lambda>_. ''x'') (\<lambda>_. 0) c half_failed)) (la_P99 (rp_ResponseTime (run_report (\<lambda>_. ''x'') (\<lambda>_. 0) c half_failed)))
      \<longrightarrow> sloPass (run_report (\<lambda>_. ''x'') (\<lambda>_. 0) c half_failed)"
    using nan_error_budget_accepted [of 4] unfolding Let_def by blast
  have d: "c = (default_options (\<lambda>_. None))\<lparr>o_errorBudget := NaN, o_streamCount := 0, o_conns := 4\<rparr>"
  proof -
    have "parseFlags 4 (\<lambda>_. None) [''-error-budget'', ''NaN''] =
        Inr ((default_options (\<lambda>_. None))\<lparr>o_errorBudget := NaN, o_streamCount := 0, o_conns := 4\<rparr>)" by code_simp
    then show ?thesis using c by simp
  qed
  have "rp_OK (run_report (\<lambda>_. ''x'') (\<lambda>_. 0) c half_failed) = 1" "rp_Errors (run_report (\<lambda>_. ''x'') (\<lambda>_. 0) c half_failed) = 1"
    "\<not> rp_Interrupted (run_report (\<lambda>_. ''x'') (\<lambda>_. 0) c half_failed)"
    by (simp_all add: run_report_def buildReport_def Let_def half_failed_def quiet_world_def mergeSamples_def tally_sample_def tally_start_def run_params_of_def)
  moreover have "\<not> f64_lt (rp_SLOMs (run_report (\<lambda>_. ''x'') (\<lambda>_. 0) c half_failed)) (la_P99 (rp_ResponseTime (run_report (\<lambda>_. ''x'') (\<lambda>_. 0) c half_failed)))"
  proof -
    have "rp_SLOMs (run_report (\<lambda>_. ''x'') (\<lambda>_. 0) c half_failed) = msRound 200000000"
      by (simp add: run_report_def buildReport_def Let_def run_params_of_def d default_options_def)
    moreover have "la_P99 (rp_ResponseTime (run_report (\<lambda>_. ''x'') (\<lambda>_. 0) c half_failed)) = msRound (percentile (\<lambda>_. 0) [1000000] (Fin 99))"
      by (simp add: run_report_def buildReport_def Let_def half_failed_def quiet_world_def mergeSamples_def tally_sample_def tally_start_def
          run_params_of_def responseTime_def time_sub_def i64_min_def i64_max_def latencyStatsOf_def)
    moreover have "percentile (\<lambda>_. 0) [1000000] (Fin 99) = 1000000" by code_simp
    moreover have "\<not> f64_lt (msRound 200000000) (msRound 1000000)" by code_simp
    ultimately show ?thesis by simp
  qed
  ultimately show ?thesis using c p by simp
qed

end
