(* ===== verification/Lb_Config.thy ===== *)
theory Lb_Config
  imports Config Flags Circuit_Registry Ratelimit Pool
begin

text \<open>
  \<^verbatim>\<open>cmd/lb/main.go\<close>, the part that turns the command line, the file and the environment into a configuration and
  the configuration into the settings of the components. Opening and decoding the file are the parameters of
  \<open>Load\<close>.
\<close>

subsection \<open>The command line\<close>

record lb_flag_values =
  fv_config :: string
  fv_listen :: string
  fv_adminListen :: string
  fv_logLevel :: string

definition lb_flags :: "string \<rightharpoonup> lb_flag_values flag_setter" where
  "lb_flags = map_of
     [(''config'', string_flag fv_config_update), (''listen'', string_flag fv_listen_update),
      (''admin-listen'', string_flag fv_adminListen_update), (''log-level'', string_flag fv_logLevel_update)]"

definition no_flags :: lb_flag_values where
  "no_flags = \<lparr>fv_config = [], fv_listen = [], fv_adminListen = [], fv_logLevel = []\<rparr>"

datatype resolve_error =
    Resolve_Flags flag_error
  | Unexpected_Arguments "string list"
  | Resolve_Load load_error
  | Resolve_Env "env_error list"
  | Resolve_Invalid "cfg_error list"

text \<open>The flags that were present override the configuration.\<close>

definition apply_flags :: "string set \<Rightarrow> lb_flag_values \<Rightarrow> config \<Rightarrow> config" where
  "apply_flags present fv cfg =
     (let cfg = (if ''listen'' \<in> present then cfg\<lparr>c_Listen := fv_listen fv\<rparr> else cfg);
          cfg = (if ''admin-listen'' \<in> present then cfg\<lparr>c_AdminListen := fv_adminListen fv\<rparr> else cfg)
      in if ''log-level'' \<in> present
         then cfg\<lparr>c_Logging := (c_Logging cfg)\<lparr>lg_Level := ToLower (TrimSpace (fv_logLevel fv))\<rparr>\<rparr> else cfg)"

definition resolveConfig ::
  "(string \<Rightarrow> string + 'f) \<Rightarrow> ('f \<Rightarrow> rawConfig \<Rightarrow> decoded) \<Rightarrow> (string \<Rightarrow> string option) \<Rightarrow> string list \<Rightarrow> resolve_error + config" where
  "resolveConfig openf decode env args =
     (case flag_parse lb_flags args no_flags {} of
        Inl e \<Rightarrow> Inl (Resolve_Flags e)
      | Inr (fv, present, rest) \<Rightarrow>
          (if rest \<noteq> [] then Inl (Unexpected_Arguments rest)
           else let base = (if TrimSpace (fv_config fv) \<noteq> []
                            then case Load openf decode env (fv_config fv) of Inl e \<Rightarrow> Inl (Resolve_Load e) | Inr c \<Rightarrow> Inr c
                            else let (c, errs) = ApplyEnv (Some env) Default
                                 in if errs \<noteq> [] then Inl (Resolve_Env errs) else Inr c)
                in case base of
                     Inl e \<Rightarrow> Inl e
                   | Inr cfg \<Rightarrow>
                       (let cfg = apply_flags present fv cfg; errs = Validate cfg
                        in if errs \<noteq> [] then Inl (Resolve_Invalid errs) else Inr cfg)))"

subsection \<open>From the configuration to the components\<close>

datatype log_format = TextHandler | JSONHandler

text \<open>\<open>strings.EqualFold\<close> with a word none of whose letters folds outside ASCII.\<close>

definition newLogger :: "cfg_logging \<Rightarrow> log_format \<times> slog_level" where
  "newLogger cfg =
     ((if map lower_char (TrimSpace (lg_Format cfg)) = ''text'' then TextHandler else JSONHandler), SlogLevel cfg)"

text \<open>The registry behind the breakers by method, none when breaking is disabled.\<close>

definition methodBreakers :: "cfg_circuit \<Rightarrow> go_time \<Rightarrow> registry option" where
  "methodBreakers cb now =
     (if \<not> cc_Enabled cb then None
      else Some (NewRegistry \<lparr>s_Window = cc_Window cb, s_Buckets = cc_Buckets cb, s_MinRequests = cc_MinRequests cb,
             s_FailureRatio = cc_FailureRatio cb, s_OpenTimeout = cc_OpenTimeout cb, s_HalfOpenMax = cc_HalfOpenMax cb,
             s_MaxEntries = 0, s_OnStateChange = True\<rparr> now))"

definition limiter_config :: "config \<Rightarrow> rate_config" where
  "limiter_config cfg =
     \<lparr>rc_Enabled = rl_Enabled (c_RateLimit cfg), rc_RPS = rl_RPS (c_RateLimit cfg), rc_Burst = rl_Burst (c_RateLimit cfg),
      rc_PerClient = rl_PerClient (c_RateLimit cfg), rc_PerClientRPS = rl_PerClientRPS (c_RateLimit cfg),
      rc_PerClientBurst = rl_PerClientBurst (c_RateLimit cfg), rc_TTL = 0\<rparr>"

record server_options =
  so_MaxRecvMsgSize :: int
  so_MaxSendMsgSize :: int
  so_MaxConnectionIdle :: duration
  so_Time :: duration
  so_Timeout :: duration
  so_MinTime :: duration
  so_PermitWithoutStream :: bool
  so_NumStreamWorkers :: "32 word"

definition serverOptions :: "int \<Rightarrow> config \<Rightarrow> server_options" where
  "serverOptions cpus cfg =
     \<lparr>so_MaxRecvMsgSize = px_MaxRecvMsgSize (c_Proxy cfg), so_MaxSendMsgSize = px_MaxSendMsgSize (c_Proxy cfg),
      so_MaxConnectionIdle = 15 * 60 * second, so_Time = 30 * second, so_Timeout = 10 * second, so_MinTime = 10 * second,
      so_PermitWithoutStream = True, so_NumStreamWorkers = word_of_int cpus\<rparr>"

subsection \<open>Lemmas\<close>

lemma apply_flags_frame:
  "c_Backends (apply_flags present fv cfg) = c_Backends cfg" "c_Routing (apply_flags present fv cfg) = c_Routing cfg"
  "c_Health (apply_flags present fv cfg) = c_Health cfg" "c_RateLimit (apply_flags present fv cfg) = c_RateLimit cfg"
  "c_CircuitBreaker (apply_flags present fv cfg) = c_CircuitBreaker cfg" "c_Proxy (apply_flags present fv cfg) = c_Proxy cfg"
  "c_Listen (apply_flags present fv cfg) = (if ''listen'' \<in> present then fv_listen fv else c_Listen cfg)"
  "c_AdminListen (apply_flags present fv cfg) = (if ''admin-listen'' \<in> present then fv_adminListen fv else c_AdminListen cfg)"
  "lg_Level (c_Logging (apply_flags present fv cfg)) =
     (if ''log-level'' \<in> present then ToLower (TrimSpace (fv_logLevel fv)) else lg_Level (c_Logging cfg))"
  "lg_SampleRate (c_Logging (apply_flags present fv cfg)) = lg_SampleRate (c_Logging cfg)"
  "lg_Format (c_Logging (apply_flags present fv cfg)) = lg_Format (c_Logging cfg)"
  by (simp_all add: apply_flags_def Let_def)

text \<open>The flags that were not present still have their zero value.\<close>

lemma absent_flags:
  assumes "flag_parse lb_flags args no_flags {} = Inr (fv, present, rest)"
  shows "(''listen'' \<notin> present \<longrightarrow> fv_listen fv = []) \<and> (''admin-listen'' \<notin> present \<longrightarrow> fv_adminListen fv = []) \<and>
    (''log-level'' \<notin> present \<longrightarrow> fv_logLevel fv = []) \<and> (''config'' \<notin> present \<longrightarrow> fv_config fv = [])"
proof (rule flag_parse_invariant [OF assms, where I = "\<lambda>p x. (''listen'' \<notin> p \<longrightarrow> fv_listen x = []) \<and>
    (''admin-listen'' \<notin> p \<longrightarrow> fv_adminListen x = []) \<and> (''log-level'' \<notin> p \<longrightarrow> fv_logLevel x = []) \<and> (''config'' \<notin> p \<longrightarrow> fv_config x = [])"])
qed (auto simp: no_flags_def lb_flags_def string_flag_def split: if_splits)

text \<open>Without a file the environment cannot switch on rate limiting or the breakers, whose switches keep their default.\<close>

lemma env_try_frame:
  assumes "\<And>v d e. f v e = Inr d \<Longrightarrow> g d = g e"
  shows "g (fst (env_try lookup key f x)) = g (fst x)"
  using assms by (auto simp: env_try_def split_beta split: option.split sum.split)

lemma ApplyEnv_frame:
  assumes "\<And>v c. g (c\<lparr>c_Listen := v\<rparr>) = g c" "\<And>v c. g (c\<lparr>c_AdminListen := v\<rparr>) = g c" "\<And>v c. g (c\<lparr>c_Routing := v\<rparr>) = g c"
    "\<And>v c. g (c\<lparr>c_Logging := v\<rparr>) = g c" "\<And>v c. g (c\<lparr>c_Backends := v\<rparr>) = g c"
    and rps: "\<And>v c. g (c\<lparr>c_RateLimit := (c_RateLimit c)\<lparr>rl_RPS := v\<rparr>\<rparr>) = g c"
  shows "g (fst (ApplyEnv (Some env) c)) = g c"
proof -
  have b: "env_backends v e = Inr d \<Longrightarrow> g d = g e" for v d e using assms(5) by (auto simp: env_backends_def split: sum.splits)
  have r: "env_rps v e = Inr d \<Longrightarrow> g d = g e" for v d e using rps by (auto simp: env_rps_def split: option.splits)
  have a: "env_attempts v e = Inr d \<Longrightarrow> g d = g e" for v d e using assms(3) by (auto simp: env_attempts_def split: option.splits)
  show ?thesis
    unfolding ApplyEnv_def option.case Let_def
    by (simp only: env_try_frame [of env_attempts g, OF a] env_try_frame [of env_rps g, OF r] env_try_frame [of env_backends g, OF b] fst_conv)
       (simp add: env_set_def assms split: option.split)
qed

lemma ApplyEnv_switches:
  assumes "ApplyEnv (Some env) c = (c', errs)"
  shows "rl_Enabled (c_RateLimit c') = rl_Enabled (c_RateLimit c)" "rl_Burst (c_RateLimit c') = rl_Burst (c_RateLimit c)"
    "c_CircuitBreaker c' = c_CircuitBreaker c"
  using ApplyEnv_frame [of "\<lambda>c. rl_Enabled (c_RateLimit c)" env c] ApplyEnv_frame [of "\<lambda>c. rl_Burst (c_RateLimit c)" env c]
    ApplyEnv_frame [of c_CircuitBreaker env c] assms by simp_all

lemma resolveConfig_cases:
  assumes "resolveConfig openf decode env args = Inr c"
  obtains fv present d where "flag_parse lb_flags args no_flags {} = Inr (fv, present, [])" "c = apply_flags present fv d" "Validate c = []"
    "if TrimSpace (fv_config fv) \<noteq> [] then Load openf decode env (fv_config fv) = Inr d else ApplyEnv (Some env) Default = (d, [])"
proof -
  obtain fv present where p: "flag_parse lb_flags args no_flags {} = Inr (fv, present, [])"
    using assms by (auto simp: resolveConfig_def split: sum.splits if_splits)
  show ?thesis
  proof (cases "TrimSpace (fv_config fv) = []")
    case True
    obtain d errs where d: "ApplyEnv (Some env) Default = (d, errs)" by fastforce
    show ?thesis by (rule that [OF p, of d]) (use assms True d in \<open>auto simp: resolveConfig_def p Let_def split: if_splits\<close>)
  next
    case False
    obtain d where d: "Load openf decode env (fv_config fv) = Inr d"
      using assms False by (auto simp: resolveConfig_def p split: sum.splits)
    show ?thesis by (rule that [OF p, of d]) (use assms False d in \<open>auto simp: resolveConfig_def p Let_def split: if_splits\<close>)
  qed
qed

subsection \<open>The layers\<close>

text \<open>
  What the layers of a setting come to: the first of the given values that is there, the value of the base otherwise.
  The base is the file, or the defaults when no file is named.
\<close>

fun layered :: "'a option list \<Rightarrow> 'a \<Rightarrow> 'a" where
  "layered [] base = base"
| "layered (None # vs) base = layered vs base"
| "layered (Some v # vs) base = v"

definition flag_value :: "string set \<Rightarrow> string \<Rightarrow> 'a \<Rightarrow> 'a option" where
  "flag_value present name v = (if name \<in> present then Some v else None)"

text \<open>A variable that is set has to parse.\<close>

definition env_layer :: "(string \<Rightarrow> string option) \<Rightarrow> string \<Rightarrow> (string \<Rightarrow> 'a option) \<Rightarrow> 'a \<Rightarrow> 'a \<Rightarrow> bool" where
  "env_layer env key parse x base = (case envValue env key of Some v \<Rightarrow> parse v = Some x | None \<Rightarrow> x = base)"

definition parsed_backends :: "string \<Rightarrow> cfg_backend list option" where
  "parsed_backends v = (case ParseBackends v of Inl _ \<Rightarrow> None | Inr bs \<Rightarrow> Some bs)"

definition file_layer :: "(string \<Rightarrow> string + 'f) \<Rightarrow> ('f \<Rightarrow> rawConfig \<Rightarrow> decoded) \<Rightarrow> string \<Rightarrow> config \<Rightarrow> bool" where
  "file_layer openf decode path base =
     (if TrimSpace path = [] then base = Default
      else \<exists>f raw. openf path = Inr f \<and> decode f (newRawConfig Default) \<in> {Decoded raw, DecodeEOF raw} \<and> raw_config raw = (base, []))"

lemma env_set_field:
  "env_set env key (\<lambda>v c. c\<lparr>c_Listen := v\<rparr>) c = c\<lparr>c_Listen := layered [envValue env key] (c_Listen c)\<rparr>"
  "env_set env key (\<lambda>v c. c\<lparr>c_AdminListen := v\<rparr>) c = c\<lparr>c_AdminListen := layered [envValue env key] (c_AdminListen c)\<rparr>"
  "env_set env key (\<lambda>v c. c\<lparr>c_Routing := (c_Routing c)\<lparr>rt_HashHeader := v\<rparr>\<rparr>) c =
     c\<lparr>c_Routing := (c_Routing c)\<lparr>rt_HashHeader := layered [envValue env key] (rt_HashHeader (c_Routing c))\<rparr>\<rparr>"
  "env_set env key (\<lambda>v c. c\<lparr>c_Logging := (c_Logging c)\<lparr>lg_Level := ToLower v\<rparr>\<rparr>) c =
     c\<lparr>c_Logging := (c_Logging c)\<lparr>lg_Level := layered [map_option ToLower (envValue env key)] (lg_Level (c_Logging c))\<rparr>\<rparr>"
  by (cases "envValue env key"; simp add: env_set_def)+

lemma env_try_field:
  "env_try env EnvBackends env_backends x = (c, []) \<Longrightarrow>
     snd x = [] \<and> (\<exists>bs. env_layer env EnvBackends parsed_backends bs (c_Backends (fst x)) \<and> c = (fst x)\<lparr>c_Backends := bs\<rparr>)"
  "env_try env EnvRateLimitRPS env_rps x = (c, []) \<Longrightarrow>
     snd x = [] \<and> (\<exists>r. env_layer env EnvRateLimitRPS ParseFloat r (rl_RPS (c_RateLimit (fst x))) \<and>
       c = (fst x)\<lparr>c_RateLimit := (c_RateLimit (fst x))\<lparr>rl_RPS := r\<rparr>\<rparr>)"
  "env_try env EnvMaxAttempts env_attempts x = (c, []) \<Longrightarrow>
     snd x = [] \<and> (\<exists>n. env_layer env EnvMaxAttempts Atoi n (rt_MaxAttempts (c_Routing (fst x))) \<and>
       c = (fst x)\<lparr>c_Routing := (c_Routing (fst x))\<lparr>rt_MaxAttempts := n\<rparr>\<rparr>)"
  by (drule env_try_ok; force simp: env_layer_def env_backends_def env_rps_def env_attempts_def parsed_backends_def split: option.splits sum.splits)+

text \<open>The configuration after the environment, field by field.\<close>

lemma ApplyEnv_layers:
  assumes "ApplyEnv (Some env) c = (d, [])"
  obtains bs r n where "env_layer env EnvBackends parsed_backends bs (c_Backends c)"
    "env_layer env EnvRateLimitRPS ParseFloat r (rl_RPS (c_RateLimit c))"
    "env_layer env EnvMaxAttempts Atoi n (rt_MaxAttempts (c_Routing c))"
    "d = c\<lparr>c_Listen := layered [envValue env EnvListen] (c_Listen c),
           c_AdminListen := layered [envValue env EnvAdminListen] (c_AdminListen c), c_Backends := bs,
           c_Routing := (c_Routing c)\<lparr>rt_HashHeader := layered [envValue env EnvHashHeader] (rt_HashHeader (c_Routing c)), rt_MaxAttempts := n\<rparr>,
           c_RateLimit := (c_RateLimit c)\<lparr>rl_RPS := r\<rparr>,
           c_Logging := (c_Logging c)\<lparr>lg_Level := layered [map_option ToLower (envValue env EnvLogLevel)] (lg_Level (c_Logging c))\<rparr>\<rparr>"
proof -
  define c1 where "c1 = c\<lparr>c_Listen := layered [envValue env EnvListen] (c_Listen c),
     c_AdminListen := layered [envValue env EnvAdminListen] (c_AdminListen c),
     c_Routing := (c_Routing c)\<lparr>rt_HashHeader := layered [envValue env EnvHashHeader] (rt_HashHeader (c_Routing c))\<rparr>,
     c_Logging := (c_Logging c)\<lparr>lg_Level := layered [map_option ToLower (envValue env EnvLogLevel)] (lg_Level (c_Logging c))\<rparr>\<rparr>"
  define x where "x = env_try env EnvBackends env_backends (c1, [])"
  define y where "y = env_try env EnvRateLimitRPS env_rps x"
  have z: "env_try env EnvMaxAttempts env_attempts y = (d, [])"
    using assms by (simp add: ApplyEnv_def Let_def env_set_field x_def y_def c1_def)
  obtain n where n: "snd y = []" "env_layer env EnvMaxAttempts Atoi n (rt_MaxAttempts (c_Routing (fst y)))"
    "d = (fst y)\<lparr>c_Routing := (c_Routing (fst y))\<lparr>rt_MaxAttempts := n\<rparr>\<rparr>" using env_try_field(3) [OF z] by blast
  have y: "env_try env EnvRateLimitRPS env_rps x = (fst y, [])" using n(1) by (simp add: y_def prod_eq_iff)
  obtain r where r: "snd x = []" "env_layer env EnvRateLimitRPS ParseFloat r (rl_RPS (c_RateLimit (fst x)))"
    "fst y = (fst x)\<lparr>c_RateLimit := (c_RateLimit (fst x))\<lparr>rl_RPS := r\<rparr>\<rparr>" using env_try_field(2) [OF y] by blast
  have x: "env_try env EnvBackends env_backends (c1, []) = (fst x, [])" using r(1) by (simp add: x_def prod_eq_iff)
  obtain bs where bs: "env_layer env EnvBackends parsed_backends bs (c_Backends c1)" "fst x = c1\<lparr>c_Backends := bs\<rparr>"
    using env_try_field(1) [OF x] by auto
  show ?thesis by (rule that [of bs r n]) (use n r bs in \<open>simp_all add: c1_def\<close>)
qed

lemma Load_layers:
  assumes "Load openf decode env path = Inr c" "TrimSpace path \<noteq> []"
  obtains base d where "file_layer openf decode path base" "ApplyEnv (Some env) base = (d, [])" "c = applyDerivedDefaults d"
proof -
  obtain f raw where f: "openf path = Inr f" "decode f (newRawConfig Default) \<in> {Decoded raw, DecodeEOF raw}" "load_raw env raw = Inr c"
    using assms by (auto simp: Load_def split: sum.splits decoded.splits)
  obtain base e where b: "raw_config raw = (base, e)" by (cases "raw_config raw")
  obtain d e' where d: "ApplyEnv (Some env) base = (d, e')" by (cases "ApplyEnv (Some env) base")
  show ?thesis
    by (rule that [of base d]) (use f b d assms(2) in \<open>auto simp: load_raw_def file_layer_def Let_def split: if_splits\<close>)
qed

lemma applyDerivedDefaults_switch:
  "rl_Enabled (c_RateLimit (applyDerivedDefaults c)) = rl_Enabled (c_RateLimit c)"
  "rl_PerClient (c_RateLimit (applyDerivedDefaults c)) = rl_PerClient (c_RateLimit c)"
  "rl_PerClientRPS (c_RateLimit (applyDerivedDefaults c)) = rl_PerClientRPS (c_RateLimit c)"
  by (simp_all add: applyDerivedDefaults_def Let_def)

subsection \<open>Claims\<close>


lemma one_backend_resolved:
  "resolveConfig (\<lambda>_. Inl []) (\<lambda>(_ :: unit) raw. Decoded raw) [''LB_BACKENDS'' \<mapsto> ''a=h:1''] [] = Inr one_backend"
  by code_simp


end
