(* ===== verification/Lb.thy ===== *)
theory Lb
  imports Lb_Config Balancer Health
begin

text \<open>
  \<^verbatim>\<open>cmd/lb/main.go\<close>: the life of the process, from \<open>run\<close> to the exit, and the admin endpoints. The components are
  those of the other theories; the process is a state that holds them and the trace of what happened to them.
  What listening, serving and the shutdown of the two servers (gRPC and \<open>net/http\<close>) answer are inputs, as is the
  event that ends the wait of \<open>runWith\<close>.
\<close>

subsection \<open>The process\<close>

datatype 'c lb_event =
    Logged string
  | Probing_Started
  | Probing_Stopped
  | Balancer_Closed
  | Conns_Closed "'c list"
  | Limiter_Closed
  | Listening string
  | Listener_Closed string
  | Grpc_Serving
  | Admin_Serving
  | Grpc_Stopped bool \<comment> \<open>whether within the grace\<close>
  | Admin_Stopped bool \<comment> \<open>whether cleanly\<close>

record ('c, 'l) lb =
  lb_pool :: "'c pool"
  lb_bal :: balancer
  lb_lim :: "'l limiter"
  lb_probing :: bool
  lb_trace :: "'c lb_event list"

definition note_event :: "'c lb_event \<Rightarrow> ('c, 'l) lb \<Rightarrow> ('c, 'l) lb" where
  "note_event e s = s\<lparr>lb_trace := lb_trace s @ [e]\<rparr>"

text \<open>The four clean-ups. Only the first call of each has an effect, the later ones leave no event.\<close>

definition stop_checker :: "('c, 'l) lb \<Rightarrow> ('c, 'l) lb" where
  "stop_checker s = (if lb_probing s then note_event Probing_Stopped (s\<lparr>lb_probing := False\<rparr>) else s)"

definition close_balancer :: "('c, 'l) lb \<Rightarrow> ('c, 'l) lb" where
  "close_balancer s =
     (let t = s\<lparr>lb_bal := Balancer_Close (lb_bal s)\<rparr> in if ba_closed (lb_bal s) then t else note_event Balancer_Closed t)"

definition close_pool :: "('c \<Rightarrow> string option) \<Rightarrow> ('c, 'l) lb \<Rightarrow> ('c, 'l) lb \<times> pool_error list" where
  "close_pool closec s =
     (let (p, errs) = Pool_Close closec (lb_pool s); t = s\<lparr>lb_pool := p\<rparr>
      in (if pl_closed (lb_pool s) = None then note_event (Conns_Closed (map bk_conn (pl_backends p))) t else t, errs))"

definition close_limiter :: "('c, 'l) lb \<Rightarrow> ('c, 'l) lb" where
  "close_limiter s =
     (let t = s\<lparr>lb_lim := Limiter_Close (lb_lim s)\<rparr> in if li_stop (lb_lim s) then t else note_event Limiter_Closed t)"

text \<open>The calls deferred by \<open>runWith\<close>, the last one first.\<close>

definition deferred :: "('c \<Rightarrow> string option) \<Rightarrow> ('c, 'l) lb \<Rightarrow> ('c, 'l) lb" where
  "deferred closec s = fst (close_pool closec (stop_checker (close_balancer (close_limiter s))))"

text \<open>
  What the process meets. \<open>lw_listen\<close> is the answer of \<open>net.Listen\<close> for an address; \<open>lw_inTime\<close> says whether the
  graceful stop beats the grace, \<open>lw_adminErr\<close> whether the shutdown of the admin server fails.
\<close>

datatype run_end = Signalled | Grpc_Ended "go_error option" | Admin_Ended "go_error option"

record ('c, 'l) lb_world =
  lw_dial :: "nat \<Rightarrow> string \<Rightarrow> string + 'c"
  lw_clock :: "nat \<Rightarrow> go_time"
  lw_now :: go_time
  lw_close :: "'c \<Rightarrow> string option"
  lw_hash :: "string \<Rightarrow> 64 word"
  lw_newl :: "rate_limit \<Rightarrow> int \<Rightarrow> 'l"
  lw_oob :: "f64 \<Rightarrow> int"
  lw_listen :: "string \<Rightarrow> string option"
  lw_end :: run_end
  lw_inTime :: bool
  lw_adminErr :: bool

definition ErrServerStopped :: go_error where "ErrServerStopped = Sentinel ''grpc: the server has been stopped''"
definition ErrServerClosed :: go_error where "ErrServerClosed = Sentinel ''http: Server closed''"

datatype lb_error =
    Lb_Config_Error resolve_error
  | Lb_Pool_Error pool_error
  | Lb_Listen string string
  | Lb_Grpc_Serve go_error
  | Lb_Admin_Serve go_error

fun served_error :: "run_end \<Rightarrow> lb_error option" where
  "served_error Signalled = None"
| "served_error (Grpc_Ended err) =
     (case err of None \<Rightarrow> None | Some e \<Rightarrow> if errors_Is e ErrServerStopped then None else Some (Lb_Grpc_Serve e))"
| "served_error (Admin_Ended err) =
     (case err of None \<Rightarrow> None | Some e \<Rightarrow> if errors_Is e ErrServerClosed then None else Some (Lb_Admin_Serve e))"

definition stop_grpc :: "('c, 'l) lb_world \<Rightarrow> ('c, 'l) lb \<Rightarrow> ('c, 'l) lb" where
  "stop_grpc w s =
     (if lw_inTime w then note_event (Logged ''grpc server stopped gracefully'') (note_event (Grpc_Stopped True) s)
      else note_event (Logged ''grpc server force-stopped'') (note_event (Grpc_Stopped False)
             (note_event (Logged ''graceful stop exceeded the shutdown grace, closing in-flight streams'') s)))"

definition stop_admin :: "('c, 'l) lb_world \<Rightarrow> ('c, 'l) lb \<Rightarrow> ('c, 'l) lb" where
  "stop_admin w s =
     note_event (Logged ''admin server stopped'')
       (if lw_adminErr w
        then note_event (Admin_Stopped False) (note_event (Logged ''admin server did not shut down cleanly, closing it'') s)
        else note_event (Admin_Stopped True) s)"

definition close_backends :: "('c \<Rightarrow> string option) \<Rightarrow> ('c, 'l) lb \<Rightarrow> ('c, 'l) lb" where
  "close_backends closec s =
     (let (s, errs) = close_pool closec s in if errs \<noteq> [] then note_event (Logged ''closing backend connections'') s else s)"

definition shutdown :: "('c, 'l) lb_world \<Rightarrow> ('c, 'l) lb \<Rightarrow> ('c, 'l) lb" where
  "shutdown w s =
     (let s = note_event (Logged ''shutting down'') s;
          s = note_event (Logged ''health checker stopped'') (stop_checker s);
          s = stop_admin w (stop_grpc w s);
          s = close_backends (lw_close w) (close_balancer s)
      in note_event (Logged ''shutdown complete'') (close_limiter s))"

text \<open>From the two listeners to the return.\<close>

definition serve_until :: "('c, 'l) lb_world \<Rightarrow> config \<Rightarrow> ('c, 'l) lb \<Rightarrow> lb_error option \<times> ('c, 'l) lb" where
  "serve_until w cfg s =
     (case lw_listen w (c_Listen cfg) of
        Some msg \<Rightarrow> (Some (Lb_Listen (c_Listen cfg) msg), s)
      | None \<Rightarrow>
          (let s = note_event (Listening (c_Listen cfg)) s
           in case lw_listen w (c_AdminListen cfg) of
                Some msg \<Rightarrow> (Some (Lb_Listen (c_AdminListen cfg) msg), note_event (Listener_Closed (c_Listen cfg)) s)
              | None \<Rightarrow>
                  (let s = note_event (Listening (c_AdminListen cfg)) s;
                       s = note_event (Logged ''serving'') (note_event Admin_Serving (note_event Grpc_Serving s));
                       s = (if lw_end w = Signalled then note_event (Logged ''signal received, draining'') s else s)
                   in (served_error (lw_end w), shutdown w s))))"

definition runWith ::
  "(string \<Rightarrow> string + 'f) \<Rightarrow> ('f \<Rightarrow> rawConfig \<Rightarrow> decoded) \<Rightarrow> (string \<Rightarrow> string option) \<Rightarrow> string list \<Rightarrow> ('c, 'l) lb_world \<Rightarrow>
   lb_error option \<times> 'c lb_event list" where
  "runWith openf decode env args w =
     (case resolveConfig openf decode env args of
        Inl e \<Rightarrow> (if e = Resolve_Flags ErrHelp then (None, []) else (Some (Lb_Config_Error e), []))
      | Inr cfg \<Rightarrow>
          (case newPool cfg True (lw_dial w) (lw_clock w) (lw_now w) of
             Inl (err, conns) \<Rightarrow> (Some (Lb_Pool_Error err), [Logged ''starting load balancer'', Conns_Closed conns])
           | Inr (p, calls) \<Rightarrow>
               (let (bal, p, calls) = Balancer_New (lw_hash w) p (c_Routing cfg) True 0;
                    s = \<lparr>lb_pool = p, lb_bal = bal, lb_lim = newWithClock (lw_newl w) (lw_oob w) (limiter_config cfg), lb_probing = True,
                         lb_trace = [Logged ''starting load balancer'', Probing_Started]\<rparr>;
                    (err, s) = serve_until w cfg s
                in (err, lb_trace (deferred (lw_close w) s)))))"

text \<open>\<open>main\<close>: the exit status.\<close>

definition lb_main :: "lb_error option \<Rightarrow> int" where
  "lb_main err = (if err = None then 0 else 1)"

subsection \<open>The admin endpoints\<close>

record http_response =
  hr_code :: int
  hr_contentType :: string
  hr_noStore :: bool
  hr_body :: string

text \<open>\<open>json\<close> is \<open>json.Marshal\<close>. \<open>http.Error\<close> sets a plain content type and ends the body with a newline.\<close>

definition writeJSON :: "('v \<Rightarrow> string option) \<Rightarrow> int \<Rightarrow> 'v \<Rightarrow> http_response" where
  "writeJSON json code v =
     (case json v of
        None \<Rightarrow> \<lparr>hr_code = 500, hr_contentType = ''text/plain; charset=utf-8'', hr_noStore = False,
                 hr_body = ''{\"status\":\"internal error\"}'' @ [CHR 0x0A]\<rparr>
      | Some body \<Rightarrow> \<lparr>hr_code = code, hr_contentType = ''application/json'', hr_noStore = True, hr_body = body @ [CHR 0x0A]\<rparr>)"

record ready_response =
  ry_Status :: string
  ry_HealthyBackends :: int
  ry_Backends :: int

definition healthz :: "bool \<Rightarrow> int \<times> string" where
  "healthz serving = (if \<not> serving then (503, ''starting'') else (200, ''ok''))"

definition readyz :: "'c pool \<Rightarrow> int \<times> ready_response" where
  "readyz p =
     (let all = Pool_Backends p; healthy = length (Pool_Healthy p)
      in if healthy = 0
         then (503, \<lparr>ry_Status = ''no healthy backends'', ry_HealthyBackends = 0, ry_Backends = int (length all)\<rparr>)
         else (200, \<lparr>ry_Status = ''ok'', ry_HealthyBackends = int healthy, ry_Backends = int (length all)\<rparr>))"

record backend_status =
  su_ID :: string
  su_Addr :: string
  su_State :: string
  su_BreakerState :: string
  su_Weight :: int
  su_Healthy :: bool

text \<open>Reading the state of a breaker can move it from open to half-open, so the pool is an output.\<close>

definition backend_status_of :: "'c pool \<Rightarrow> nat \<Rightarrow> go_time \<Rightarrow> 'c pool \<times> fired \<times> backend_status" where
  "backend_status_of p i now =
     (let b = backend_at p i; st = bk_state b; (p, ev, bst) = on_breaker p i (\<lambda>br. Breaker_State br now) ([], StateClosed)
      in (p, ev, \<lparr>su_ID = bk_id b, su_Addr = bk_addr b, su_State = hstate_String st, su_BreakerState = State_String bst,
                  su_Weight = bk_weight b, su_Healthy = (st = StateHealthy)\<rparr>))"

fun status_loop :: "(nat \<Rightarrow> go_time) \<Rightarrow> 'c pool \<Rightarrow> nat list \<Rightarrow> 'c pool \<times> fired \<times> backend_status list" where
  "status_loop clock p [] = (p, [], [])"
| "status_loop clock p (i # is) =
     (let (p, ev, st) = backend_status_of p i (clock i); (p, evs, sts) = status_loop clock p is in (p, ev @ evs, st # sts))"

definition backendStatuses :: "(nat \<Rightarrow> go_time) \<Rightarrow> 'c pool \<Rightarrow> 'c pool \<times> fired \<times> backend_status list" where
  "backendStatuses clock p = status_loop clock p (Pool_Backends p)"

subsection \<open>Lemmas\<close>

text \<open>The order in which a trace may close the connections: once, after everything that uses them.\<close>

fun closes_conns :: "'c lb_event \<Rightarrow> bool" where
  "closes_conns (Conns_Closed _) = True"
| "closes_conns _ = False"

fun uses_conns :: "'c lb_event \<Rightarrow> bool" where
  "uses_conns Probing_Started = True"
| "uses_conns Grpc_Serving = True"
| "uses_conns Admin_Serving = True"
| "uses_conns _ = False"

definition orderly :: "'c lb_event list \<Rightarrow> 'c list \<Rightarrow> bool" where
  "orderly evs conns =
     (\<exists>before after. evs = before @ Conns_Closed conns # after \<and>
        Probing_Stopped \<in> set before \<and> Balancer_Closed \<in> set before \<and>
        (Grpc_Serving \<in> set before \<longrightarrow> Grpc_Stopped True \<in> set before \<or> Grpc_Stopped False \<in> set before) \<and>
        (Admin_Serving \<in> set before \<longrightarrow> Admin_Stopped True \<in> set before \<or> Admin_Stopped False \<in> set before) \<and>
        list_all (\<lambda>e. \<not> closes_conns e) before \<and> list_all (\<lambda>e. \<not> closes_conns e \<and> \<not> uses_conns e) after)"

lemma orderlyI:
  assumes "evs = before @ Conns_Closed conns # after" "Probing_Stopped \<in> set before" "Balancer_Closed \<in> set before"
    "Grpc_Serving \<in> set before \<longrightarrow> Grpc_Stopped True \<in> set before \<or> Grpc_Stopped False \<in> set before"
    "Admin_Serving \<in> set before \<longrightarrow> Admin_Stopped True \<in> set before \<or> Admin_Stopped False \<in> set before"
    "list_all (\<lambda>e. \<not> closes_conns e) before" "list_all (\<lambda>e. \<not> closes_conns e \<and> \<not> uses_conns e) after"
  shows "orderly evs conns"
  using assms unfolding orderly_def by blast

text \<open>What each clean-up does to the parts of the process.\<close>

lemma note_event_parts [simp]:
  "lb_pool (note_event e s) = lb_pool s" "lb_bal (note_event e s) = lb_bal s" "lb_lim (note_event e s) = lb_lim s"
  "lb_probing (note_event e s) = lb_probing s" "lb_trace (note_event e s) = lb_trace s @ [e]"
  by (simp_all add: note_event_def)

lemma stop_checker_parts [simp]:
  "lb_pool (stop_checker s) = lb_pool s" "lb_bal (stop_checker s) = lb_bal s" "lb_lim (stop_checker s) = lb_lim s"
  "\<not> lb_probing (stop_checker s)" "lb_trace (stop_checker s) = lb_trace s @ (if lb_probing s then [Probing_Stopped] else [])"
  by (simp_all add: stop_checker_def)

lemma close_balancer_parts [simp]:
  "lb_pool (close_balancer s) = lb_pool s" "ba_closed (lb_bal (close_balancer s))" "lb_lim (close_balancer s) = lb_lim s"
  "lb_probing (close_balancer s) = lb_probing s"
  "lb_trace (close_balancer s) = lb_trace s @ (if ba_closed (lb_bal s) then [] else [Balancer_Closed])"
  by (simp_all add: close_balancer_def Balancer_Close_def Let_def)

lemma close_limiter_parts [simp]:
  "lb_pool (close_limiter s) = lb_pool s" "lb_bal (close_limiter s) = lb_bal s" "li_stop (lb_lim (close_limiter s))"
  "lb_probing (close_limiter s) = lb_probing s"
  "lb_trace (close_limiter s) = lb_trace s @ (if li_stop (lb_lim s) then [] else [Limiter_Closed])"
  by (simp_all add: close_limiter_def Limiter_Close_def Let_def)

lemma close_pool_parts [simp]:
  "pl_closed (lb_pool (fst (close_pool c s))) \<noteq> None" "lb_bal (fst (close_pool c s)) = lb_bal s" "lb_lim (fst (close_pool c s)) = lb_lim s"
  "lb_probing (fst (close_pool c s)) = lb_probing s"
  "lb_trace (fst (close_pool c s)) =
     lb_trace s @ (if pl_closed (lb_pool s) = None then [Conns_Closed (map bk_conn (pl_backends (lb_pool s)))] else [])"
  by (auto simp: close_pool_def Pool_Close_def Let_def split: option.splits)

lemma close_backends_parts [simp]:
  "pl_closed (lb_pool (close_backends c s)) \<noteq> None" "lb_bal (close_backends c s) = lb_bal s" "lb_lim (close_backends c s) = lb_lim s"
  "lb_probing (close_backends c s) = lb_probing s"
  "\<exists>logs. lb_trace (close_backends c s) =
     lb_trace s @ (if pl_closed (lb_pool s) = None then [Conns_Closed (map bk_conn (pl_backends (lb_pool s)))] else []) @ map Logged logs"
proof -
  let ?p = "close_pool c s"
  have e: "close_backends c s = (if snd ?p \<noteq> [] then note_event (Logged ''closing backend connections'') (fst ?p) else fst ?p)"
    by (simp add: close_backends_def split_beta)
  show "pl_closed (lb_pool (close_backends c s)) \<noteq> None" "lb_bal (close_backends c s) = lb_bal s" "lb_lim (close_backends c s) = lb_lim s"
    "lb_probing (close_backends c s) = lb_probing s"
    using close_pool_parts(1) [of c s] by (simp_all add: e del: not_None_eq)
  show "\<exists>logs. lb_trace (close_backends c s) =
     lb_trace s @ (if pl_closed (lb_pool s) = None then [Conns_Closed (map bk_conn (pl_backends (lb_pool s)))] else []) @ map Logged logs"
    by (rule exI [of _ "if snd ?p \<noteq> [] then [''closing backend connections''] else []"]) (simp add: e)
qed

lemma stop_servers_parts [simp]:
  "lb_pool (stop_grpc w s) = lb_pool s" "lb_bal (stop_grpc w s) = lb_bal s" "lb_lim (stop_grpc w s) = lb_lim s"
  "lb_probing (stop_grpc w s) = lb_probing s" "lb_pool (stop_admin w s) = lb_pool s" "lb_bal (stop_admin w s) = lb_bal s"
  "lb_lim (stop_admin w s) = lb_lim s" "lb_probing (stop_admin w s) = lb_probing s"
  by (simp_all add: stop_grpc_def stop_admin_def)

text \<open>The trace of stopping a server holds its stop and log records.\<close>

fun stops_server :: "'c lb_event \<Rightarrow> bool" where
  "stops_server (Logged _) = True"
| "stops_server (Grpc_Stopped _) = True"
| "stops_server (Admin_Stopped _) = True"
| "stops_server _ = False"

lemma stop_servers_trace:
  "\<exists>mid. lb_trace (stop_admin w (stop_grpc w s)) = lb_trace s @ mid \<and> list_all stops_server mid \<and>
     (Grpc_Stopped True \<in> set mid \<or> Grpc_Stopped False \<in> set mid) \<and> (Admin_Stopped True \<in> set mid \<or> Admin_Stopped False \<in> set mid)"
  by (cases "lw_inTime w"; cases "lw_adminErr w") (simp_all add: stop_grpc_def stop_admin_def)

text \<open>The process as it starts.\<close>

definition fresh_lb :: "('c, 'l) lb \<Rightarrow> bool" where
  "fresh_lb s = (lb_probing s \<and> \<not> ba_closed (lb_bal s) \<and> \<not> li_stop (lb_lim s) \<and> pl_closed (lb_pool s) = None \<and>
     lb_trace s = [Logged ''starting load balancer'', Probing_Started])"

text \<open>The deferred calls on a process that never served, and on one that has been shut down.\<close>

lemma deferred_early:
  assumes "lb_probing s" "\<not> ba_closed (lb_bal s)" "\<not> li_stop (lb_lim s)" "pl_closed (lb_pool s) = None"
  shows "lb_trace (deferred closec s) =
    lb_trace s @ [Limiter_Closed, Balancer_Closed, Probing_Stopped, Conns_Closed (map bk_conn (pl_backends (lb_pool s)))]"
  using assms by (simp add: deferred_def)

lemma shutdown_state:
  "\<not> lb_probing (shutdown w s)" "ba_closed (lb_bal (shutdown w s))" "li_stop (lb_lim (shutdown w s))"
    "pl_closed (lb_pool (shutdown w s)) \<noteq> None"
  using close_backends_parts(1) by (simp_all add: shutdown_def Let_def)

lemma deferred_late:
  assumes "\<not> lb_probing s" "ba_closed (lb_bal s)" "li_stop (lb_lim s)" "pl_closed (lb_pool s) \<noteq> None"
  shows "lb_trace (deferred closec s) = lb_trace s"
  using assms by (simp add: deferred_def)

lemma shutdown_trace:
  assumes "fresh_lb s"
  shows "\<exists>mid logs. lb_trace (shutdown w (s\<lparr>lb_trace := tr\<rparr>)) =
      (tr @ [Logged ''shutting down'', Probing_Stopped, Logged ''health checker stopped''] @ mid @ [Balancer_Closed]) @
      Conns_Closed (map bk_conn (pl_backends (lb_pool s))) # map Logged logs @ [Limiter_Closed, Logged ''shutdown complete''] \<and>
    list_all stops_server mid \<and>
    (Grpc_Stopped True \<in> set mid \<or> Grpc_Stopped False \<in> set mid) \<and> (Admin_Stopped True \<in> set mid \<or> Admin_Stopped False \<in> set mid)"
proof -
  let ?a = "note_event (Logged ''health checker stopped'') (stop_checker (note_event (Logged ''shutting down'') (s\<lparr>lb_trace := tr\<rparr>)))"
  let ?b = "close_balancer (stop_admin w (stop_grpc w ?a))"
  obtain mid where mid: "lb_trace (stop_admin w (stop_grpc w ?a)) = lb_trace ?a @ mid" "list_all stops_server mid"
    "Grpc_Stopped True \<in> set mid \<or> Grpc_Stopped False \<in> set mid" "Admin_Stopped True \<in> set mid \<or> Admin_Stopped False \<in> set mid"
    using stop_servers_trace by blast
  obtain logs where logs: "lb_trace (close_backends (lw_close w) ?b) = lb_trace ?b @
      (if pl_closed (lb_pool ?b) = None then [Conns_Closed (map bk_conn (pl_backends (lb_pool ?b)))] else []) @ map Logged logs"
    using close_backends_parts(5) by blast
  show ?thesis using assms mid(2-) mid(1)
    by (intro exI [of _ mid] exI [of _ logs]) (simp add: shutdown_def Let_def logs fresh_lb_def)
qed

lemma logs_only: "list_all (\<lambda>e. \<not> closes_conns e \<and> \<not> uses_conns e) (map Logged logs)"
  by (induction logs) simp_all

lemma stops_only: "list_all stops_server mid \<Longrightarrow> list_all (\<lambda>e. \<not> closes_conns e) mid"
  by (induction mid) (auto elim!: stops_server.elims)

definition early_exit :: "'c lb_event list \<Rightarrow> bool" where
  "early_exit evs = (Grpc_Serving \<notin> set evs \<and> list_all (\<lambda>e. case e of Listening a \<Rightarrow> Listener_Closed a \<in> set evs | _ \<Rightarrow> True) evs)"

lemma serve_orderly:
  assumes "fresh_lb s" "serve_until w cfg s = (err, t)"
  shows "orderly (lb_trace (deferred closec t)) (map bk_conn (pl_backends (lb_pool s))) \<and>
    Limiter_Closed \<in> set (lb_trace (deferred closec t)) \<and>
    (early_exit (lb_trace (deferred closec t)) \<or> Grpc_Serving \<in> set (lb_trace (deferred closec t)))"
proof -
  note f = assms(1) [unfolded fresh_lb_def]
  consider (no_port) msg where "lw_listen w (c_Listen cfg) = Some msg"
    | (no_admin) msg where "lw_listen w (c_Listen cfg) = None" "lw_listen w (c_AdminListen cfg) = Some msg"
    | (served) "lw_listen w (c_Listen cfg) = None" "lw_listen w (c_AdminListen cfg) = None"
    by (cases "lw_listen w (c_Listen cfg)"; cases "lw_listen w (c_AdminListen cfg)") auto
  then show ?thesis
  proof cases
    case no_port
    then have t: "t = s" using assms(2) by (simp add: serve_until_def)
    have e: "lb_trace (deferred closec t) = (lb_trace s @ [Limiter_Closed, Balancer_Closed, Probing_Stopped]) @
        Conns_Closed (map bk_conn (pl_backends (lb_pool s))) # []"
      unfolding t using deferred_early [of s closec] f by simp
    have "orderly (lb_trace (deferred closec t)) (map bk_conn (pl_backends (lb_pool s)))" by (rule orderlyI [OF e]) (use f in simp_all)
    then show ?thesis using f by (simp add: e early_exit_def)
  next
    case no_admin
    then have t: "t = s\<lparr>lb_trace := lb_trace s @ [Listening (c_Listen cfg), Listener_Closed (c_Listen cfg)]\<rparr>"
      using assms(2) by (simp add: serve_until_def note_event_def)
    have e: "lb_trace (deferred closec t) = (lb_trace s @ [Listening (c_Listen cfg), Listener_Closed (c_Listen cfg), Limiter_Closed,
        Balancer_Closed, Probing_Stopped]) @ Conns_Closed (map bk_conn (pl_backends (lb_pool s))) # []"
      using deferred_early [of t closec] f by (simp add: t)
    have "orderly (lb_trace (deferred closec t)) (map bk_conn (pl_backends (lb_pool s)))" by (rule orderlyI [OF e]) (use f in simp_all)
    then show ?thesis using f by (simp add: e early_exit_def)
  next
    case served
    let ?tr = "lb_trace s @ [Listening (c_Listen cfg), Listening (c_AdminListen cfg), Grpc_Serving, Admin_Serving, Logged ''serving''] @
      (if lw_end w = Signalled then [Logged ''signal received, draining''] else [])"
    have t: "t = shutdown w (s\<lparr>lb_trace := ?tr\<rparr>)"
      using assms(2) served by (simp add: serve_until_def note_event_def Let_def split: if_splits)
    have e: "lb_trace (deferred closec t) = lb_trace t"
      unfolding t by (rule deferred_late) (rule shutdown_state)+
    obtain mid logs where tr: "lb_trace t =
        (?tr @ [Logged ''shutting down'', Probing_Stopped, Logged ''health checker stopped''] @ mid @ [Balancer_Closed]) @
        Conns_Closed (map bk_conn (pl_backends (lb_pool s))) # map Logged logs @ [Limiter_Closed, Logged ''shutdown complete'']"
      and m: "list_all stops_server mid" "Grpc_Stopped True \<in> set mid \<or> Grpc_Stopped False \<in> set mid"
        "Admin_Stopped True \<in> set mid \<or> Admin_Stopped False \<in> set mid"
      using shutdown_trace [OF assms(1), of w ?tr] unfolding t by blast
    have "orderly (lb_trace t) (map bk_conn (pl_backends (lb_pool s)))"
      by (rule orderlyI [OF tr]) (use f m logs_only stops_only in auto)
    moreover have "Limiter_Closed \<in> set (lb_trace t)" "Grpc_Serving \<in> set (lb_trace t)" by (simp_all add: tr)
    ultimately show ?thesis by (simp add: e)
  qed
qed

subsection \<open>Reading the states\<close>

lemma on_breaker_polled:
  assumes "i < length (pl_backends p)"
    and f: "\<And>b. breaker_inv b \<Longrightarrow> breaker_inv (fst (f b)) \<and> br_name (fst (f b)) = br_name b \<and> br_probes (fst (f b)) \<le> br_probes b"
  shows "polled p (fst (on_breaker p i f d))"
proof (cases "pool_inv p")
  case True
  then have ok: "pool_ok i p" using assms(1) by (simp add: pool_ok_def)
  obtain b where b: "breaker_at (pl_breakers p) (bk_breaker (backend_at p i)) = Some b" "breaker_inv b"
    using pool_ok_breaker [OF ok] .
  let ?q = "p\<lparr>pl_breakers := breaker_put (pl_breakers p) (bk_breaker (backend_at p i)) (fst (f b))\<rparr>"
  have q: "fst (on_breaker p i f d) = ?q" by (simp add: on_breaker_held(1) [OF ok b(1)])
  have "pool_held j ?q \<le> pool_held j p" for j
    using f [OF b(2)] b(1)
    by (cases "bk_breaker (backend_at p j) = bk_breaker (backend_at p i)") (simp_all add: pool_held_def breaker_at_put)
  moreover have "pool_inv ?q" using on_breaker_ok [OF ok, of f d] f by (simp add: q pool_ok_def)
  ultimately show ?thesis by (simp add: polled_def q)
next
  case False
  then show ?thesis by (simp add: polled_def on_breaker_def Let_def split_beta split: option.split)
qed

lemma Breaker_State_frame:
  assumes "breaker_inv b"
  shows "breaker_inv (fst (Breaker_State b t)) \<and> br_name (fst (Breaker_State b t)) = br_name b \<and>
    br_probes (fst (Breaker_State b t)) \<le> br_probes b"
proof -
  have "br_probes (fst (Breaker_State b t)) \<le> br_probes b"
    using assms by (auto simp: Breaker_State_def State_locked_def refreshLocked_def setStateLocked_probes Let_def split_beta breaker_inv_def)
  then show ?thesis using breaker_call_inv [OF assms, of CallState t] breaker_call_frame(1) [of CallState t b]
    by (simp add: split_beta Let_def)
qed

lemma backend_status_polled:
  assumes "i < length (pl_backends p)"
  shows "polled p (fst (backend_status_of p i t))"
  using on_breaker_polled [OF assms, of "\<lambda>br. Breaker_State br t" "([], StateClosed)"] Breaker_State_frame
  by (simp add: backend_status_of_def Let_def split_beta)

lemma status_loop_rows:
  assumes "list_all (\<lambda>i. i < length (pl_backends p)) is" "status_loop clock p is = (q, ev, sts)"
  shows "polled p q \<and> map su_ID sts = map (\<lambda>i. bk_id (backend_at p i)) is \<and>
    map su_Healthy sts = map (Backend_Healthy p) is"
  using assms
proof (induction "is" arbitrary: p q ev sts)
  case (Cons i "is")
  obtain p1 e1 s1 where a: "backend_status_of p i (clock i) = (p1, e1, s1)" by (metis prod_cases3)
  obtain p2 e2 s2 where b: "status_loop clock p1 is = (p2, e2, s2)" by (metis prod_cases3)
  have r: "q = p2" "sts = s1 # s2" using Cons.prems(2) by (simp_all add: a b)
  have pp: "polled p p1" using backend_status_polled [of i p "clock i"] Cons.prems(1) by (simp add: a)
  then have bk: "pl_backends p1 = pl_backends p" by (simp add: polled_def)
  have "su_ID s1 = bk_id (backend_at p i)" "su_Healthy s1 = Backend_Healthy p i"
    using a by (auto simp: backend_status_of_def Let_def Backend_Healthy_def split: prod.splits)
  moreover have "list_all (\<lambda>i. i < length (pl_backends p1)) is" using Cons.prems(1) by (simp add: bk)
  ultimately show ?case using Cons.IH [OF _ b] polled_trans [OF pp] by (simp add: r bk Backend_Healthy_def [abs_def])
qed simp

subsection \<open>Claims\<close>

lemma newPool_loop_open: "newPool_loop i bcs en dial m clock p calls = Inr (q, calls') \<Longrightarrow> pl_closed q = pl_closed p"
proof (induction bcs arbitrary: i p calls)
  case (Cons bc bcs)
  show ?case
  proof (cases "newBackend p i bc en dial m clock")
    case (Inr r)
    obtain p1 b c where r: "r = (p1, b, c)" by (metis prod_cases3)
    have "pl_closed p1 = pl_closed p"
      using Inr by (auto simp: r newBackend_def Let_def split_beta split: if_splits sum.splits option.splits)
    then show ?thesis using Cons.IH Cons.prems Inr r by fastforce
  qed (use Cons.prems in auto)
qed simp

lemma Balancer_New_parts:
  assumes "Balancer_New h p cfg m cb = (bal, q, calls)"
  shows "\<not> ba_closed bal \<and> pl_backends q = pl_backends p \<and> pl_closed q = pl_closed p"
  using assms by (auto simp: Balancer_New_def Rebuild_def Let_def Pool_OnChange_def split_beta split: if_splits)

text \<open>
  C9: Every way out of the load balancer is an orderly one. Once the pool exists, whether a port cannot be bound,
  a server fails or a signal arrives, and whatever the grace allows, the upstream connections are closed exactly
  once, after probing has stopped, the balancer is closed and both servers, if they ever served, have stopped; and
  nothing that uses the connections starts afterwards. The limiter is closed too, and a bound port is released
  when the process never served. The deferred clean-ups repeat nothing after a shutdown.
\<close>

theorem lb_exits_orderly:
  assumes "resolveConfig openf decode env args = Inr cfg" "newPool cfg True (lw_dial w) (lw_clock w) (lw_now w) = Inr (p, calls)"
  shows "orderly (snd (runWith openf decode env args w)) (map bk_conn (pl_backends p)) \<and>
    Limiter_Closed \<in> set (snd (runWith openf decode env args w)) \<and>
    (early_exit (snd (runWith openf decode env args w)) \<or> Grpc_Serving \<in> set (snd (runWith openf decode env args w)))"
proof -
  obtain bal q calls' where b: "Balancer_New (lw_hash w) p (c_Routing cfg) True 0 = (bal, q, calls')" by (metis prod_cases3)
  let ?s = "\<lparr>lb_pool = q, lb_bal = bal, lb_lim = newWithClock (lw_newl w) (lw_oob w) (limiter_config cfg), lb_probing = True,
    lb_trace = [Logged ''starting load balancer'', Probing_Started]\<rparr>"
  obtain err t where t: "serve_until w cfg ?s = (err, t)" by fastforce
  have r: "snd (runWith openf decode env args w) = lb_trace (deferred (lw_close w) t)"
    by (simp add: runWith_def assms b t)
  have "pl_closed p = None" using newPool_loop_open [OF assms(2) [unfolded newPool_def]] by simp
  then have "fresh_lb ?s" using Balancer_New_parts [OF b] by (simp add: fresh_lb_def newWithClock_def Let_def split_beta)
  from serve_orderly [OF this t] show ?thesis using Balancer_New_parts [OF b] by (simp add: r)
qed

text \<open>
  Looking does not touch. The endpoint \<^verbatim>\<open>/backends\<close> has one row per backend, in the order of the pool, with its
  health; reading the breakers keeps the pool invariant and reserves no half-open probe. And \<^verbatim>\<open>/readyz\<close> answers 200
  exactly when some row is healthy.
\<close>

theorem admin_endpoints_observe:
  assumes "pool_inv p" "backendStatuses clock p = (q, ev, sts)"
  shows "pool_inv q \<and> (\<forall>i < length (pl_backends p). pool_held i q \<le> pool_held i p) \<and> pl_backends q = pl_backends p \<and>
    map su_ID sts = map bk_id (pl_backends p) \<and> map su_Healthy sts = map (\<lambda>b. bk_state b = StateHealthy) (pl_backends p) \<and>
    (fst (readyz p) = 200 \<longleftrightarrow> (\<exists>st \<in> set sts. su_Healthy st))"
proof -
  let ?n = "length (pl_backends p)"
  have "list_all (\<lambda>i. i < ?n) [0..<?n]" by (simp add: list_all_iff)
  from status_loop_rows [OF this] assms(2)
  have r: "polled p q" "map su_ID sts = map (\<lambda>i. bk_id (backend_at p i)) [0..<?n]" "map su_Healthy sts = map (Backend_Healthy p) [0..<?n]"
    by (auto simp: backendStatuses_def Pool_Backends_def)
  have nth': "map (Backend_Healthy p) [0..<?n] = map (\<lambda>b. bk_state b = StateHealthy) (pl_backends p)"
    by (rule nth_equalityI) (simp_all add: Backend_Healthy_def)
  have ids: "map (\<lambda>i. bk_id (backend_at p i)) [0..<?n] = map bk_id (pl_backends p)"
    by (rule nth_equalityI) simp_all
  have "(\<exists>st \<in> set sts. su_Healthy st) \<longleftrightarrow> True \<in> set (map su_Healthy sts)" by force
  also have "\<dots> \<longleftrightarrow> Pool_Healthy p \<noteq> []" unfolding r(3) by (auto simp: Pool_Healthy_def filter_empty_conv)
  finally have "fst (readyz p) = 200 \<longleftrightarrow> (\<exists>st \<in> set sts. su_Healthy st)" by (simp add: readyz_def Let_def)
  then show ?thesis using assms(1) r ids nth' by (simp add: polled_def)
qed

theorem admin_endpoints_observe_witness:
  "map su_ID (snd (snd (backendStatuses (\<lambda>_. 0) sample_pool))) = [''b'']"
proof -
  obtain q ev sts where r: "backendStatuses (\<lambda>_. 0) sample_pool = (q, ev, sts)" by (metis prod_cases3)
  have "pool_inv sample_pool" using sample_pool_ok by (simp add: pool_ok_def)
  then have "map su_ID sts = map bk_id (pl_backends sample_pool)" using admin_endpoints_observe [OF _ r] by blast
  then show ?thesis unfolding r by (simp add: sample_pool_def)
qed

definition sample_lb_world :: "(nat, int option) lb_world" where
  "sample_lb_world = \<lparr>lw_dial = \<lambda>i _. Inr i, lw_clock = \<lambda>_. 0, lw_now = 0, lw_close = \<lambda>_. None, lw_hash = \<lambda>_. 0, lw_newl = sample_newl,
     lw_oob = \<lambda>_. 0, lw_listen = \<lambda>_. None, lw_end = Signalled, lw_inTime = False, lw_adminErr = True\<rparr>"

theorem lb_exits_orderly_witness:
  "\<exists>conns. orderly (snd (runWith (\<lambda>_. Inl []) (\<lambda>(_ :: unit) raw. Decoded raw) [''LB_BACKENDS'' \<mapsto> ''a=h:1''] [] sample_lb_world)) conns"
proof -
  obtain p calls where "newPool one_backend True (\<lambda>i a. Inr i) (\<lambda>_. 0) 0 = Inr (p :: nat pool, calls)"
    using one_backend_pool [of True] by blast
  then have "newPool one_backend True (lw_dial sample_lb_world) (lw_clock sample_lb_world) (lw_now sample_lb_world) = Inr (p, calls)"
    by (simp add: sample_lb_world_def)
  from lb_exits_orderly [OF one_backend_resolved this] show ?thesis by blast
qed

end
