(* ===== verification/Backend_Server.thy ===== *)
theory Backend_Server
  imports Flags Health Metrics
begin

text \<open>
  \<^verbatim>\<open>cmd/backend/main.go\<close>: the demo upstream. Options, the four handlers of the echo service and the life of the
  process. What a stream delivers and accepts, the end of a call's context, the dice and the clock are inputs. A
  status code is the 32-bit number that the client may ask for.
\<close>

subsection \<open>Options\<close>

record backend_options =
  bo_listen :: string
  bo_adminListen :: string
  bo_id :: string
  bo_delay :: duration
  bo_failRatio :: f64
  bo_health :: string

datatype backend_opt_error =
    Env_Not_Duration string string
  | Env_Not_A_Number string string
  | Backend_Flags flag_error
  | Backend_Arguments "string list"
  | Backend_Option string

definition envString :: "(string \<Rightarrow> string option) \<Rightarrow> string \<Rightarrow> string \<Rightarrow> string" where
  "envString env key def = (case env key of Some v \<Rightarrow> if v \<noteq> [] then v else def | None \<Rightarrow> def)"

definition envDuration :: "(f64 \<Rightarrow> int) \<Rightarrow> (string \<Rightarrow> string option) \<Rightarrow> string \<Rightarrow> duration \<Rightarrow> backend_opt_error + duration" where
  "envDuration oob env key def =
     (case env key of
        None \<Rightarrow> Inr def
      | Some v \<Rightarrow>
          (if v = [] then Inr def
           else case ParseDuration v of
                  Some d \<Rightarrow> Inr d
                | None \<Rightarrow>
                    (case ParseFloat v of
                       None \<Rightarrow> Inl (Env_Not_Duration key v)
                     | Some ms \<Rightarrow> Inr (f64_toInt oob (f64_mul ms (f64_of_int millisecond))))))"

definition envFloat :: "(string \<Rightarrow> string option) \<Rightarrow> string \<Rightarrow> f64 \<Rightarrow> backend_opt_error + f64" where
  "envFloat env key def =
     (case env key of
        None \<Rightarrow> Inr def
      | Some v \<Rightarrow> if v = [] then Inr def else case ParseFloat v of None \<Rightarrow> Inl (Env_Not_A_Number key v) | Some f \<Rightarrow> Inr f)"

text \<open>\<open>hostname\<close> is the answer of \<open>os.Hostname\<close>, \<open>None\<close> for an error.\<close>

definition defaultID :: "string option \<Rightarrow> string" where
  "defaultID hostname = (case hostname of Some h \<Rightarrow> if h \<noteq> [] then h else ''backend'' | None \<Rightarrow> ''backend'')"

definition backend_flags :: "string \<rightharpoonup> backend_options flag_setter" where
  "backend_flags = map_of
     [(''listen'', string_flag bo_listen_update), (''admin-listen'', string_flag bo_adminListen_update), (''id'', string_flag bo_id_update),
      (''delay'', duration_flag bo_delay_update), (''fail-ratio'', float_flag bo_failRatio_update), (''health'', string_flag bo_health_update)]"

definition backend_defaults :: "(string \<Rightarrow> string option) \<Rightarrow> string option \<Rightarrow> duration \<Rightarrow> f64 \<Rightarrow> backend_options" where
  "backend_defaults env hostname delay ratio =
     \<lparr>bo_listen = envString env ''BACKEND_LISTEN'' '':50051'', bo_adminListen = '':9101'',
      bo_id = envString env ''BACKEND_ID'' (defaultID hostname), bo_delay = delay, bo_failRatio = ratio, bo_health = ''serving''\<rparr>"

definition check_options :: "backend_options \<Rightarrow> backend_opt_error + backend_options" where
  "check_options c =
     (if bo_listen c = [] then Inl (Backend_Option ''-listen must not be empty'')
      else if bo_adminListen c = [] then Inl (Backend_Option ''-admin-listen must not be empty'')
      else if bo_id c = [] then Inl (Backend_Option ''-id must not be empty'')
      else if bo_delay c < 0 then Inl (Backend_Option ''-delay must not be negative'')
      else if f64_lt (bo_failRatio c) (Fin 0) \<or> f64_lt (Fin 1) (bo_failRatio c) then Inl (Backend_Option ''-fail-ratio must be in [0,1]'')
      else if bo_health c \<noteq> ''serving'' \<and> bo_health c \<noteq> ''not_serving'' then Inl (Backend_Option ''-health must be serving or not_serving'')
      else Inr c)"

definition parseOptions ::
  "(f64 \<Rightarrow> int) \<Rightarrow> (string \<Rightarrow> string option) \<Rightarrow> string option \<Rightarrow> string list \<Rightarrow> backend_opt_error + backend_options" where
  "parseOptions oob env hostname args =
     (case envDuration oob env ''BACKEND_DELAY'' 0 of
        Inl e \<Rightarrow> Inl e
      | Inr delay \<Rightarrow>
          (case envFloat env ''BACKEND_FAIL_RATIO'' (Fin 0) of
             Inl e \<Rightarrow> Inl e
           | Inr ratio \<Rightarrow>
               (case flag_parse backend_flags args (backend_defaults env hostname delay ratio) {} of
                  Inl e \<Rightarrow> Inl (Backend_Flags e)
                | Inr (c, _, rest) \<Rightarrow> if rest \<noteq> [] then Inl (Backend_Arguments rest) else check_options c)))"

definition servingStatus :: "backend_options \<Rightarrow> serving_status" where
  "servingStatus c = (if bo_health c = ''not_serving'' then Not_Serving ''NOT_SERVING'' else SERVING)"

subsection \<open>The server\<close>

text \<open>The requests of the service and its replies.\<close>

record echo_req =
  rq_payload :: string
  rq_delayMs :: "32 word"
  rq_failCode :: "32 word"
  rq_streamCount :: "32 word"

record echo_resp =
  re_payload :: string
  re_backendId :: string
  re_backendAddr :: string
  re_seq :: "32 word"
  re_served :: int

text \<open>A status error by its number, and an error of the stream; \<open>io.EOF\<close> ends what \<open>Recv\<close> delivers.\<close>

datatype srv_error = Srv_Status "32 word" string | Srv_Stream go_error

record server =
  sv_id :: string
  sv_addr :: string
  sv_baseDelay :: duration
  sv_failRatio :: f64
  sv_requests :: "(string \<times> 32 word) list" \<comment> \<open>the increments of \<open>backend_requests_total\<close>, by method and code\<close>

definition newServer :: "backend_options \<Rightarrow> string \<Rightarrow> server" where
  "newServer c addr = \<lparr>sv_id = bo_id c, sv_addr = addr, sv_baseDelay = bo_delay c, sv_failRatio = bo_failRatio c, sv_requests = []\<rparr>"

definition reply :: "server \<Rightarrow> string \<Rightarrow> 32 word \<Rightarrow> int \<Rightarrow> echo_resp" where
  "reply s payload seq now =
     \<lparr>re_payload = payload, re_backendId = sv_id s, re_backendAddr = sv_addr s, re_seq = seq, re_served = now\<rparr>"

text \<open>How the context of a call ends, and the status that \<open>status.FromContextError\<close> makes of it.\<close>

datatype ctx_end = Ctx_Canceled | Ctx_DeadlineExceeded

fun FromContextError :: "ctx_end \<Rightarrow> srv_error" where
  "FromContextError Ctx_Canceled = Srv_Status 1 ''context canceled''"
| "FromContextError Ctx_DeadlineExceeded = Srv_Status 4 ''context deadline exceeded''"

text \<open>\<open>pause\<close>: the sum of the delays wraps at 64 bits; \<open>ended\<close> is the case that the \<open>select\<close> takes, \<open>None\<close> for the timer.\<close>

definition pause :: "server \<Rightarrow> 32 word \<Rightarrow> ctx_end option \<Rightarrow> srv_error option" where
  "pause s extraMs ended =
     (let d = i64 (sv_baseDelay s + uint extraMs * millisecond) in if d \<le> 0 then None else map_option FromContextError ended)"

definition injectedFailure :: "echo_req \<Rightarrow> srv_error option" where
  "injectedFailure req = (if rq_failCode req \<noteq> 0 then Some (Srv_Status (rq_failCode req) ''injected failure'') else None)"

text \<open>The two checks that every handler makes before it answers.\<close>

definition admit_request :: "server \<Rightarrow> echo_req \<Rightarrow> ctx_end option \<Rightarrow> srv_error option" where
  "admit_request s req ended =
     (case pause s (rq_delayMs req) ended of Some e \<Rightarrow> Some e | None \<Rightarrow> injectedFailure req)"

definition echo :: "server \<Rightarrow> echo_req \<Rightarrow> ctx_end option \<Rightarrow> f64 \<Rightarrow> int \<Rightarrow> srv_error + echo_resp" where
  "echo s req ended dice now =
     (case admit_request s req ended of
        Some e \<Rightarrow> Inl e
      | None \<Rightarrow>
          (if f64_lt (Fin 0) (sv_failRatio s) \<and> f64_lt dice (sv_failRatio s) then Inl (Srv_Status 14 ''injected failure'')
           else Inr (reply s (rq_payload req) 0 now)))"

text \<open>\<open>record\<close>; \<open>number\<close> is the code that \<open>status.Code\<close> gives an error of the stream.\<close>

fun status_number :: "(go_error \<Rightarrow> 32 word) \<Rightarrow> srv_error option \<Rightarrow> 32 word" where
  "status_number number None = 0"
| "status_number number (Some (Srv_Status c _)) = c"
| "status_number number (Some (Srv_Stream e)) = number e"

definition server_record :: "(go_error \<Rightarrow> 32 word) \<Rightarrow> string \<Rightarrow> srv_error option \<Rightarrow> server \<Rightarrow> server" where
  "server_record number m err s = s\<lparr>sv_requests := sv_requests s @ [(m, status_number number err)]\<rparr>"

definition Echo :: "(go_error \<Rightarrow> 32 word) \<Rightarrow> server \<Rightarrow> echo_req \<Rightarrow> ctx_end option \<Rightarrow> f64 \<Rightarrow> int \<Rightarrow> server \<times> (srv_error + echo_resp)" where
  "Echo number s req ended dice now =
     (let r = echo s req ended dice now in (server_record number ''Echo'' (case r of Inl e \<Rightarrow> Some e | Inr _ \<Rightarrow> None) s, r))"

text \<open>The loop of \<open>serverStream\<close>: what each round meets is its \<open>select\<close>, the answer of \<open>Send\<close> and the clock.\<close>

type_synonym round = "ctx_end option \<times> srv_error option \<times> int"

lemma unat_step:
  assumes "i < (n :: 32 word)"
  shows "unat (i + 1) = unat i + 1"
proof -
  have "unat i < unat n" using assms by (simp add: word_less_nat_alt)
  then have "unat i + 1 < 2 ^ 32" using unsigned_less [of n, where ?'a = nat] by simp
  then show ?thesis by (simp add: unat_word_ariths)
qed

function serverStream_loop ::
  "server \<Rightarrow> echo_req \<Rightarrow> 32 word \<Rightarrow> 32 word \<Rightarrow> (32 word \<Rightarrow> round) \<Rightarrow> echo_resp list \<Rightarrow> echo_resp list \<times> srv_error option" where
  "serverStream_loop s req n i meets sent =
     (if \<not> i < n then (sent, None)
      else let (ended, send, now) = meets i
           in case admit_request s req ended of
                Some e \<Rightarrow> (sent, Some e)
              | None \<Rightarrow>
                  (case send of
                     Some e \<Rightarrow> (sent, Some e)
                   | None \<Rightarrow> serverStream_loop s req n (i + 1) meets (sent @ [reply s (rq_payload req) i now])))"
  by pat_completeness auto
termination
proof (relation "measure (\<lambda>(s, req, n, i, meets, sent). unat n - unat i)")
  show "((s, req, n, i + 1, meets, sent @ [reply s (rq_payload req) i now]), s, req, n, i, meets, sent)
      \<in> measure (\<lambda>(s, req, n, i, meets, sent). unat n - unat i)"
    if "\<not> \<not> i < n" for s req and n i :: "32 word" and meets :: "32 word \<Rightarrow> round" and sent now
    using that unat_step [of i n] by (simp add: word_less_nat_alt)
qed simp

declare serverStream_loop.simps [simp del]

definition serverStream :: "server \<Rightarrow> echo_req \<Rightarrow> (32 word \<Rightarrow> round) \<Rightarrow> echo_resp list \<times> srv_error option" where
  "serverStream s req meets = serverStream_loop s req (max (rq_streamCount req) 1) 0 meets []"

definition ServerStream :: "(go_error \<Rightarrow> 32 word) \<Rightarrow> server \<Rightarrow> echo_req \<Rightarrow> (32 word \<Rightarrow> round) \<Rightarrow> server \<times> echo_resp list \<times> srv_error option" where
  "ServerStream number s req meets =
     (let (sent, err) = serverStream s req meets in (server_record number ''ServerStream'' err s, sent, err))"

text \<open>
  The streams that the client writes: each round meets what \<open>Recv\<close> delivers, and, after a request, a \<open>select\<close>, the
  answer of \<open>Send\<close> and the clock. A stream that has not ended after the rounds given is still open.
\<close>

datatype received = Got echo_req | Got_Error go_error

datatype stream_end = Still_Open | Stream_Ended "srv_error option"

fun clientStream_loop :: "server \<Rightarrow> int \<Rightarrow> (received \<times> ctx_end option) list \<Rightarrow> int + stream_end" where
  "clientStream_loop s bytes [] = Inr Still_Open"
| "clientStream_loop s bytes ((Got_Error err, _) # rounds) =
     (if errors_Is err EOF then Inl bytes else Inr (Stream_Ended (Some (Srv_Stream err))))"
| "clientStream_loop s bytes ((Got req, ended) # rounds) =
     (case admit_request s req ended of
        Some e \<Rightarrow> Inr (Stream_Ended (Some e))
      | None \<Rightarrow> clientStream_loop s (i64 (bytes + int (length (rq_payload req)))) rounds)"

text \<open>\<open>send\<close> and \<open>now\<close> are what \<open>SendAndClose\<close> answers and the clock says.\<close>

definition clientStream :: "server \<Rightarrow> (received \<times> ctx_end option) list \<Rightarrow> srv_error option \<Rightarrow> int \<Rightarrow> echo_resp list \<times> stream_end" where
  "clientStream s rounds send now =
     (case clientStream_loop s 0 rounds of
        Inr e \<Rightarrow> ([], e)
      | Inl bytes \<Rightarrow>
          (case send of Some e \<Rightarrow> ([], Stream_Ended (Some e)) | None \<Rightarrow> ([reply s (itoa bytes) 0 now], Stream_Ended None)))"

fun bidiStream_loop :: "server \<Rightarrow> 32 word \<Rightarrow> (received \<times> round) list \<Rightarrow> echo_resp list \<times> stream_end" where
  "bidiStream_loop s seq [] = ([], Still_Open)"
| "bidiStream_loop s seq ((Got_Error err, _) # rounds) =
     ([], Stream_Ended (if errors_Is err EOF then None else Some (Srv_Stream err)))"
| "bidiStream_loop s seq ((Got req, ended, send, now) # rounds) =
     (case admit_request s req ended of
        Some e \<Rightarrow> ([], Stream_Ended (Some e))
      | None \<Rightarrow>
          (case send of
             Some e \<Rightarrow> ([], Stream_Ended (Some e))
           | None \<Rightarrow> (let (sent, e) = bidiStream_loop s (seq + 1) rounds in (reply s (rq_payload req) seq now # sent, e))))"

definition bidiStream :: "server \<Rightarrow> (received \<times> round) list \<Rightarrow> echo_resp list \<times> stream_end" where
  "bidiStream s rounds = bidiStream_loop s 0 rounds"

text \<open>The handlers record a stream when it has ended.\<close>

definition record_end :: "(go_error \<Rightarrow> 32 word) \<Rightarrow> string \<Rightarrow> stream_end \<Rightarrow> server \<Rightarrow> server" where
  "record_end number m e s = (case e of Still_Open \<Rightarrow> s | Stream_Ended err \<Rightarrow> server_record number m err s)"

definition ClientStream ::
  "(go_error \<Rightarrow> 32 word) \<Rightarrow> server \<Rightarrow> (received \<times> ctx_end option) list \<Rightarrow> srv_error option \<Rightarrow> int \<Rightarrow> server \<times> echo_resp list \<times> stream_end" where
  "ClientStream number s rounds send now =
     (let (sent, e) = clientStream s rounds send now in (record_end number ''ClientStream'' e s, sent, e))"

definition BidiStream :: "(go_error \<Rightarrow> 32 word) \<Rightarrow> server \<Rightarrow> (received \<times> round) list \<Rightarrow> server \<times> echo_resp list \<times> stream_end" where
  "BidiStream number s rounds =
     (let (sent, e) = bidiStream s rounds in (record_end number ''BidiStream'' e s, sent, e))"

subsection \<open>The process\<close>

datatype backend_event =
    Bound string
  | Unbound string
  | Health_Set string serving_status
  | Serving_Both
  | Started_Log
  | Draining_Log
  | Health_Shutdown
  | Drain_Waited duration
  | Graceful_Stopped
  | Admin_Down bool
  | Stopped_Log

datatype backend_error = Backend_Bad_Options backend_opt_error | Backend_Listen string string | Backend_Serve go_error | Backend_Admin_Shutdown

record backend_world =
  bw_listen :: "string \<Rightarrow> string option"
  bw_serveErr :: "go_error option" \<comment> \<open>a failure of one of the servers, or the signal\<close>
  bw_adminErr :: bool

definition drainDelay :: duration where "drainDelay = 250 * millisecond"

definition echo_service :: string where "echo_service = ''echo.v1.EchoService''"

definition backend_run ::
  "(f64 \<Rightarrow> int) \<Rightarrow> (string \<Rightarrow> string option) \<Rightarrow> string option \<Rightarrow> string list \<Rightarrow> backend_world \<Rightarrow> backend_error list \<times> backend_event list" where
  "backend_run oob env hostname args w =
     (case parseOptions oob env hostname args of
        Inl e \<Rightarrow> ([Backend_Bad_Options e], [])
      | Inr c \<Rightarrow>
          (case bw_listen w (bo_listen c) of
             Some msg \<Rightarrow> ([Backend_Listen (bo_listen c) msg], [])
           | None \<Rightarrow>
               (case bw_listen w (bo_adminListen c) of
                  Some msg \<Rightarrow> ([Backend_Listen (bo_adminListen c) msg], [Bound (bo_listen c), Unbound (bo_listen c)])
                | None \<Rightarrow>
                    ((case bw_serveErr w of None \<Rightarrow> [] | Some e \<Rightarrow> [Backend_Serve e]) @ (if bw_adminErr w then [Backend_Admin_Shutdown] else []),
                     [Bound (bo_listen c), Bound (bo_adminListen c), Health_Set [] (servingStatus c), Health_Set echo_service (servingStatus c),
                      Serving_Both, Started_Log, Draining_Log, Health_Shutdown, Drain_Waited drainDelay, Graceful_Stopped,
                      Admin_Down (\<not> bw_adminErr w), Stopped_Log]))))"

definition backend_main :: "backend_error list \<Rightarrow> int" where
  "backend_main errs = (if errs = [] \<or> errs = [Backend_Bad_Options (Backend_Flags ErrHelp)] then 0 else 1)"

subsection \<open>Lemmas\<close>

text \<open>Reply number \<open>k\<close> of a stream answers a request.\<close>

definition answers :: "server \<Rightarrow> nat \<Rightarrow> echo_req \<Rightarrow> echo_resp \<Rightarrow> bool" where
  "answers s k req r = (re_payload r = rq_payload req \<and> re_seq r = of_nat k \<and> re_backendId r = sv_id s \<and> re_backendAddr r = sv_addr s)"

lemma reply_answers: "answers s k req (reply s (rq_payload req) (of_nat k) now)"
  by (simp add: answers_def reply_def)

lemma serverStream_loop_answers:
  assumes "serverStream_loop s req n i meets sent = (out, err)" "unat i \<le> unat n" "length sent = unat i"
    "\<forall>k < length sent. answers s k req (sent ! k)"
  shows "length out \<le> unat n \<and> (\<forall>k < length out. answers s k req (out ! k)) \<and> (err = None \<longleftrightarrow> length out = unat n)"
  using assms
proof (induction s req n i meets sent rule: serverStream_loop.induct)
  case (1 s req n i meets sent)
  obtain ended send now where m: "meets i = (ended, send, now)" by (metis prod_cases3)
  show ?case
  proof (cases "i < n \<and> admit_request s req ended = None \<and> send = None")
    case True
    have i: "unat (i + 1) = unat i + 1" using True unat_step by blast
    let ?sent = "sent @ [reply s (rq_payload req) i now]"
    have "serverStream_loop s req n (i + 1) meets ?sent = (out, err)"
      using 1(2) True by (subst (asm) serverStream_loop.simps) (simp add: m)
    moreover have "unat (i + 1) \<le> unat n" "length ?sent = unat (i + 1)" using True 1(4) i by (simp_all add: word_less_nat_alt)
    moreover have "answers s (length sent) req (?sent ! length sent)" using reply_answers [of s "unat i" req now] 1(4) by (simp add: nth_append)
    then have "\<forall>k < length ?sent. answers s k req (?sent ! k)"
      using 1(5) by (simp add: nth_append less_Suc_eq)
    ultimately show ?thesis using 1(1) [OF _ m [symmetric] refl refl] True by simp
  next
    case False
    show ?thesis
    proof (cases "i < n")
      case True
      have "out = sent \<and> err \<noteq> None"
      proof (cases "admit_request s req ended")
        case None
        then obtain e where "send = Some e" using False True by auto
        then show ?thesis using 1(2) True None by (subst (asm) serverStream_loop.simps) (auto simp: m)
      next
        case (Some e)
        then show ?thesis using 1(2) True by (subst (asm) serverStream_loop.simps) (simp add: m Some, metis option.distinct(1))
      qed
      then show ?thesis using 1(4,5) True by (simp add: word_less_nat_alt)
    next
      case out: False
      then have "out = sent" "err = None" using 1(2) by (subst (asm) serverStream_loop.simps; simp)+
      moreover have "unat i = unat n" using 1(3) out by (simp add: word_less_nat_alt)
      ultimately show ?thesis using 1(4,5) by simp
    qed
  qed
qed

lemma bidiStream_loop_answers:
  assumes "bidiStream_loop s (of_nat j) rounds = (sent, e)"
  shows "length sent \<le> length rounds \<and>
    (\<forall>k < length sent. \<exists>req. fst (rounds ! k) = Got req \<and> answers s (j + k) req (sent ! k)) \<and>
    (e = Stream_Ended None \<longrightarrow> length sent < length rounds \<and> (\<exists>err. fst (rounds ! length sent) = Got_Error err \<and> errors_Is err EOF))"
  using assms
proof (induction rounds arbitrary: j sent e)
  case (Cons r rounds)
  obtain rc ended send now where r: "r = (rc, ended, send, now)" by (metis prod_cases4)
  show ?case
  proof (cases rc)
    case (Got_Error err)
    then show ?thesis using Cons.prems by (auto simp: r split: if_splits)
  next
    case (Got req)
    show ?thesis
    proof (cases "admit_request s req ended = None \<and> send = None")
      case True
      obtain sent' e' where l: "bidiStream_loop s (of_nat (Suc j)) rounds = (sent', e')" by fastforce
      have "sent = reply s (rq_payload req) (of_nat j) now # sent'" "e = e'"
        using Cons.prems True l by (simp_all add: r Got add.commute)
      then show ?thesis using Cons.IH [OF l] reply_answers [of s j req now]
        by (auto simp: r Got nth_Cons split: nat.split)
    next
      case False
      then show ?thesis using Cons.prems by (auto simp: r Got split: option.splits)
    qed
  qed
qed simp

text \<open>The requests that a list of rounds delivers before its end.\<close>

fun delivered :: "(received \<times> 'a) list \<Rightarrow> echo_req list" where
  "delivered [] = []"
| "delivered ((Got_Error _, _) # rounds) = []"
| "delivered ((Got req, _) # rounds) = req # delivered rounds"

lemma i64_sum: "i64 (i64 a + b) = i64 (a + b)"
  using mod_add_left_eq [of "a + 2 ^ 63" "2 ^ 64" b] by (simp add: i64_def algebra_simps)

lemma clientStream_loop_sum:
  "clientStream_loop s (i64 acc) rounds = Inl n \<Longrightarrow> n = i64 (acc + sum_list (map (\<lambda>r. int (length (rq_payload r))) (delivered rounds)))"
proof (induction rounds arbitrary: acc)
  case (Cons r rounds)
  obtain rc ended where r: "r = (rc, ended)" by fastforce
  show ?case
  proof (cases rc)
    case (Got req)
    then have "clientStream_loop s (i64 (acc + int (length (rq_payload req)))) rounds = Inl n"
      using Cons.prems by (auto simp: r i64_sum split: option.splits)
    from Cons.IH [OF this] show ?thesis by (simp add: r Got add.assoc)
  qed (use Cons.prems in \<open>auto simp: r split: if_splits\<close>)
qed simp

lemma clientStream_loop_error: "clientStream_loop s acc rounds \<noteq> Inr (Stream_Ended None)"
  by (induction s acc rounds rule: clientStream_loop.induct) (auto split: option.split)

subsection \<open>Claims\<close>

text \<open>
  C31: The streams of the echo service. A server stream sends the asked number of replies, at least one, unless it
  ends in an error, and never more; reply \<open>k\<close> carries the payload and the number \<open>k\<close>. A bidirectional stream answers
  its requests one by one, in order, and ends without an error only when the client has closed its side and every
  request has been answered. A client stream answers with the number of bytes received.
\<close>

theorem echo_streams_contract:
  "(case serverStream s req meets of (sent, err) \<Rightarrow>
      length sent \<le> unat (max (rq_streamCount req) 1) \<and> (\<forall>k < length sent. answers s k req (sent ! k)) \<and>
      (err = None \<longleftrightarrow> length sent = unat (max (rq_streamCount req) 1))) \<and>
   (case bidiStream s rounds of (sent, e) \<Rightarrow>
      length sent \<le> length rounds \<and>
      (\<forall>k < length sent. \<exists>req. fst (rounds ! k) = Got req \<and> answers s k req (sent ! k)) \<and>
      (e = Stream_Ended None \<longrightarrow>
         length sent < length rounds \<and> (\<exists>err. fst (rounds ! length sent) = Got_Error err \<and> errors_Is err EOF))) \<and>
   (case clientStream s rounds' send now of (sent, e) \<Rightarrow>
      (e = Stream_Ended None \<longrightarrow>
         map re_payload sent = [itoa (i64 (sum_list (map (\<lambda>r. int (length (rq_payload r))) (delivered rounds'))))]) \<and>
      (e \<noteq> Stream_Ended None \<longrightarrow> sent = []))"
proof (intro conjI)
  obtain sent err where a: "serverStream_loop s req (max (rq_streamCount req) 1) 0 meets [] = (sent, err)" by fastforce
  show "case serverStream s req meets of (sent, err) \<Rightarrow>
      length sent \<le> unat (max (rq_streamCount req) 1) \<and> (\<forall>k < length sent. answers s k req (sent ! k)) \<and>
      (err = None \<longleftrightarrow> length sent = unat (max (rq_streamCount req) 1))"
    using serverStream_loop_answers [OF a] by (simp add: serverStream_def a)
next
  obtain sent e where b: "bidiStream_loop s (of_nat 0) rounds = (sent, e)" by fastforce
  show "case bidiStream s rounds of (sent, e) \<Rightarrow>
      length sent \<le> length rounds \<and>
      (\<forall>k < length sent. \<exists>req. fst (rounds ! k) = Got req \<and> answers s k req (sent ! k)) \<and>
      (e = Stream_Ended None \<longrightarrow>
         length sent < length rounds \<and> (\<exists>err. fst (rounds ! length sent) = Got_Error err \<and> errors_Is err EOF))"
    using bidiStream_loop_answers [OF b] b by (simp add: bidiStream_def)
next
  have "i64 0 = 0" by (simp add: i64_def)
  then show "case clientStream s rounds' send now of (sent, e) \<Rightarrow>
      (e = Stream_Ended None \<longrightarrow>
         map re_payload sent = [itoa (i64 (sum_list (map (\<lambda>r. int (length (rq_payload r))) (delivered rounds'))))]) \<and>
      (e \<noteq> Stream_Ended None \<longrightarrow> sent = [])"
    using clientStream_loop_sum [of s 0 rounds'] clientStream_loop_error [of s 0 rounds']
    by (auto simp: clientStream_def reply_def split: sum.split option.split)
qed

definition sample_server :: server where
  "sample_server = \<lparr>sv_id = ''b'', sv_addr = ''h:1'', sv_baseDelay = 0, sv_failRatio = Fin 0, sv_requests = []\<rparr>"

definition sample_req :: echo_req where
  "sample_req = \<lparr>rq_payload = ''hi'', rq_delayMs = 0, rq_failCode = 0, rq_streamCount = 2\<rparr>"

theorem echo_streams_contract_witness:
  "length (fst (serverStream sample_server sample_req (\<lambda>_. (None, None, 0)))) = 2 \<and>
   map re_payload (fst (clientStream sample_server [(Got sample_req, None), (Got sample_req, None), (Got_Error EOF, None)] None 0)) = [itoa 4]"
proof -
  note c = echo_streams_contract [where s = sample_server and req = sample_req and meets = "\<lambda>_. (None, None, 0)" and rounds = "[]"
      and rounds' = "[(Got sample_req, None), (Got sample_req, None), (Got_Error EOF, None)]" and send = None and now = 0]
  have "snd (serverStream sample_server sample_req (\<lambda>_. (None, None, 0))) = None"
    by (simp add: serverStream_def sample_server_def sample_req_def serverStream_loop.simps admit_request_def pause_def injectedFailure_def max_def)
  moreover have "unat (max (rq_streamCount sample_req) 1) = 2" by (simp add: sample_req_def max_def word_le_nat_alt)
  moreover have "snd (clientStream sample_server [(Got sample_req, None), (Got sample_req, None), (Got_Error EOF, None)] None 0) = Stream_Ended None"
    by (simp add: clientStream_def sample_server_def sample_req_def admit_request_def pause_def injectedFailure_def)
  ultimately show ?thesis using c by (simp add: split_beta sample_req_def i64_min_def i64_max_def)
qed

text \<open>Every call is counted once, under its method and the code that the client sees.\<close>

lemma rpc_counted_once:
  "sv_requests (fst (Echo number s req ended dice now)) =
     sv_requests s @ [(''Echo'', status_number number (case echo s req ended dice now of Inl e \<Rightarrow> Some e | Inr _ \<Rightarrow> None))]"
  "sv_requests (fst (ServerStream number s req meets)) =
     sv_requests s @ [(''ServerStream'', status_number number (snd (serverStream s req meets)))]"
  "snd (snd (BidiStream number s rounds)) = Stream_Ended err \<Longrightarrow>
     sv_requests (fst (BidiStream number s rounds)) = sv_requests s @ [(''BidiStream'', status_number number err)]"
  "snd (snd (ClientStream number s rounds' send now)) = Stream_Ended err \<Longrightarrow>
     sv_requests (fst (ClientStream number s rounds' send now)) = sv_requests s @ [(''ClientStream'', status_number number err)]"
  by (auto simp: Echo_def ServerStream_def BidiStream_def ClientStream_def record_end_def server_record_def Let_def split: prod.splits)

text \<open>What the options of a started backend satisfy; NaN is not outside \<open>[0,1]\<close> for the two comparisons.\<close>

lemma parseOptions_ok:
  assumes "parseOptions oob env hostname args = Inr c"
  shows "bo_listen c \<noteq> [] \<and> bo_adminListen c \<noteq> [] \<and> bo_id c \<noteq> [] \<and> 0 \<le> bo_delay c \<and>
    (bo_failRatio c = NaN \<or> (\<exists>r. bo_failRatio c = Fin r \<and> 0 \<le> r \<and> r \<le> 1)) \<and> bo_health c \<in> {''serving'', ''not_serving''}"
proof -
  obtain d where d: "check_options d = Inr c" using assms by (auto simp: parseOptions_def split: sum.splits if_splits)
  then have "d = c" by (auto simp: check_options_def split: if_splits)
  then show ?thesis using d by (cases "bo_failRatio c") (auto simp: check_options_def split: if_splits)
qed

text \<open>
  A malformed variable is an error even when the flag it would only be the default of is given.
\<close>

lemma malformed_env_beats_flag:
  "parseOptions oob [''BACKEND_DELAY'' \<mapsto> ''soon''] None [''-delay'', ''5ms''] = Inl (Env_Not_Duration ''BACKEND_DELAY'' ''soon'')"
proof -
  have "ParseDuration ''soon'' = None" "ParseFloat ''soon'' = None" by code_simp+
  then show ?thesis by (simp add: parseOptions_def envDuration_def)
qed

text \<open>On every path on which both ports are bound, the health status is withdrawn and the delay waited out before the server stops.\<close>

lemma backend_drains_first:
  assumes "Serving_Both \<in> set (snd (backend_run oob env hostname args w))"
  shows "\<exists>before rest. snd (backend_run oob env hostname args w) = before @ [Health_Shutdown, Drain_Waited drainDelay, Graceful_Stopped] @ rest \<and>
    Serving_Both \<in> set before \<and> Graceful_Stopped \<notin> set before"
proof -
  obtain c where c: "parseOptions oob env hostname args = Inr c" "bw_listen w (bo_listen c) = None" "bw_listen w (bo_adminListen c) = None"
    using assms by (auto simp: backend_run_def split: sum.splits option.splits)
  show ?thesis
    by (intro exI [of _ "[Bound (bo_listen c), Bound (bo_adminListen c), Health_Set [] (servingStatus c), Health_Set echo_service (servingStatus c),
      Serving_Both, Started_Log, Draining_Log]"] exI [of _ "[Admin_Down (\<not> bw_adminErr w), Stopped_Log]"]) (simp add: backend_run_def c)
qed

end
