(* ===== verification/Spec2Isabelle.thy ===== *)
theory Spec2Isabelle
  imports Prelude Float64 Go_Strings Circuit Circuit_Window Admission Circuit_Episodes Capped Circuit_Registry Circuit_Callbacks
    Preference Hashring Config Metrics Pool Balancer Ratelimit Grpc Health Health_Lifecycle Middleware Pipeline Label_Races Proxy Exchange
    Report Verdict Flags Loadgen Open_Loop Loadgen_Run Lb_Config Lb Backend_Server
begin

text \<open>
  A verification development for \<^verbatim>\<open>nw-lb-go\<close>, an L7 gRPC load balancer with consistent-hash affinity, active health
  checking, circuit breakers, rate limiting and failover, together with its load generator and its demo upstream.

  \<^bold>\<open>The program and its parts.\<close> A request enters the interceptor chain (\<^verbatim>\<open>internal/middleware\<close>: recovery, request
  context, logging, metrics, rate limit, circuit breaker by method) and reaches the proxy (\<^verbatim>\<open>internal/proxy\<close>), which
  asks the balancer (\<^verbatim>\<open>internal/balancer\<close>) for candidates in preference order. The balancer walks the hash ring
  (\<^verbatim>\<open>internal/hashring\<close>) and filters by the state of the pool (\<^verbatim>\<open>internal/pool\<close>): health, published by the checker
  (\<^verbatim>\<open>internal/health\<close>), and the breaker of each backend (\<^verbatim>\<open>internal/circuit\<close>). The proxy tries the candidates in turn
  while a retry is safe. \<^verbatim>\<open>internal/config\<close> is the configuration, \<^verbatim>\<open>internal/ratelimit\<close> the token buckets,
  \<^verbatim>\<open>internal/metrics\<close> the series. \<^verbatim>\<open>cmd/lb\<close> assembles and shuts down the process, \<^verbatim>\<open>cmd/loadgen\<close> measures it and
  \<^verbatim>\<open>cmd/backend\<close> is an upstream for demonstrations. All paths are under \<^verbatim>\<open>src/\<close>.

  \<^bold>\<open>Theories.\<close>
  \<^item> Shared: \<^verbatim>\<open>Prelude\<close> (64-bit integers, durations, decimal printing, \<open>sort.Search\<close>, list lemmas), \<^verbatim>\<open>Float64\<close> (IEEE
    binary64 with exact rounding), \<^verbatim>\<open>Go_Strings\<close> (the functions of \<open>strings\<close>, \<open>strconv\<close> and \<open>time\<close> that the sources call),
    \<^verbatim>\<open>Flags\<close> (the \<open>flag\<close> package), \<^verbatim>\<open>Grpc\<close> (status codes and errors).
  \<^item> Circuit breaker: \<^verbatim>\<open>Circuit\<close> (\<open>Breaker\<close> and \<open>Probe\<close>, one definition per function or critical section),
    \<^verbatim>\<open>Circuit_Window\<close> (the rolling window), \<^verbatim>\<open>Admission\<close> (the locale of a gate that reserves and returns probes),
    \<^verbatim>\<open>Circuit_Episodes\<close> (probes under interleaving), \<^verbatim>\<open>Capped\<close> (the locale of a capped table), \<^verbatim>\<open>Circuit_Registry\<close>
    (\<open>Registry\<close> with the steps of \<open>Get\<close> at its locks), \<^verbatim>\<open>Circuit_Callbacks\<close> (the callbacks, which run outside the mutex).
  \<^item> Routing: \<^verbatim>\<open>Preference\<close> (the locale of preference orders), \<^verbatim>\<open>Hashring\<close>, \<^verbatim>\<open>Pool\<close>, \<^verbatim>\<open>Balancer\<close>.
  \<^item> Health: \<^verbatim>\<open>Health\<close> (probing, damping, publication), \<^verbatim>\<open>Health_Lifecycle\<close> (the watcher and
    the probing loops that \<open>Start\<close> spawns, and \<open>Stop\<close>).
  \<^item> Requests: \<^verbatim>\<open>Ratelimit\<close>, \<^verbatim>\<open>Metrics\<close>, \<^verbatim>\<open>Middleware\<close> (the interceptors), \<^verbatim>\<open>Pipeline\<close> (their composition),
    \<^verbatim>\<open>Label_Races\<close> (concurrent requests in the Metrics interceptor), \<^verbatim>\<open>Proxy\<close> (one exchange), \<^verbatim>\<open>Exchange\<close> (its properties).
  \<^item> Configuration and commands: \<^verbatim>\<open>Config\<close>, \<^verbatim>\<open>Lb_Config\<close> and \<^verbatim>\<open>Lb\<close> (\<^verbatim>\<open>cmd/lb/main.go\<close>), \<^verbatim>\<open>Report\<close> and \<^verbatim>\<open>Verdict\<close>
    (\<^verbatim>\<open>cmd/loadgen/stats.go\<close>), \<^verbatim>\<open>Loadgen\<close>, \<^verbatim>\<open>Open_Loop\<close> and \<^verbatim>\<open>Loadgen_Run\<close> (\<^verbatim>\<open>cmd/loadgen/main.go\<close>), \<^verbatim>\<open>Backend_Server\<close>
    (\<^verbatim>\<open>cmd/backend/main.go\<close>).

  \<^bold>\<open>How state and operations correspond.\<close> A struct is a record with a prefix for its fields, an enumeration a
  datatype, a Go \<open>int\<close> an \<open>int\<close> (with \<open>i64\<close> where it can overflow), sized unsigned integers are words, a \<open>float64\<close> is
  \<open>f64\<close>, a string the list of its bytes. A function keeps the name of the source; a method that would clash has its
  receiver's type in front (\<open>Ring_Set\<close>, \<open>Pool_Close\<close>, \<open>Backend_Reserve\<close>). A method that changes its receiver returns
  it. Pointers that are shared are positions in the owner's state: a \<open>*Backend\<close> is its position in the pool, a
  \<open>*Breaker\<close> a reference into a registry, a bucket of the limiter a position in a heap of entries. Code under one mutex
  is one step; \<open>Registry.Get\<close>, the limiter's \<open>client\<close>, the probes and the callbacks of a breaker, the labels of the Metrics
  interceptor, the goroutines of the checker and the open loop of the load generator are transition systems whose
  steps are the critical sections and atomic operations, so that their properties hold for every interleaving. The
  other definitions, one RPC or one run of a command, are sequential. Errors and panics are values.

  \<^bold>\<open>What the lemmas show.\<close> Breaker: the window is a queue of time slots and counts what its duration says; state
  changes form a legal chain and each gives one callback, though not in that order; half-open slots are never lost,
  so the breaker recovers. Registry: the cap under races. Ring: a function of the membership, minimal disruption. Pool and balancer: \<open>Pick\<close> is the specification
  \<open>spec_pick\<close>, reserves nothing, and a health flap moves only the keys of its backend (both while the clock stands still). Limiter: refinement of one flat
  map of buckets, one bucket per client. Health: hysteresis, and \<open>Stop\<close> returns in every fair run and leaves nothing running.
  Chain: panics are contained, labels bounded under races, the handler sees a valid request id. Proxy: the client sees one attempt, upstreams see the
  messages in order and at most once, no probe stays reserved. Configuration: validation is exact (it lets a NaN sampling rate
  pass), every setting comes from the first layer that has it. Commands: every exit of the load balancer is orderly; the open loop measures every slot
  of its schedule once and ends; the report is the census of the samples and its verdict means what it says; the
  streams of the echo service. The last section of this theory starts the composed process.

  \<^bold>\<open>Interfaces.\<close> Locales state what one component relies on: \<open>admission_gate\<close> (interpreted by the breaker and by the
  backends of the pool), the capped table (interpreted by the registry and by the bounded labels) and the
  preference order (interpreted by the ring). Their lemmas are used through these interpretations.

  \<^bold>\<open>Parameters, bounds, termination.\<close> Loops are structural recursions or functions with a measure. The one loop with
  fuel, \<open>duration_loop\<close> of \<open>time.ParseDuration\<close>, gets the length of its input, which is enough since every round consumes a
  character (\<open>duration_loop_fuel\<close>). Loops that wait for the outside world consume a list of what they meet, or are step relations, whose
  progress is a theorem (\<open>open_loop_terminates\<close>, and \<open>checker_stop_returns\<close> for fair runs in which every probe ends). Code outside the repository is a parameter:
  the hash function, the token bucket of \<open>golang.org/x/time/rate\<close>, the YAML and JSON codecs, \<open>text/tabwriter\<close>, dialling
  and closing a connection, what a gRPC stream delivers, \<open>status.Code\<close> (\<open>code_doc\<close> states its documentation),
  the clock, random numbers, signals. \<open>oob\<close> is the conversion of a float that does not fit an integer, which Go
  leaves to the implementation. The clock of the breaker is arbitrary except where a property says it is monotone.

  \<^bold>\<open>Not modelled.\<close> The generated protobuf code; the internals of gRPC, Prometheus, \<open>net/http\<close>, \<open>slog\<close> and the
  runtime; the HTTP mux and the profiling endpoints of the admin server, and transport options whose only effect is
  inside gRPC; the texts of most error messages and help texts (errors are constructors with their
  arguments); memory consumption and real time, other than through clock readings.
\<close>

section \<open>From a configuration to a serving process\<close>

lemma OnChange_pool:
  assumes "Balancer_New h p cfg m cb = (bal, q, calls)"
  shows "q = p\<lparr>pl_callbacks := pl_callbacks p @ [cb]\<rparr>" "bal = fst (Balancer_New h p cfg m cb)"
  using assms by (auto simp: Balancer_New_def Let_def Pool_OnChange_def split_beta)

lemma config_ok_normal:
  assumes "config_ok cfg"
  shows "normalize (breakerSettings (c_CircuitBreaker cfg) m) = breakerSettings (c_CircuitBreaker cfg) m"
  using assms by (auto simp: config_ok_def circuit_ok_def normalize_def breakerSettings_def Let_def)

lemma resolved_config_ok: "resolveConfig openf decode env args = Inr cfg \<Longrightarrow> config_ok cfg"
  by (rule resolveConfig_cases) (simp_all add: Validate_config_ok)

text \<open>
  C19: The components fit together. From whatever configuration the load balancer resolves, once the pool can be
  built, the process starts in a state in which every other property applies: the pool has the configured backends
  in their order and is well-formed, the ring of the balancer agrees with it, the settings of the breakers are used
  as configured, the registry of the breakers by method and the limiter are well-formed, and the very first pick,
  for any key, yields at least one and at most \<open>max_attempts\<close> distinct backends.
\<close>

theorem resolved_config_serves:
  assumes "resolveConfig openf decode env args = Inr cfg" "newPool cfg True dial clock now = Inr (p, calls)"
    and "Balancer_New h p (c_Routing cfg) True 0 = (bal, q, calls')" "w_pool w = q"
    and "Pick h clk bal key (rt_MaxAttempts (c_Routing cfg)) w = (w', bal', out)"
  shows "pool_inv q \<and> synced h q bal \<and> map bk_id (pl_backends q) = map cb_ID (c_Backends cfg) \<and>
    normalize (breakerSettings (c_CircuitBreaker cfg) True) = breakerSettings (c_CircuitBreaker cfg) True \<and>
    (case methodBreakers (c_CircuitBreaker cfg) now of None \<Rightarrow> \<not> cc_Enabled (c_CircuitBreaker cfg) | Some r \<Rightarrow> registry_inv r) \<and>
    limiter_inv h (newWithClock newl oob (limiter_config cfg)) \<and>
    out \<noteq> [] \<and> distinct out \<and> int (length out) \<le> rt_MaxAttempts (c_Routing cfg) \<and> list_all (\<lambda>i. i < length (pl_backends q)) out"
proof -
  have cfg: "config_ok cfg" by (rule resolved_config_ok [OF assms(1)])
  have p: "pool_inv p" "map bk_id (pl_backends p) = map cb_ID (c_Backends cfg)"
    using newPool_outcomes [of cfg True dial clock now p calls] assms(2) by blast+
  note q = OnChange_pool [OF assms(3)]
  have inv: "pool_inv q" using p(1) by (simp add: q(1) pool_inv_def)
  have sync: "synced h q bal" using New_synced [OF p(1), of h "c_Routing cfg" True 0] by (simp add: q synced_def)
  have ids: "map bk_id (pl_backends q) = map cb_ID (c_Backends cfg)" using p(2) by (simp add: q(1))
  have k: "max (rt_MaxAttempts (c_Routing cfg)) 1 = rt_MaxAttempts (c_Routing cfg)" using cfg by (simp add: config_ok_def)
  have "pl_backends q \<noteq> []" using ids cfg by (auto simp: config_ok_def)
  then have ne: "bs_backends (ba_snap bal) \<noteq> []" using sync by (simp add: synced_def)
  have snap: "snap_ok (w_pool w) bal" using synced_snap_ok [OF inv sync] assms(4) by simp
  note scan = Pick_scanned [OF snap assms(5)]
  have "out \<noteq> [] \<and> distinct out \<and> int (length out) \<le> rt_MaxAttempts (c_Routing cfg) \<and> list_all (\<lambda>i. i < length (pl_backends q)) out"
    using scan(1) scan(2) [OF ne] sync k by (auto simp: scanned_def synced_def list_all_iff)
  moreover have "case methodBreakers (c_CircuitBreaker cfg) now of None \<Rightarrow> \<not> cc_Enabled (c_CircuitBreaker cfg) | Some r \<Rightarrow> registry_inv r"
    using NewRegistry_inv by (simp add: methodBreakers_def)
  ultimately show ?thesis using inv sync ids config_ok_normal [OF cfg] new_inv by blast
qed

theorem resolved_config_serves_witness:
  "\<exists>p calls bal q calls' w' bal' out. newPool one_backend True (\<lambda>i a. Inr i) (\<lambda>_. 0) 0 = Inr (p :: nat pool, calls) \<and>
     Balancer_New (\<lambda>_. 0) p (c_Routing one_backend) True 0 = (bal, q, calls') \<and>
     Pick (\<lambda>_. 0) (\<lambda>_. 0) bal ''k'' 3 \<lparr>w_pool = q, w_tick = 0, w_fired = []\<rparr> = (w', bal', out) \<and> out \<noteq> []"
proof -
  obtain p calls where p: "newPool one_backend True (\<lambda>i a. Inr i) (\<lambda>_. 0) 0 = Inr (p :: nat pool, calls)"
    using one_backend_pool [of True] by blast
  obtain bal q calls' where b: "Balancer_New (\<lambda>_. 0) p (c_Routing one_backend) True 0 = (bal, q, calls')" by (metis prod_cases3)
  obtain w' bal' out where k: "Pick (\<lambda>_. 0) (\<lambda>_. 0) bal ''k'' 3 \<lparr>w_pool = q, w_tick = 0, w_fired = []\<rparr> = (w', bal', out)" by (metis prod_cases3)
  have three: "rt_MaxAttempts (c_Routing one_backend) = 3" by (simp add: one_backend_def Default_def)
  have "out \<noteq> []"
    using resolved_config_serves [OF one_backend_resolved p b, of "\<lparr>w_pool = q, w_tick = 0, w_fired = []\<rparr>", unfolded three, OF _ k,
        where newl = sample_newl and oob = "\<lambda>_. 0"] by simp
  then show ?thesis using p b k by blast
qed

end
